(* ===== verification/Prelude.thy ===== *)
theory Prelude
  imports Main "HOL-Library.Word" "HOL-Library.Monad_Syntax"
begin

text \<open>
  The vocabulary every other theory of the library shares: names for the C integer
  types, the flat byte memory, little-endian 64-bit loads and stores, the cyclic range
  predicate \<open>within\<close> that describes \<open>n\<close> bytes starting at a pointer (pointers
  wrap at \<open>2 ^ 64\<close>, as they do on the machine), and generic facts on words, lists and
  the option monad.

  Throughout the library a function that may run for ever, or that would touch memory
  outside the object it was given, returns an \<open>option\<close>: \<open>None\<close> is "does not
  return or leaves its object".
\<close>

unbundle bit_operations_syntax

section \<open>Types\<close>

type_synonym u8 = "8 word"
type_synonym u16 = "16 word"
type_synonym u32 = "32 word"
type_synonym u64 = "64 word"

text \<open>The C type \<open>size_t\<close> and every pointer are 64 bits wide on x86-64.\<close>

type_synonym ptr = "64 word"
type_synonym mem = "u64 \<Rightarrow> u8"

abbreviation (input) NULL :: ptr where
  "NULL \<equiv> 0"

named_theorems range_simps \<open>membership of an address in a range of bytes\<close>
named_theorems load_store \<open>reads from an updated memory\<close>
named_theorems inv_defs \<open>the definitions of the component invariants\<close>

section \<open>Ranges of addresses\<close>

definition within :: "ptr \<Rightarrow> nat \<Rightarrow> ptr \<Rightarrow> bool" where
  "within p n x \<longleftrightarrow> unat (x - p) < n"

lemma within_0 [simp]: "\<not> within p 0 x"
  by (simp add: within_def)

lemma unat_minus_one_lt:
  fixes x :: "'a::len word"
  shows "x \<noteq> 0 \<Longrightarrow> unat (x - 1) = unat x - 1"
  by (simp add: unat_minus_one)

lemma within_Suc: "within p (Suc n) x \<longleftrightarrow> x = p \<or> within (p + 1) n x \<and> x \<noteq> p"
proof (cases "x = p")
  case True
  then show ?thesis by (simp add: within_def)
next
  case False
  have e: "x - (p + 1) = (x - p) - 1" by simp
  have "unat (x - (p + 1)) = unat (x - p) - 1"
    unfolding e using False by (intro unat_minus_one_lt) simp
  moreover have "unat (x - p) \<noteq> 0"
    using False by (simp add: unat_eq_0)
  ultimately show ?thesis
    using False by (auto simp: within_def)
qed

lemma unat_of_nat_u64: "n < 2 ^ 64 \<Longrightarrow> unat (of_nat n :: u64) = n"
  by (simp add: unat_of_nat)

lemma unat_lt_u64: "unat (x :: u64) < 2 ^ 64"
  using unsigned_less [of x] by simp

lemma within_offset [range_simps]: "n < 2 ^ 64 \<Longrightarrow> within p k (p + of_nat n) \<longleftrightarrow> n < k"
  by (simp add: within_def unat_of_nat_u64)

lemma within_iff:
  "unat p + n \<le> 2 ^ 64 \<Longrightarrow> within p n x \<longleftrightarrow> unat p \<le> unat x \<and> unat x < unat p + n"
  using unat_lt_u64 [of x] by (auto simp: within_def unat_sub_if')

lemma within_ex: "within p n x \<Longrightarrow> \<exists>i < n. x = p + of_nat i"
  by (rule exI [of _ "unat (x - p)"]) (simp add: within_def)

lemma within_self [simp]: "within p n p \<longleftrightarrow> 0 < n"
  by (simp add: within_def)

lemma within_last: "n < 2 ^ 64 \<Longrightarrow> within p (Suc n) x \<longleftrightarrow> x = p + of_nat n \<or> within p n x"
proof -
  assume n: "n < 2 ^ 64"
  have "unat (x - p) = n \<longleftrightarrow> x = p + of_nat n"
    using n by (auto simp: unat_of_nat_u64)
  then show ?thesis by (auto simp: within_def less_Suc_eq)
qed

section \<open>Loads and stores of 64-bit words, little-endian\<close>

definition load64 :: "mem \<Rightarrow> ptr \<Rightarrow> u64" where
  "load64 m a =
     ucast (m a) OR push_bit 8 (ucast (m (a + 1))) OR push_bit 16 (ucast (m (a + 2)))
     OR push_bit 24 (ucast (m (a + 3))) OR push_bit 32 (ucast (m (a + 4)))
     OR push_bit 40 (ucast (m (a + 5))) OR push_bit 48 (ucast (m (a + 6)))
     OR push_bit 56 (ucast (m (a + 7)))"

definition store64 :: "mem \<Rightarrow> ptr \<Rightarrow> u64 \<Rightarrow> mem" where
  "store64 m a v = (\<lambda>x. if within a 8 x then ucast (drop_bit (8 * unat (x - a)) v) else m x)"

lemma not_bit_u8: "8 \<le> n \<Longrightarrow> \<not> bit (b :: u8) n"
  by (auto dest: bit_imp_le_length)

lemma bit_load64:
  "bit (load64 m a) i \<longleftrightarrow> i < 64 \<and> bit (m (a + of_nat (i div 8))) (i mod 8)"
proof (cases "i < 64")
  case False
  then show ?thesis by (auto dest: bit_imp_le_length)
next
  case True
  define k r where "k = i div 8" and "r = i mod 8"
  then have i: "i = 8 * k + r" and r: "r < 8" by simp_all
  with True have "k < 8" by simp
  then consider "k = 0" | "k = 1" | "k = 2" | "k = 3" | "k = 4" | "k = 5" | "k = 6" | "k = 7"
    by linarith
  then show ?thesis
    unfolding k_def [symmetric] r_def [symmetric]
    using r True by cases (simp_all add: i load64_def bit_simps not_bit_u8)
qed

lemma load64_store64 [load_store]: "load64 (store64 m a v) a = v"
proof (rule bit_eqI)
  fix n assume "possible_bit TYPE(u64) n"
  then have n: "n < 64" by simp
  then have d: "n div 8 < 8" by simp
  then have u: "unat (of_nat (n div 8) :: u64) = n div 8" by (simp add: unat_of_nat_u64)
  show "bit (load64 (store64 m a v) a) n \<longleftrightarrow> bit v n"
    using n d by (simp add: bit_load64 store64_def within_def u bit_simps)
qed

lemma load64_cong: "(\<And>i. i < 8 \<Longrightarrow> m (a + of_nat i) = m' (a + of_nat i)) \<Longrightarrow> load64 m a = load64 m' a"
  by (rule bit_eqI) (simp add: bit_load64)

lemma load64_store64_disjoint:
  assumes "\<And>x. within a 8 x \<Longrightarrow> \<not> within b 8 x"
  shows "load64 (store64 m a v) b = load64 m b"
proof (rule load64_cong)
  fix i :: nat assume "i < 8"
  then have "within b 8 (b + of_nat i)" by (simp add: within_offset)
  with assms have "\<not> within a 8 (b + of_nat i)" by blast
  then show "store64 m a v (b + of_nat i) = m (b + of_nat i)"
    by (simp add: store64_def)
qed

text \<open>Two distinct 8-byte aligned addresses name disjoint 64-bit words.\<close>

definition aligned :: "nat \<Rightarrow> ptr \<Rightarrow> bool" where
  "aligned k a \<longleftrightarrow> k dvd unat a"

lemma aligned_disjoint:
  assumes "aligned 8 a" and "aligned 8 b" and "a \<noteq> b" and "within a 8 x"
  shows "\<not> within b 8 x"
proof
  assume "within b 8 x"
  have "unat x div 8 = unat c div 8" if "aligned 8 c" and "within c 8 x" for c :: ptr
  proof -
    from that(2) obtain i where i: "i < 8" "x = c + of_nat i"
      by (auto dest: within_ex)
    from that(1) obtain q where q: "unat c = 8 * q" by (auto simp: aligned_def)
    have "unat c < 2 ^ 64" by (rule unat_lt_u64)
    then have "unat c + i < 2 ^ 64" using q i(1) by simp
    then have "unat x = unat c + i"
      using i by (simp add: unat_word_ariths unat_of_nat_u64)
    then show ?thesis using q i(1) by simp
  qed
  from this [OF assms(1,4)] this [OF assms(2) \<open>within b 8 x\<close>]
  have "unat a div 8 = unat b div 8" by simp
  then have "unat a = unat b"
    using assms(1,2) by (auto simp: aligned_def)
  with assms(3) show False by (simp add: word_unat_eq_iff)
qed

lemma load64_store64_other [load_store]:
  "aligned 8 a \<Longrightarrow> aligned 8 b \<Longrightarrow> a \<noteq> b \<Longrightarrow> load64 (store64 m a v) b = load64 m b"
  by (rule load64_store64_disjoint) (rule aligned_disjoint)

section \<open>Rounding down to a power of two\<close>

lemma and_not_mask: "(x :: 'a::len word) AND NOT (mask n) = x div 2 ^ n * 2 ^ n"
proof -
  have "x AND NOT (mask n) = push_bit n (drop_bit n x)"
    by (rule bit_word_eqI) (auto simp: bit_simps)
  then show ?thesis by (simp add: push_bit_eq_mult drop_bit_eq_div)
qed

lemma unat_div_mult: "unat ((x :: u64) div k * k) = unat x div unat k * unat k"
proof -
  have "unat x div unat k * unat k \<le> unat x" by simp
  then have "unat (x div k) * unat k < 2 ^ 64"
    using unat_lt_u64 [of x] unfolding unat_div by linarith
  then show ?thesis using unat_mult_lem [of "x div k" k] by (simp add: unat_div)
qed

lemma unat_align_down:
  "unat ((x :: u64) AND - 4096) = unat x div 4096 * 4096"
  "unat ((x :: u64) AND - 16) = unat x div 16 * 16"
  using and_not_mask [of x 12] and_not_mask [of x 4] unat_div_mult [of x 4096] unat_div_mult [of x 16]
  by (simp_all add: mask_eq_exp_minus_1)

end
