(* ===== verification/Net.thy ===== *)
theory Net
  imports Prelude
begin

text \<open>
  The network stack of \<open>kernel/net/net.c\<close>: Ethernet, ARP, IPv4 and ICMP echo.  A packet is the list
  of its bytes; a 16-bit field of a packed structure is two bytes, low byte first, so that \<open>htons\<close>
  puts the high byte first on the wire.  \<open>virtio_net_tx\<close> appends to the list \<open>sent\<close> and
  returns what the driver answers, the function \<open>tx\<close>.  A call of \<open>virtio_net_rx_poll\<close> takes the next
  element of \<open>polls\<close>: the timer value and the frames the device has then.

  Waiting for an ARP reply processes incoming frames, which may in turn answer an echo request and wait
  again: \<open>arp_resolve\<close> has the number of such nested waits allowed as its first argument, and the
  handlers take the resolver they call as an argument.

  The lemmas: the cache returns what was inserted last, a header with its checksum verifies, and the
  replies to ARP and echo requests are the right frames.
\<close>

unbundle bit_operations_syntax

abbreviation (input) ETHERTYPE_IPV4 :: u16 where "ETHERTYPE_IPV4 \<equiv> 0x0800"
abbreviation (input) ETHERTYPE_ARP :: u16 where "ETHERTYPE_ARP \<equiv> 0x0806"
abbreviation (input) IP_PROTO_ICMP :: u8 where "IP_PROTO_ICMP \<equiv> 1"
abbreviation (input) ICMP_ECHO_REPLY :: u8 where "ICMP_ECHO_REPLY \<equiv> 0"
abbreviation (input) ICMP_ECHO_REQUEST :: u8 where "ICMP_ECHO_REQUEST \<equiv> 8"
abbreviation (input) ARP_CACHE_SIZE :: nat where "ARP_CACHE_SIZE \<equiv> 16"

section \<open>Bytes and fields\<close>

type_synonym bytes = "u8 list"

definition htons :: "u16 \<Rightarrow> u16" where
  "htons v = drop_bit 8 v OR push_bit 8 v"

definition ntohs :: "u16 \<Rightarrow> u16" where
  "ntohs v = htons v"

definition le16 :: "u16 \<Rightarrow> bytes" where
  "le16 v = [ucast v, ucast (drop_bit 8 v)]"

definition rd16 :: "bytes \<Rightarrow> nat \<Rightarrow> u16" where
  "rd16 b i = ucast (b ! i) OR push_bit 8 (ucast (b ! Suc i))"

definition field :: "bytes \<Rightarrow> nat \<Rightarrow> nat \<Rightarrow> bytes" where
  "field b i n = take n (drop i b)"

record arp_entry =
  ip :: bytes
  mac :: bytes
  valid :: bool

record net =
  our_mac :: bytes
  our_ip :: bytes
  net_up :: bool
  arp_cache :: "arp_entry list"
  ping_pending :: bool
  ping_sent_tick :: u64
  ping_seq :: u16
  ping_result :: int
  ticks :: u64
  sent :: "bytes list"
  polls :: "(u64 \<times> bytes list) list"

section \<open>The ARP cache\<close>

definition arp_index :: "bytes \<Rightarrow> net \<Rightarrow> nat option" where
  "arp_index a s = List.find (\<lambda>i. valid (arp_cache s ! i) \<and> ip (arp_cache s ! i) = a) [0..<ARP_CACHE_SIZE]"

definition arp_lookup :: "bytes \<Rightarrow> net \<Rightarrow> arp_entry option" where
  "arp_lookup a s = map_option (\<lambda>i. arp_cache s ! i) (arp_index a s)"

definition set_entry :: "nat \<Rightarrow> (arp_entry \<Rightarrow> arp_entry) \<Rightarrow> net \<Rightarrow> net" where
  "set_entry i f s = s\<lparr>arp_cache := (arp_cache s)[i := f (arp_cache s ! i)]\<rparr>"

definition arp_insert :: "bytes \<Rightarrow> bytes \<Rightarrow> net \<Rightarrow> net" where
  "arp_insert a m s = (case arp_index a s of
     Some i \<Rightarrow> set_entry i (mac_update (\<lambda>_. m)) s
   | None \<Rightarrow> (case List.find (\<lambda>i. \<not> valid (arp_cache s ! i)) [0..<ARP_CACHE_SIZE] of
       Some i \<Rightarrow> set_entry i (\<lambda>e. e\<lparr>ip := a, mac := m, valid := True\<rparr>) s
     | None \<Rightarrow> set_entry 0 (\<lambda>e. e\<lparr>ip := a, mac := m\<rparr>) s))"

section \<open>The checksum\<close>

fun sum16 :: "bytes \<Rightarrow> u32 \<Rightarrow> u32" where
  "sum16 [] acc = acc"
| "sum16 [b] acc = acc + ucast b"
| "sum16 (b # c # bs) acc = sum16 bs (acc + (ucast b OR push_bit 8 (ucast c)))"

lemma fold_smaller: "drop_bit 16 (acc :: u32) \<noteq> 0 \<Longrightarrow> unat ((acc AND 0xFFFF) + drop_bit 16 acc) < unat acc
    \<and> unat ((acc AND 0xFFFF) + drop_bit 16 acc) = unat acc mod 65536 + unat acc div 65536"
proof -
  assume nz: "drop_bit 16 acc \<noteq> 0"
  have hi: "unat (drop_bit 16 acc) = unat acc div 65536" by (simp add: drop_bit_eq_div unat_div)
  have "acc AND 0xFFFF = take_bit 16 acc" by (simp add: take_bit_eq_mask mask_eq_exp_minus_1)
  then have lo: "unat (acc AND 0xFFFF) = unat acc mod 65536" by (simp add: unat_mod take_bit_eq_mod)
  have b: "unat acc < 2 ^ 32" using unsigned_less [of acc] by simp
  have pos: "unat acc div 65536 \<noteq> 0" using nz hi by (metis unat_eq_0)
  have "unat acc div 65536 < 65536" using b by (simp add: less_mult_imp_div_less)
  then have "unat ((acc AND 0xFFFF) + drop_bit 16 acc) = unat acc mod 65536 + unat acc div 65536"
    using hi lo mod_less_divisor [of 65536 "unat acc"] by (simp add: unat_plus_if')
  moreover have "unat acc = unat acc div 65536 * 65536 + unat acc mod 65536" by simp
  ultimately show ?thesis using pos by linarith
qed

function fold_sum :: "u32 \<Rightarrow> u32" where
  "fold_sum acc = (if drop_bit 16 acc \<noteq> 0 then fold_sum ((acc AND 0xFFFF) + drop_bit 16 acc) else acc)"
  by pat_completeness auto
termination
  by (relation "measure unat") (auto dest: fold_smaller)

declare fold_sum.simps [simp del]

definition ip_checksum :: "bytes \<Rightarrow> u16" where
  "ip_checksum data = ucast (NOT (fold_sum (sum16 data 0)))"

section \<open>Sending\<close>

definition virtio_tx :: "(bytes \<Rightarrow> int) \<Rightarrow> bytes \<Rightarrow> net \<Rightarrow> int \<times> net" where
  "virtio_tx tx frame s = (tx frame, s\<lparr>sent := sent s @ [frame]\<rparr>)"

definition frame_too_long :: "u16 \<Rightarrow> bool" where
  "frame_too_long payload_len \<longleftrightarrow> (1518 :: u16) < 14 + payload_len"

definition send_frame :: "(bytes \<Rightarrow> int) \<Rightarrow> bytes \<Rightarrow> u16 \<Rightarrow> bytes \<Rightarrow> net \<Rightarrow> int \<times> net" where
  "send_frame tx dst_mac ethertype payload s = (
     if frame_too_long (of_nat (length payload)) then (-1, s)
     else virtio_tx tx (dst_mac @ our_mac s @ le16 (htons ethertype) @ payload) s)"

definition arp_packet :: "u16 \<Rightarrow> bytes \<Rightarrow> bytes \<Rightarrow> net \<Rightarrow> bytes" where
  "arp_packet opc target_mac target_ip s =
     le16 (htons 1) @ le16 (htons 0x0800) @ [6, 4] @ le16 (htons opc) @ our_mac s @ our_ip s @ target_mac @ target_ip"

definition arp_send_reply :: "(bytes \<Rightarrow> int) \<Rightarrow> bytes \<Rightarrow> bytes \<Rightarrow> net \<Rightarrow> net" where
  "arp_send_reply tx dst_mac dst_ip s = snd (send_frame tx dst_mac ETHERTYPE_ARP (arp_packet 2 dst_mac dst_ip s) s)"

definition arp_send_request :: "(bytes \<Rightarrow> int) \<Rightarrow> bytes \<Rightarrow> net \<Rightarrow> net" where
  "arp_send_request tx target_ip s =
     snd (send_frame tx (replicate 6 0xFF) ETHERTYPE_ARP (arp_packet 1 (replicate 6 0xFF) target_ip s) s)"

definition handle_arp :: "(bytes \<Rightarrow> int) \<Rightarrow> bytes \<Rightarrow> net \<Rightarrow> net" where
  "handle_arp tx data s = (
     if length data < 28 then s
     else let sender_mac = field data 8 6; sender_ip = field data 14 4; target_ip = field data 24 4;
              s = arp_insert sender_ip sender_mac s
          in if ntohs (rd16 data 6) = 1 \<and> target_ip = our_ip s then arp_send_reply tx sender_mac sender_ip s else s)"

section \<open>IPv4 and ICMP\<close>

type_synonym resolver = "bytes \<Rightarrow> net \<Rightarrow> bytes option \<times> net"

definition ip_header :: "bytes \<Rightarrow> u8 \<Rightarrow> u16 \<Rightarrow> u16 \<Rightarrow> net \<Rightarrow> bytes" where
  "ip_header dst_ip protocol payload_len chk s =
     [0x45, 0] @ le16 (htons (20 + payload_len)) @ [0, 0, 0, 0, 64, protocol] @ le16 chk @ our_ip s @ dst_ip"

definition send_ipv4 :: "(bytes \<Rightarrow> int) \<Rightarrow> resolver \<Rightarrow> bytes \<Rightarrow> u8 \<Rightarrow> bytes \<Rightarrow> net \<Rightarrow> int \<times> net" where
  "send_ipv4 tx resolve dst_ip protocol payload s = (case resolve dst_ip s of
     (None, s) \<Rightarrow> (-1, s)
   | (Some m, s) \<Rightarrow>
       let n = of_nat (length payload);
           hdr = ip_header dst_ip protocol n (ip_checksum (ip_header dst_ip protocol n 0 s)) s
       in send_frame tx m ETHERTYPE_IPV4 (hdr @ payload) s)"

definition echo_reply :: "bytes \<Rightarrow> bytes" where
  "echo_reply icmp =
     (let r = icmp[0 := ICMP_ECHO_REPLY, 2 := 0, 3 := 0]; c = ip_checksum r
      in r[2 := ucast c, 3 := ucast (drop_bit 8 c)])"

definition handle_icmp :: "(bytes \<Rightarrow> int) \<Rightarrow> resolver \<Rightarrow> bytes \<Rightarrow> nat \<Rightarrow> net \<Rightarrow> net" where
  "handle_icmp tx resolve data ip_len s = (
     if ip_len < 28 then s
     else let icmp = take (ip_len - 20) (drop 20 data)
          in if ip_checksum icmp \<noteq> 0 then s
             else if icmp ! 0 = ICMP_ECHO_REQUEST \<and> icmp ! 1 = 0
             then (if 1480 < ip_len - 20 then s
                   else snd (send_ipv4 tx resolve (field data 12 4) IP_PROTO_ICMP (echo_reply icmp) s))
             else if icmp ! 0 = ICMP_ECHO_REPLY \<and> ping_pending s \<and> ntohs (rd16 icmp 6) = ping_seq s
             then s\<lparr>ping_result := sint (ucast (ticks s - ping_sent_tick s) :: 32 word), ping_pending := False\<rparr>
             else s)"

definition handle_ipv4 :: "(bytes \<Rightarrow> int) \<Rightarrow> resolver \<Rightarrow> bytes \<Rightarrow> net \<Rightarrow> net" where
  "handle_ipv4 tx resolve data s = (
     if length data < 20 then s
     else if field data 16 4 \<noteq> our_ip s \<and> field data 16 4 \<noteq> [255, 255, 255, 255] then s
     else if ip_checksum (take 20 data) \<noteq> 0 then s
     else if data ! 9 = IP_PROTO_ICMP
     then handle_icmp tx resolve data (min (unat (ntohs (rd16 data 2))) (length data)) s
     else s)"

definition net_rx :: "(bytes \<Rightarrow> int) \<Rightarrow> resolver \<Rightarrow> bytes \<Rightarrow> net \<Rightarrow> net" where
  "net_rx tx resolve frame s = (
     if length frame < 14 then s
     else let payload = drop 14 frame; etype = ntohs (rd16 frame 12)
          in if etype = ETHERTYPE_ARP then handle_arp tx payload s
             else if etype = ETHERTYPE_IPV4 then handle_ipv4 tx resolve payload s
             else s)"

section \<open>Resolving an address\<close>

text \<open>The polling loop of one attempt: it ends at the deadline, or when the cache has the address.\<close>

function poll_loop :: "(bytes \<Rightarrow> int) \<Rightarrow> resolver \<Rightarrow> bytes \<Rightarrow> u64 \<Rightarrow> nat \<Rightarrow> net \<Rightarrow> bytes option \<times> net" where
  "poll_loop tx resolve a deadline fuel s = (case polls s of
     [] \<Rightarrow> (None, s)
   | (t, frames) # ps \<Rightarrow>
       if fuel = 0 \<or> deadline \<le> t then (None, s\<lparr>ticks := t\<rparr>)
       else let s = fold (net_rx tx resolve) frames (s\<lparr>ticks := t, polls := ps\<rparr>)
            in case arp_lookup a s of
                 Some e \<Rightarrow> (Some (mac e), s)
               | None \<Rightarrow> poll_loop tx resolve a deadline (fuel - 1) s)"
  by pat_completeness auto
termination
  by (relation "measure (\<lambda>(_, _, _, _, fuel, _). fuel)") auto

fun attempts :: "nat \<Rightarrow> (bytes \<Rightarrow> int) \<Rightarrow> resolver \<Rightarrow> bytes \<Rightarrow> net \<Rightarrow> bytes option \<times> net" where
  "attempts 0 tx resolve a s = (None, s)"
| "attempts (Suc n) tx resolve a s =
     (let s = arp_send_request tx a s
      in case poll_loop tx resolve a (ticks s + 100) (length (polls s)) s of
           (Some m, s) \<Rightarrow> (Some m, s)
         | (None, s) \<Rightarrow> attempts n tx resolve a s)"

primrec arp_resolve :: "nat \<Rightarrow> (bytes \<Rightarrow> int) \<Rightarrow> bytes \<Rightarrow> net \<Rightarrow> bytes option \<times> net" where
  "arp_resolve 0 tx a s = (None, s)"
| "arp_resolve (Suc d) tx a s = (
     if a = [255, 255, 255, 255] then (Some (replicate 6 0xFF), s)
     else case arp_lookup a s of
       Some e \<Rightarrow> (Some (mac e), s)
     | None \<Rightarrow> attempts 3 tx (arp_resolve d tx) a s)"

section \<open>The interface\<close>

definition zero_entry :: arp_entry where
  "zero_entry = \<lparr>ip = [0, 0, 0, 0], mac = [0, 0, 0, 0, 0, 0], valid = False\<rparr>"

definition net_init :: "bytes \<Rightarrow> bytes \<Rightarrow> net \<Rightarrow> net" where
  "net_init card_mac a s = s\<lparr>our_ip := a, our_mac := card_mac, arp_cache := replicate ARP_CACHE_SIZE zero_entry,
     ping_pending := False, ping_seq := 0, net_up := True\<rparr>"

definition net_ping :: "nat \<Rightarrow> (bytes \<Rightarrow> int) \<Rightarrow> bytes \<Rightarrow> net \<Rightarrow> int \<times> net" where
  "net_ping d tx dst_ip s = (
     if \<not> net_up s then (-1, s)
     else let s = s\<lparr>ping_seq := ping_seq s + 1, ping_pending := True, ping_result := -1, ping_sent_tick := ticks s\<rparr>;
              icmp = (\<lambda>c. [ICMP_ECHO_REQUEST, 0] @ le16 c @ le16 (htons 0x1234) @ le16 (htons (ping_seq s)))
          in send_ipv4 tx (arp_resolve d tx) dst_ip IP_PROTO_ICMP (icmp (ip_checksum (icmp 0))) s)"

primrec ping_loop :: "nat \<Rightarrow> nat \<Rightarrow> (bytes \<Rightarrow> int) \<Rightarrow> u64 \<Rightarrow> net \<Rightarrow> net" where
  "ping_loop 0 d tx deadline s = s"
| "ping_loop (Suc n) d tx deadline s = (case polls s of
     [] \<Rightarrow> s
   | (t, frames) # ps \<Rightarrow>
       if \<not> ping_pending s \<or> deadline \<le> t then s
       else ping_loop n d tx deadline (fold (net_rx tx (arp_resolve d tx)) frames (s\<lparr>ticks := t, polls := ps\<rparr>)))"

definition net_ping_check :: "nat \<Rightarrow> (bytes \<Rightarrow> int) \<Rightarrow> net \<Rightarrow> int \<times> net" where
  "net_ping_check d tx s = (
     if \<not> net_up s then (-1, s)
     else let s = ping_loop (length (polls s)) d tx (ticks s + 300) s in (ping_result s, s))"

text \<open>The rows of \<open>net_status\<close>: nothing when the network is down.\<close>

definition net_status :: "net \<Rightarrow> (bytes \<times> bytes \<times> (bytes \<times> bytes) list) option" where
  "net_status s = (if \<not> net_up s then None
     else Some (our_mac s, our_ip s, map (\<lambda>e. (ip e, mac e)) (filter valid (arp_cache s))))"


section \<open>The cache\<close>

definition net_inv :: "net \<Rightarrow> bool" where [inv_defs]:
  "net_inv s \<longleftrightarrow> length (arp_cache s) = ARP_CACHE_SIZE"

lemma arp_index_Some: "arp_index a s = Some i \<Longrightarrow> i < 16 \<and> valid (arp_cache s ! i) \<and> ip (arp_cache s ! i) = a"
  by (auto simp: arp_index_def find_Some_iff)

lemma find_upt_first: "i < n \<Longrightarrow> P i \<Longrightarrow> (\<And>j. j < n \<Longrightarrow> P j \<Longrightarrow> j = i) \<Longrightarrow> List.find P [0..<n] = Some i"
proof -
  assume i: "i < n" "P i" and u: "\<And>j. j < n \<Longrightarrow> P j \<Longrightarrow> j = i"
  have "\<not> P j" if "j < i" for j using u [of j] that i(1) by (metis less_irrefl less_trans)
  then show ?thesis unfolding find_Some_iff using i by (intro exI [of _ i]) simp
qed

text \<open>At most one valid entry for each address, so that an update is seen by every later lookup.\<close>

definition cache_unique :: "net \<Rightarrow> bool" where [inv_defs]:
  "cache_unique s \<longleftrightarrow> length (arp_cache s) = 16 \<and> (\<forall>i < 16. \<forall>j < 16. valid (arp_cache s ! i) \<and> valid (arp_cache s ! j)
     \<and> ip (arp_cache s ! i) = ip (arp_cache s ! j) \<longrightarrow> i = j)"

lemma arp_index_None: "arp_index a s = None \<Longrightarrow> i < 16 \<Longrightarrow> valid (arp_cache s ! i) \<Longrightarrow> ip (arp_cache s ! i) \<noteq> a"
  by (auto simp: arp_index_def find_None_iff)

lemma set_entry_unique:
  assumes "cache_unique s" and "i < 16" and "valid (f (arp_cache s ! i))"
    and "\<And>j. j < 16 \<Longrightarrow> j \<noteq> i \<Longrightarrow> valid (arp_cache s ! j) \<Longrightarrow> ip (arp_cache s ! j) \<noteq> ip (f (arp_cache s ! i))"
  shows "cache_unique (set_entry i f s) \<and> arp_lookup (ip (f (arp_cache s ! i))) (set_entry i f s) = Some (f (arp_cache s ! i))"
proof -
  have l: "length (arp_cache s) = 16" using assms(1) by (simp add: cache_unique_def)
  have n: "arp_cache (set_entry i f s) ! j = (if j = i then f (arp_cache s ! i) else arp_cache s ! j)" if "j < 16" for j
    using that l by (simp add: set_entry_def nth_list_update)
  have u: "cache_unique (set_entry i f s)"
    unfolding cache_unique_def
  proof (intro conjI allI impI)
    show "length (arp_cache (set_entry i f s)) = 16" using l by (simp add: set_entry_def)
    fix j k assume j: "j < 16" and k: "k < 16" and e: "valid (arp_cache (set_entry i f s) ! j) \<and> valid (arp_cache (set_entry i f s) ! k)
      \<and> ip (arp_cache (set_entry i f s) ! j) = ip (arp_cache (set_entry i f s) ! k)"
    show "j = k"
    proof (rule ccontr)
      assume ne: "j \<noteq> k"
      consider "j = i" "k \<noteq> i" | "j \<noteq> i" "k = i" | "j \<noteq> i" "k \<noteq> i" using ne by blast
      then show False
      proof cases
        case 1
        then have "ip (f (arp_cache s ! i)) = ip (arp_cache s ! k)" "valid (arp_cache s ! k)" using e n [OF j] n [OF k] by simp_all
        then show False using assms(4) [OF k 1(2)] by simp
      next
        case 2
        then have "ip (f (arp_cache s ! i)) = ip (arp_cache s ! j)" "valid (arp_cache s ! j)" using e n [OF j] n [OF k] by simp_all
        then show False using assms(4) [OF j 2(1)] by simp
      next
        case 3
        then have "valid (arp_cache s ! j)" "valid (arp_cache s ! k)" "ip (arp_cache s ! j) = ip (arp_cache s ! k)"
          using e n [OF j] n [OF k] by simp_all
        then show False using assms(1) j k ne unfolding cache_unique_def by blast
      qed
    qed
  qed
  have "arp_index (ip (f (arp_cache s ! i))) (set_entry i f s) = Some i"
    unfolding arp_index_def
  proof (rule find_upt_first)
    show "i < 16" by (rule assms(2))
    show "valid (arp_cache (set_entry i f s) ! i) \<and> ip (arp_cache (set_entry i f s) ! i) = ip (f (arp_cache s ! i))"
      using assms(2,3) by (simp add: n)
    fix j assume j: "j < 16" "valid (arp_cache (set_entry i f s) ! j) \<and> ip (arp_cache (set_entry i f s) ! j) = ip (f (arp_cache s ! i))"
    show "j = i"
    proof (rule ccontr)
      assume "j \<noteq> i"
      then show False using assms(4) [OF j(1)] j(2) n [OF j(1)] by simp
    qed
  qed
  then show ?thesis using u assms(2) by (simp add: arp_lookup_def n)
qed

lemma arp_insert_lookup:
  assumes "cache_unique s"
  shows "cache_unique (arp_insert a m s) \<and> (\<exists>e. arp_lookup a (arp_insert a m s) = Some e \<and> mac e = m)"
proof (cases "arp_index a s")
  case (Some i)
  note i = arp_index_Some [OF Some]
  have "cache_unique (set_entry i (mac_update (\<lambda>_. m)) s) \<and> arp_lookup (ip ((arp_cache s ! i)\<lparr>mac := m\<rparr>)) (set_entry i (mac_update (\<lambda>_. m)) s) = Some ((arp_cache s ! i)\<lparr>mac := m\<rparr>)"
    
  proof (rule set_entry_unique [OF assms])
    fix j assume "j < 16" "j \<noteq> i" "valid (arp_cache s ! j)"
    then have "ip (arp_cache s ! j) \<noteq> ip (arp_cache s ! i)" using assms i unfolding cache_unique_def by blast
    then show "ip (arp_cache s ! j) \<noteq> ip ((arp_cache s ! i)\<lparr>mac := m\<rparr>)" by simp
  qed (use i in simp_all)
  then show ?thesis using Some i by (simp add: arp_insert_def)
next
  case None
  note no = arp_index_None [OF None]
  show ?thesis
  proof (cases "List.find (\<lambda>i. \<not> valid (arp_cache s ! i)) [0..<16]")
    case (Some i)
    then have i: "i < 16" by (auto simp: find_Some_iff)
    let ?f = "\<lambda>e. e\<lparr>ip := a, mac := m, valid := True\<rparr>"
    have "cache_unique (set_entry i ?f s) \<and> arp_lookup (ip (?f (arp_cache s ! i))) (set_entry i ?f s) = Some (?f (arp_cache s ! i))"
      by (rule set_entry_unique [OF assms i]) (use no in auto)
    then show ?thesis using Some None by (simp add: arp_insert_def)
  next
    case full: None
    let ?f = "\<lambda>e. e\<lparr>ip := a, mac := m\<rparr>"
    have v: "valid (arp_cache s ! 0)" using full by (auto simp: find_None_iff)
    have "cache_unique (set_entry 0 ?f s) \<and> arp_lookup (ip (?f (arp_cache s ! 0))) (set_entry 0 ?f s) = Some (?f (arp_cache s ! 0))"
      by (rule set_entry_unique [OF assms]) (use no v in auto)
    then show ?thesis using full None by (simp add: arp_insert_def)
  qed
qed

section \<open>The checksum verifies\<close>

lemma fold_sum_spec:
  "unat (fold_sum acc) < 65536 \<and> unat (fold_sum acc) mod 65535 = unat acc mod 65535 \<and> (fold_sum acc = 0 \<longleftrightarrow> acc = 0)"
proof (induction acc rule: fold_sum.induct)
  case (1 acc)
  show ?case
  proof (cases "drop_bit 16 acc = 0")
    case True
    have "unat (drop_bit 16 acc) = unat acc div 65536" by (simp add: drop_bit_eq_div unat_div)
    then have "unat acc div 65536 = 0" using True by simp
    then have "unat acc < 65536" by (simp add: div_eq_0_iff)
    then show ?thesis using True by (simp add: fold_sum.simps [of acc])
  next
    case False
    let ?a = "(acc AND 0xFFFF) + drop_bit 16 acc"
    note f = fold_smaller [OF False]
    have e: "unat acc = unat acc div 65536 * 65536 + unat acc mod 65536" by simp
    have "unat acc = unat ?a + unat acc div 65536 * 65535" using e f by linarith
    then have m: "unat ?a mod 65535 = unat acc mod 65535" by (metis mod_mult_self1)
    have "acc \<noteq> 0" using False by auto
    moreover have "?a \<noteq> 0"
    proof
      assume "?a = 0"
      then have "unat acc mod 65536 + unat acc div 65536 = 0" using f by simp
      then have "unat acc = 0" using e by simp
      then show False using \<open>acc \<noteq> 0\<close> by (simp add: unat_eq_0)
    qed
    ultimately show ?thesis using 1 [OF False] m False by (simp add: fold_sum.simps [of acc])
  qed
qed


fun words_sum :: "bytes \<Rightarrow> nat" where
  "words_sum [] = 0"
| "words_sum [b] = unat b"
| "words_sum (b # c # bs) = unat b + 256 * unat c + words_sum bs"

lemma unat_u8: "unat (b :: u8) < 256"
  using unsigned_less [of b] by simp

lemma unat_word16: "unat (ucast (b :: u8) OR push_bit 8 (ucast (c :: u8)) :: u32) = unat b + 256 * unat c"
proof -
  have d: "ucast b AND push_bit 8 (ucast c) = (0 :: u32)"
    by (rule bit_eqI) (auto simp: bit_simps not_bit_u8)
  have "unat (push_bit 8 (ucast c) :: u32) = 256 * unat c"
    using unat_u8 [of c] by (simp add: push_bit_eq_mult unat_word_ariths unsigned_ucast_eq take_bit_eq_mod)
  moreover have "ucast b OR push_bit 8 (ucast c) = (ucast b + push_bit 8 (ucast c) :: u32)"
    using d by (simp add: disjunctive_add_eq_or)
  ultimately show ?thesis using unat_u8 [of b] unat_u8 [of c] by (simp add: unat_plus_if' unsigned_ucast_eq take_bit_eq_mod)
qed

lemma words_sum_le: "words_sum bs \<le> 65535 * (length bs + 1) div 2"
proof (induction bs rule: words_sum.induct)
  case (2 b)
  then show ?case using unat_u8 [of b] by simp
next
  case (3 b c bs)
  then show ?case using unat_u8 [of b] unat_u8 [of c] by simp
qed simp

lemma sum16_words: "unat acc + words_sum bs < 2 ^ 32 \<Longrightarrow> unat (sum16 bs acc) = unat acc + words_sum bs"
proof (induction bs acc rule: sum16.induct)
  case (2 b acc)
  then show ?case by (simp add: unat_plus_if' unsigned_ucast_eq take_bit_eq_mod)
next
  case (3 b c bs acc)
  have "unat (acc + (ucast b OR push_bit 8 (ucast c))) = unat acc + (unat b + 256 * unat c)"
    using 3(2) by (simp add: unat_plus_if' unat_word16)
  then show ?case using 3 by simp
qed simp

lemma words_sum_append: "even (length xs) \<Longrightarrow> words_sum (xs @ ys) = words_sum xs + words_sum ys"
  by (induction xs rule: words_sum.induct) auto

lemma words_sum_le16: "words_sum (le16 v @ bs) = unat v + words_sum bs"
proof -
  have b: "unat v < 65536" using unsigned_less [of v] by simp
  have "unat (ucast v :: u8) = unat v mod 256" by (simp add: unsigned_ucast_eq take_bit_eq_mod)
  moreover have "unat (ucast (drop_bit 8 v) :: u8) = unat v div 256"
    using b by (simp add: unsigned_ucast_eq take_bit_eq_mod drop_bit_eq_div unat_div)
  ultimately show ?thesis by (simp add: le16_def)
qed

lemma unat_checksum: "unat (ip_checksum bs) = 65535 - unat (fold_sum (sum16 bs 0))"
proof -
  let ?f = "fold_sum (sum16 bs 0)"
  have f: "unat ?f < 65536" using fold_sum_spec by blast
  have m1: "unat (-1 :: u32) = 4294967295" by (simp add: unat_eq_nat_uint uint_word_ariths)
  have "NOT ?f = -1 - ?f" by (simp add: not_eq_complement)
  moreover have "unat (-1 - ?f) = unat (-1 :: u32) - unat ?f" by (rule unat_sub) simp
  ultimately have "unat (NOT ?f) = 65535 * 65536 + (65535 - unat ?f)" using f m1 by simp
  moreover have "unat (ip_checksum bs) = unat (NOT ?f) mod 65536"
    by (simp add: ip_checksum_def unsigned_ucast_eq take_bit_eq_mod)
  ultimately have "unat (ip_checksum bs) = (65535 * 65536 + (65535 - unat ?f)) mod 65536" by simp
  also have "\<dots> = 65535 - unat ?f" by (simp only: mod_mult_self3) simp
  finally show ?thesis .
qed

lemma checksum_verifies_words:
  assumes "even (length pre)" and "length pre + length post \<le> 65533"
  shows "ip_checksum (pre @ le16 (ip_checksum (pre @ [0, 0] @ post)) @ post) = 0"
proof -
  define S where "S = words_sum pre + words_sum post"
  let ?f = "fold_sum (sum16 (pre @ [0, 0] @ post) 0)"
  define c where "c = ip_checksum (pre @ [0, 0] @ post)"
  let ?g = "fold_sum (sum16 (pre @ le16 c @ post) 0)"
  have b: "words_sum (pre @ [0, 0] @ post) < 2 ^ 31" "words_sum (pre @ le16 c @ post) < 2 ^ 32"
    using words_sum_le [of "pre @ [0, 0] @ post"] words_sum_le [of "pre @ le16 c @ post"] assms(2) by (simp_all add: le16_def)
  have w0: "words_sum (pre @ [0, 0] @ post) = S" and w1: "words_sum (pre @ le16 c @ post) = S + unat c"
    using words_sum_append [OF assms(1)] by (simp_all add: words_sum_le16 S_def)
  have u0: "unat (sum16 (pre @ [0, 0] @ post) 0) = S" using sum16_words [of 0] b(1) w0 by simp
  have u1: "unat (sum16 (pre @ le16 c @ post) 0) = S + unat c" using sum16_words [of 0] b(2) w1 by simp
  have f: "unat ?f < 65536" "unat ?f mod 65535 = S mod 65535" "unat ?f = 0 \<longleftrightarrow> S = 0"
    using fold_sum_spec [of "sum16 (pre @ [0, 0] @ post) 0"] u0 by (simp_all add: unat_eq_0 [symmetric])
  have g: "unat ?g < 65536" "unat ?g mod 65535 = (S + unat c) mod 65535" "unat ?g = 0 \<longleftrightarrow> S + unat c = 0"
    using fold_sum_spec [of "sum16 (pre @ le16 c @ post) 0"] u1 by (simp_all add: unat_eq_0 [symmetric])
  have c: "unat c = 65535 - unat ?f" unfolding c_def by (rule unat_checksum)
  define q where "q = S div 65535"
  have q: "S = q * 65535 + unat ?f mod 65535" unfolding f(2) q_def by simp
  have "(S + unat c) mod 65535 = 0"
  proof (cases "unat ?f = 65535")
    case True
    then show ?thesis using q c by simp
  next
    case False
    then have "S + unat c = (q + 1) * 65535" using q c f(1) by simp
    then show ?thesis by (metis mod_mult_self2_is_0)
  qed
  moreover have "S + unat c \<noteq> 0" using c f(1,3) by auto
  ultimately have "unat ?g mod 65535 = 0" "unat ?g \<noteq> 0" using g by simp_all
  then have "\<not> unat ?g < 65535" by (metis mod_less)
  then have "unat ?g = 65535" using g(1) by linarith
  then have "unat (ip_checksum (pre @ le16 c @ post)) = 0" by (simp add: unat_checksum)
  then show ?thesis by (simp add: c_def unat_eq_0)
qed


section \<open>Properties\<close>

text \<open>C14: a header or message with its checksum filled in verifies: the checksum over all of it, the checksum field included, is 0.
  This is what \<open>send_ipv4\<close> sends and what \<open>handle_ipv4\<close> and \<open>handle_icmp\<close> test.\<close>

theorem checksum_verifies:
  assumes "even (length pre)" and "length pre + length post \<le> 65533"
  shows "ip_checksum (pre @ le16 (ip_checksum (pre @ [0, 0] @ post)) @ post) = 0"
  by (rule checksum_verifies_words [OF assms])

theorem checksum_verifies_witness:
  "ip_checksum ([0x45, 0, 0, 28] @ le16 (ip_checksum ([0x45, 0, 0, 28] @ [0, 0] @ [10, 0, 2])) @ [10, 0, 2]) = 0"
  using checksum_verifies [of "[0x45, 0, 0, 28]" "[10, 0, 2]"] by simp

text \<open>After \<open>arp_insert\<close> the cache holds at most one entry for each address, and looking up the address gives the hardware
  address inserted, whether the entry existed, took a free slot or displaced the first one.\<close>

theorem arp_insert_then_lookup:
  assumes "cache_unique s"
  shows "cache_unique (arp_insert a m s) \<and> (\<exists>e. arp_lookup a (arp_insert a m s) = Some e \<and> mac e = m)"
  by (rule arp_insert_lookup [OF assms])

definition sample_net :: net where
  "sample_net = net_init [2, 0, 0, 0, 0, 1] [10, 0, 2, 15] \<lparr>our_mac = [], our_ip = [], net_up = False, arp_cache = [], ping_pending = False,
     ping_sent_tick = 0, ping_seq = 0, ping_result = 0, ticks = 0, sent = [], polls = []\<rparr>"

lemma sample_net_unique: "cache_unique sample_net"
  by (simp add: cache_unique_def sample_net_def net_init_def zero_entry_def)

theorem arp_insert_then_lookup_witness:
  "\<exists>e. arp_lookup [10, 0, 2, 2] (arp_insert [10, 0, 2, 2] [82, 85, 10, 0, 2, 2] sample_net) = Some e \<and> mac e = [82, 85, 10, 0, 2, 2]"
  using arp_insert_then_lookup [OF sample_net_unique, of "[10, 0, 2, 2]" "[82, 85, 10, 0, 2, 2]"] by blast

text \<open>an ARP request for our address is answered with one frame to the sender: an ARP reply that carries our
  hardware and protocol address and the sender's; and the sender is in the cache.\<close>

theorem arp_request_answered:
  assumes "cache_unique s" and "length smac = 6" "length sip = 4" "length tmac = 6" and "length (our_mac s) = 6" "length (our_ip s) = 4"
  shows "\<exists>s' e. handle_arp tx (le16 (htons 1) @ le16 (htons 0x0800) @ [6, 4] @ le16 (htons 1) @ smac @ sip @ tmac @ our_ip s) s = s'
    \<and> sent s' = sent s @ [smac @ our_mac s @ [8, 6] @ [0, 1, 8, 0, 6, 4, 0, 2] @ our_mac s @ our_ip s @ smac @ sip]
    \<and> arp_lookup sip s' = Some e \<and> mac e = smac"
proof -
  let ?d = "le16 (htons 1) @ le16 (htons 0x0800) @ [6, 4] @ le16 (htons 1) @ smac @ sip @ tmac @ our_ip s"
  have f: "field ?d 8 6 = smac" "field ?d 14 4 = sip" "field ?d 24 4 = our_ip s" "ntohs (rd16 ?d 6) = 1" "\<not> length ?d < 28"
    using assms by (simp_all add: field_def le16_def rd16_def ntohs_def htons_def)
  let ?s = "arp_insert sip smac s"
  obtain e where e: "arp_lookup sip ?s = Some e" "mac e = smac" using arp_insert_lookup [OF assms(1)] by blast
  have k: "our_ip ?s = our_ip s" "our_mac ?s = our_mac s" "sent ?s = sent s"
    by (simp_all add: arp_insert_def set_entry_def split: option.split)
  have l: "\<not> frame_too_long (of_nat (length (arp_packet 2 smac sip ?s)))"
    using assms k by (simp add: frame_too_long_def arp_packet_def le16_def)
  have h: "handle_arp tx ?d s = ?s\<lparr>sent := sent ?s @ [smac @ our_mac ?s @ le16 (htons 0x0806) @ arp_packet 2 smac sip ?s]\<rparr>"
    unfolding handle_arp_def Let_def using f k l by (simp add: arp_send_reply_def send_frame_def virtio_tx_def)
  have "arp_lookup sip (handle_arp tx ?d s) = Some e" using e(1) unfolding h by (simp add: arp_lookup_def arp_index_def)
  moreover have "sent (handle_arp tx ?d s) = sent s @ [smac @ our_mac s @ [8, 6] @ [0, 1, 8, 0, 6, 4, 0, 2] @ our_mac s @ our_ip s @ smac @ sip]"
    unfolding h by (simp add: k arp_packet_def le16_def htons_def)
  ultimately show ?thesis using e(2) by blast
qed

theorem arp_request_answered_witness:
  "\<exists>s'. handle_arp (\<lambda>_. 0) (le16 (htons 1) @ le16 (htons 0x0800) @ [6, 4] @ le16 (htons 1) @ [1, 2, 3, 4, 5, 6] @ [10, 0, 2, 2]
      @ [0, 0, 0, 0, 0, 0] @ our_ip sample_net) sample_net = s' \<and> length (sent s') = 1"
  using arp_request_answered [OF sample_net_unique, of "[1, 2, 3, 4, 5, 6]" "[10, 0, 2, 2]" "[0, 0, 0, 0, 0, 0]" "\<lambda>_. 0"]
  by (auto simp: sample_net_def net_init_def)

text \<open>The length check of \<open>send_frame\<close> is done in 16 bits: it accepts exactly the payloads of up to 1504 bytes and those
  of 65522 bytes or more, for which the sum wraps around.\<close>

theorem frame_length_check: "\<not> frame_too_long n \<longleftrightarrow> unat n \<le> 1504 \<or> 65522 \<le> unat n"
proof -
  have b: "unat n < 65536" using unsigned_less [of n] by simp
  have "unat (14 + n) = (if unat n < 65522 then 14 + unat n else unat n - 65522)"
    using b by (simp add: unat_plus_if')
  then show ?thesis using b by (auto simp: frame_too_long_def word_less_nat_alt)
qed

end
