(* ===== verification/Spinlock.thy ===== *)
theory Spinlock
  imports Prelude
begin

text \<open>
  The spinlock of \<open>kernel/sync.h\<close> on the single processor the kernel runs on.  The
  processor state that matters is \<open>RFLAGS\<close>, whose bit 9 (\<open>IF\<close>) enables interrupts.
  \<open>spin_lock\<close> clears \<open>IF\<close> and then spins: since nothing else can run with
  interrupts off, a lock that is held is never released again and the call does not
  return, which is the value \<open>None\<close>.
\<close>

section \<open>The processor flags\<close>

record machine =
  rflags :: u64

definition cli :: "u64 \<Rightarrow> u64" where
  "cli f = f AND NOT (push_bit 9 1)"

definition interrupts_on :: "u64 \<Rightarrow> bool" where
  "interrupts_on f \<longleftrightarrow> bit f 9"

lemma cli_interrupts_off [simp]: "\<not> interrupts_on (cli f)"
  by (simp add: interrupts_on_def cli_def bit_simps)

section \<open>The lock\<close>

record Spinlock =
  lock :: u32
  saved_flags :: u64

definition SPINLOCK_INIT :: Spinlock where
  "SPINLOCK_INIT = \<lparr>lock = 0, saved_flags = 0\<rparr>"

definition spin_init :: "Spinlock \<Rightarrow> Spinlock" where
  "spin_init s = s\<lparr>lock := 0, saved_flags := 0\<rparr>"

definition test_and_set :: "Spinlock \<Rightarrow> u32 \<times> Spinlock" where
  "test_and_set s = (lock s, s\<lparr>lock := 1\<rparr>)"

definition spin_lock :: "u64 \<Rightarrow> Spinlock \<Rightarrow> (u64 \<times> Spinlock) option" where
  "spin_lock flags s =
     (let (old, s') = test_and_set s
      in if old \<noteq> 0 then None else Some (cli flags, s'\<lparr>saved_flags := flags\<rparr>))"

definition spin_unlock :: "Spinlock \<Rightarrow> u64 \<times> Spinlock" where
  "spin_unlock s = (saved_flags s, s\<lparr>lock := 0\<rparr>)"

definition spin_try_lock :: "u64 \<Rightarrow> Spinlock \<Rightarrow> bool \<times> u64 \<times> Spinlock" where
  "spin_try_lock flags s =
     (let (old, s') = test_and_set s
      in if old = 0 then (True, cli flags, s'\<lparr>saved_flags := flags\<rparr>)
         else (False, flags, s'))"

section \<open>Behaviour\<close>

lemma spin_lock_free [simp]:
  "lock s = 0 \<Longrightarrow> spin_lock f s = Some (cli f, s\<lparr>lock := 1, saved_flags := f\<rparr>)"
  by (simp add: spin_lock_def test_and_set_def)

lemma spin_lock_held [simp]: "lock s \<noteq> 0 \<Longrightarrow> spin_lock f s = None"
  by (simp add: spin_lock_def test_and_set_def)

lemma spin_unlock_simps [simp]:
  "fst (spin_unlock s) = saved_flags s" "lock (snd (spin_unlock s)) = 0"
  by (simp_all add: spin_unlock_def)

text \<open>
  The lock is a lock.  Taking a free spinlock disables interrupts and makes every
  further \<open>spin_lock\<close> block and every \<open>spin_try_lock\<close> fail without touching the flags;
  releasing it restores exactly the flags the taker had, and the lock can be taken again.
\<close>

theorem spin_lock_unlock:
  assumes "lock s = 0"
  shows "\<exists>f' s'. spin_lock f s = Some (f', s') \<and> \<not> interrupts_on f'
    \<and> spin_lock f' s' = None \<and> fst (spin_try_lock f' s') = False
    \<and> fst (snd (spin_try_lock f' s')) = f'
    \<and> fst (spin_unlock s') = f \<and> lock (snd (spin_unlock s')) = 0
    \<and> fst (spin_try_lock f (snd (spin_unlock s')))"
  using assms by (simp add: spin_try_lock_def test_and_set_def spin_unlock_def)

theorem spin_lock_unlock_witness:
  "lock SPINLOCK_INIT = 0 \<and>
   (\<exists>f' s'. spin_lock 0x202 SPINLOCK_INIT = Some (f', s') \<and> \<not> interrupts_on f'
    \<and> spin_lock f' s' = None \<and> fst (spin_unlock s') = 0x202)"
proof -
  have l: "lock SPINLOCK_INIT = 0" by (simp add: SPINLOCK_INIT_def)
  from spin_lock_unlock [OF l, of "0x202"] l show ?thesis by blast
qed

end
