(* ===== verification/Popcount.thy ===== *)
theory Popcount
  imports Prelude
begin

text \<open>
  The branch-free population count of \<open>kernel/mm/pmm.c\<close>, and the proof that it counts
  the set bits.  The proof follows the bytes of the word: \<open>bytes_val\<close> reads a list of
  byte values as an integer, each of the three masking steps acts on every byte alone
  (no borrow or carry crosses a byte), one byte is decided by evaluating all 256 cases,
  and the final multiplication adds the eight byte counts up in the top byte.
\<close>

section \<open>The routine\<close>

definition popcount64 :: "u64 \<Rightarrow> u64" where
  "popcount64 x0 =
     (let x1 = x0 - (drop_bit 1 x0 AND 0x5555555555555555);
          x2 = (x1 AND 0x3333333333333333) + (drop_bit 2 x1 AND 0x3333333333333333);
          x3 = (x2 + drop_bit 4 x2) AND 0x0F0F0F0F0F0F0F0F
      in drop_bit 56 (x3 * 0x0101010101010101))"

section \<open>One byte\<close>

definition ones :: "int \<Rightarrow> nat \<Rightarrow> int" where
  "ones n k = sum_list (map (\<lambda>i. of_bool (bit n i)) [0..<k])"

definition byte_ones :: "int \<Rightarrow> int" where
  "byte_ones d = d mod 2 + d div 2 mod 2 + d div 4 mod 2 + d div 8 mod 2
     + d div 16 mod 2 + d div 32 mod 2 + d div 64 mod 2 + d div 128 mod 2"

lemma byte_ones_eq: "byte_ones d = ones d 8"
proof -
  have "[0..<8] = [0, 1, 2, 3, 4, 5, 6, 7 :: nat]" by (simp add: upt_rec)
  then show ?thesis
    by (simp add: byte_ones_def ones_def bit_iff_odd of_bool_odd_eq_mod_2)
qed

definition swar1 :: "int \<Rightarrow> int" where "swar1 d = d - ((d div 2) AND 0x55)"
definition swar2 :: "int \<Rightarrow> int" where "swar2 d = (d AND 0x33) + ((d div 4) AND 0x33)"

definition swar_ok :: "int \<Rightarrow> bool" where
  "swar_ok d \<longleftrightarrow> (let a = swar1 d; b = swar2 a in
     0 \<le> a \<and> a < 256 \<and> 0 \<le> b \<and> b mod 16 \<le> 4 \<and> b div 16 \<le> 4
     \<and> (b + b div 16) mod 16 = byte_ones d)"

lemma swar_bytes: "list_all swar_ok [0..255]"
  by code_simp


lemma swar_byte: "0 \<le> d \<Longrightarrow> d < 256 \<Longrightarrow> swar_ok d"
  using swar_bytes by (simp add: list_all_iff)

section \<open>Integers as lists of bytes\<close>

primrec bytes_val :: "int list \<Rightarrow> int" where
  "bytes_val [] = 0"
| "bytes_val (d # ds) = d + 256 * bytes_val ds"

lemma bit_byte_cons:
  assumes "0 \<le> a" "a < 256"
  shows "bit (a + 256 * b :: int) n \<longleftrightarrow> (if n < 8 then bit a n else bit b (n - 8))"
proof (cases "n < 8")
  case True
  have "take_bit 8 (a + 256 * b) = take_bit 8 a"
    by (simp add: take_bit_eq_mod)
  then have "bit (take_bit 8 (a + 256 * b)) n = bit (take_bit 8 a) n" by simp
  with True show ?thesis by (simp add: bit_simps)
next
  case False
  then obtain k where k: "n = 8 + k" by (auto simp: not_less le_iff_add)
  have "drop_bit 8 (a + 256 * b) = b"
    using assms by (simp add: drop_bit_eq_div)
  then have "bit (drop_bit 8 (a + 256 * b)) k = bit b k" by simp
  with k show ?thesis by (simp add: bit_simps)
qed

lemma and_bytes:
  assumes "0 \<le> a" "a < 256" "0 \<le> c" "c < 256"
  shows "(a + 256 * b) AND (c + 256 * d) = (a AND c) + 256 * (b AND d :: int)"
proof (rule bit_eqI)
  fix n
  have "a AND c < 256" "0 \<le> a AND c"
    using assms AND_upper1 [of a c] by simp_all
  with assms show "bit ((a + 256 * b) AND (c + 256 * d)) n = bit ((a AND c) + 256 * (b AND d)) n"
    by (simp add: bit_and_iff bit_byte_cons)
qed

lemma bytes_exists:
  "0 \<le> n \<Longrightarrow> n < 256 ^ k \<Longrightarrow> \<exists>ds. length ds = k \<and> (\<forall>d \<in> set ds. 0 \<le> d \<and> d < 256) \<and> bytes_val ds = n"
proof (induction k arbitrary: n)
  case (Suc k)
  then have "n div 256 < 256 ^ k" by (simp add: div_less_iff_less_mult algebra_simps)
  moreover have "0 \<le> n div 256" using Suc.prems by simp
  ultimately obtain ds where "length ds = k" "\<forall>d \<in> set ds. 0 \<le> d \<and> d < 256" "bytes_val ds = n div 256"
    using Suc.IH by blast
  then show ?case by (intro exI [of _ "(n mod 256) # ds"]) auto
qed simp

abbreviation all_bytes :: "int list \<Rightarrow> bool" where
  "all_bytes ds \<equiv> \<forall>d \<in> set ds. 0 \<le> d \<and> d < 256"

lemma and_mask_bytes:
  "all_bytes ds \<Longrightarrow> 0 \<le> c \<Longrightarrow> c < 256 \<Longrightarrow>
   bytes_val ds AND bytes_val (replicate (length ds) c) = bytes_val (map (\<lambda>d. d AND c) ds)"
  by (induction ds) (simp_all add: and_bytes)

text \<open>A shift right by less than a byte, masked so that no bit of the next byte shows.\<close>

lemma and_take_bit:
  fixes c :: int
  assumes "take_bit n c = c"
  shows "y AND c = take_bit n y AND c"
proof (rule bit_eqI)
  fix m
  have "bit c m \<Longrightarrow> m < n" using assms bit_take_bit_iff [of n c m] by simp
  then show "bit (y AND c) m = bit (take_bit n y AND c) m"
    by (auto simp: bit_and_iff bit_take_bit_iff)
qed

lemma shift_byte_cons:
  fixes d X :: int
  assumes "0 \<le> d" "d < 256" and "k \<le> 8" and "0 \<le> c" "c < 2 ^ (8 - k)"
  shows "\<exists>a. (d + 256 * X) div 2 ^ k = a + 256 * (X div 2 ^ k) \<and> 0 \<le> a \<and> a < 256 \<and> a AND c = (d div 2 ^ k) AND c"
proof -
  define K L :: int where "K = 2 ^ k" and "L = 2 ^ (8 - k)"
  have e: "256 = K * L" and K: "0 < K" and L: "0 < L"
    using assms(3) by (simp_all add: K_def L_def power_add [symmetric])
  define q r where "q = X div K" and "r = X mod K"
  have X: "X = K * q + r" and r: "0 \<le> r" "r \<le> K - 1"
    using K by (simp_all add: q_def r_def)
  define a where "a = d div K + L * r"
  have "(d + (L * X) * K) div K = d div K + L * X"
    using K by simp
  moreover have "d + 256 * X = d + (L * X) * K" unfolding e by (simp add: algebra_simps)
  ultimately have "(d + 256 * X) div K = d div K + L * X" by metis
  also have "\<dots> = a + 256 * q" unfolding a_def X e by (simp add: algebra_simps)
  finally have s: "(d + 256 * X) div K = a + 256 * q" .
  have "d < L * K" using assms(2) e by (simp add: mult.commute)
  have d: "0 \<le> d div K" "d div K < L"
  proof -
    show "0 \<le> d div K" using assms(1) K by (simp add: pos_imp_zdiv_nonneg_iff)
    have "(d div K) * K \<le> d" using div_mult_mod_eq [of d K] pos_mod_sign [OF K, of d] by linarith
    then have "(d div K) * K < L * K" using \<open>d < L * K\<close> by linarith
    then show "d div K < L" using K by (simp add: mult_less_cancel_right)
  qed
  have "L * r \<le> L * (K - 1)" "0 \<le> L * r"
    using r L by simp_all
  then have a: "0 \<le> a" "a < 256"
    using d unfolding a_def e by (simp_all add: algebra_simps)
  have c: "take_bit (8 - k) c = c" using assms(4,5) by (simp add: take_bit_int_eq_self)
  have "take_bit (8 - k) a = take_bit (8 - k) (d div K)"
    by (simp add: take_bit_eq_mod a_def L_def)
  then have "a AND c = (d div K) AND c"
    using and_take_bit [OF c] by metis
  with s a show ?thesis unfolding K_def q_def by blast
qed

lemma shift_and_mask_bytes:
  assumes "all_bytes ds" and "k \<le> 8" "0 \<le> c" "c < 2 ^ (8 - k)"
  shows "bytes_val ds div 2 ^ k AND bytes_val (replicate (length ds) c)
     = bytes_val (map (\<lambda>d. (d div 2 ^ k) AND c) ds)"
  using assms(1)
proof (induction ds)
  case (Cons d ds)
  have c: "c < 256" using assms power_increasing [of "8 - k" 8 "2 :: int"] by simp
  from Cons.prems have "0 \<le> d" "d < 256" by simp_all
  from shift_byte_cons [OF this assms(2,3,4), of "bytes_val ds"] obtain a where
    "(d + 256 * bytes_val ds) div 2 ^ k = a + 256 * (bytes_val ds div 2 ^ k)"
    "0 \<le> a" "a < 256" "a AND c = (d div 2 ^ k) AND c" by blast
  with Cons assms(3) c show ?case by (simp add: and_bytes)
qed simp

lemma bytes_val_diff: "bytes_val (map f ds) - bytes_val (map g ds) = bytes_val (map (\<lambda>d. f d - g d) ds)"
  by (induction ds) (simp_all add: algebra_simps)

lemma bytes_val_add: "bytes_val (map f ds) + bytes_val (map g ds) = bytes_val (map (\<lambda>d. f d + g d) ds)"
  by (induction ds) (simp_all add: algebra_simps)

lemma bytes_val_bounds: "all_bytes ds \<Longrightarrow> 0 \<le> bytes_val ds \<and> bytes_val ds < 256 ^ length ds"
  by (induction ds) auto

lemma bytes_val_le: "\<forall>d \<in> set ds. d \<le> c \<Longrightarrow> bytes_val ds \<le> bytes_val (replicate (length ds) c)"
  by (induction ds) (simp_all add: add_mono)

lemma fold_nibbles:
  assumes "\<forall>d \<in> set ds. 0 \<le> d \<and> d mod 16 \<le> 4 \<and> d div 16 \<le> (4 :: int)"
  shows "(bytes_val ds + bytes_val ds div 16) AND bytes_val (replicate (length ds) 15)
    = bytes_val (map (\<lambda>d. (d + d div 16) mod 16) ds) \<and> bytes_val ds mod 16 \<le> 4"
  using assms
proof (induction ds)
  case (Cons d ds)
  let ?X = "bytes_val ds"
  define a where "a = d + d div 16 + 16 * (?X mod 16)"
  have d: "0 \<le> d" "d mod 16 \<le> 4" "d div 16 \<le> 4" and X: "?X mod 16 \<le> 4"
    using Cons.prems Cons.IH by simp_all
  have s: "(d + 256 * ?X) + (d + 256 * ?X) div 16 = a + 256 * (?X + ?X div 16)"
  proof -
    define q r e where "q = ?X div 16" and "r = ?X mod 16" and "e = d div 16"
    have h: "(d + 256 * ?X) div 16 = e + 16 * ?X"
      using div_mult_self2 [of 16 d "16 * ?X"] by (simp add: e_def)
    have "?X = 16 * q + r" by (simp add: q_def r_def)
    then show ?thesis
      unfolding h a_def q_def [symmetric] r_def [symmetric] e_def [symmetric] by simp
  qed
  have a: "0 \<le> a" "a < 256" "a AND 15 = (d + d div 16) mod 16"
  proof -
    show "0 \<le> a" using d unfolding a_def by simp
    have "d = 16 * (d div 16) + d mod 16" by simp
    then show "a < 256" using d X unfolding a_def by linarith
    have "a AND 15 = take_bit 4 a" by (simp add: take_bit_eq_mask mask_numeral)
    also have "\<dots> = (d + d div 16) mod 16" by (simp add: a_def take_bit_eq_mod)
    finally show "a AND 15 = (d + d div 16) mod 16" .
  qed
  have "(bytes_val (d # ds) + bytes_val (d # ds) div 16) AND bytes_val (replicate (length (d # ds)) 15)
     = (a + 256 * (?X + ?X div 16)) AND (15 + 256 * bytes_val (replicate (length ds) 15))"
    by (simp only: bytes_val.simps s list.size add_0_right add_Suc_right replicate_Suc)
  also have "\<dots> = (a AND 15) + 256 * ((?X + ?X div 16) AND bytes_val (replicate (length ds) 15))"
    using a by (intro and_bytes) simp_all
  also have "\<dots> = (d + d div 16) mod 16 + 256 * bytes_val (map (\<lambda>d. (d + d div 16) mod 16) ds)"
    using Cons by (simp only: a(3)) simp
  finally have "(bytes_val (d # ds) + bytes_val (d # ds) div 16) AND bytes_val (replicate (length (d # ds)) 15)
     = bytes_val (map (\<lambda>d. (d + d div 16) mod 16) (d # ds))"
    by (simp only: bytes_val.simps list.map)
  moreover have "bytes_val (d # ds) mod 16 \<le> 4"
    using d(2) mod_mult_self2 [of d 16 "16 * ?X"] by simp
  ultimately show ?case by blast
qed simp

lemma sum_by_multiplication:
  fixes e0 :: int
  assumes "0 \<le> e0" "e0 \<le> 8" "0 \<le> e1" "e1 \<le> 8" "0 \<le> e2" "e2 \<le> 8" "0 \<le> e3" "e3 \<le> 8"
    "0 \<le> e4" "e4 \<le> 8" "0 \<le> e5" "e5 \<le> 8" "0 \<le> e6" "e6 \<le> 8" "0 \<le> e7" "e7 \<le> 8"
  shows "(bytes_val [e0,e1,e2,e3,e4,e5,e6,e7] * 0x0101010101010101) mod 2 ^ 64 div 2 ^ 56
     = e0 + e1 + e2 + e3 + e4 + e5 + e6 + e7"
proof -
  define A where "A = bytes_val [e0, e0+e1, e0+e1+e2, e0+e1+e2+e3, e0+e1+e2+e3+e4, e0+e1+e2+e3+e4+e5, e0+e1+e2+e3+e4+e5+e6]"
  define B where "B = bytes_val [e1+e2+e3+e4+e5+e6+e7, e2+e3+e4+e5+e6+e7, e3+e4+e5+e6+e7, e4+e5+e6+e7, e5+e6+e7, e6+e7, e7]"
  define S where "S = e0 + e1 + e2 + e3 + e4 + e5 + e6 + e7"
  have eq: "bytes_val [e0,e1,e2,e3,e4,e5,e6,e7] * 0x0101010101010101 = (A + 2 ^ 56 * S) + 2 ^ 64 * B"
    by (simp add: A_def B_def S_def)
  have S: "0 \<le> S" "S \<le> 64" using assms by (simp_all add: S_def)
  have "all_bytes [e0, e0+e1, e0+e1+e2, e0+e1+e2+e3, e0+e1+e2+e3+e4, e0+e1+e2+e3+e4+e5, e0+e1+e2+e3+e4+e5+e6]"
    using assms by simp
  from bytes_val_bounds [OF this, folded A_def] have A: "0 \<le> A" "A < 2 ^ 56" by simp_all
  have "A + 2 ^ 56 * S < 2 ^ 64" using A S by simp
  then have "((A + 2 ^ 56 * S) + 2 ^ 64 * B) mod 2 ^ 64 = A + 2 ^ 56 * S"
    using A S by simp
  moreover have "(A + 2 ^ 56 * S) div 2 ^ 56 = S" using A by simp
  ultimately show ?thesis unfolding eq S_def by simp
qed

section \<open>The count\<close>

lemma ones_cons:
  assumes "0 \<le> d" "d < 256"
  shows "ones (d + 256 * X) (8 + k) = ones d 8 + ones X k"
proof -
  have "[0..<8 + k] = [0..<8] @ map (\<lambda>i. i + 8) [0..<k]"
    using upt_add_eq_append [of 0 8 k] map_add_upt [of 8 k] by (simp add: add.commute)
  moreover have "map (\<lambda>i. of_bool (bit (d + 256 * X) i) :: int) [0..<8] = map (\<lambda>i. of_bool (bit d i)) [0..<8]"
    using assms by (intro map_cong refl) (simp add: bit_byte_cons)
  moreover have "map (\<lambda>i. of_bool (bit (d + 256 * X) (i + 8)) :: int) [0..<k] = map (\<lambda>i. of_bool (bit X i)) [0..<k]"
    using assms by (simp add: bit_byte_cons)
  ultimately show ?thesis
    by (simp only: ones_def map_append map_map o_def sum_list_append)
qed

lemma ones_bytes: "all_bytes ds \<Longrightarrow> ones (bytes_val ds) (8 * length ds) = sum_list (map byte_ones ds)"
proof (induction ds)
  case (Cons d ds)
  then show ?case using ones_cons [of d "bytes_val ds" "8 * length ds"]
    by (simp add: byte_ones_eq)
qed (simp add: ones_def)

lemma ones_sum: "ones n k = int (card {i. i < k \<and> bit n i})"
proof -
  have "ones n k = (\<Sum>i \<in> {..<k}. of_bool (bit n i))"
    unfolding ones_def
    by (subst sum_list_distinct_conv_sum_set) (simp_all add: atLeast0LessThan)
  moreover have "{i. i < k \<and> bit n i} = {..<k} \<inter> {i. bit n i}" by auto
  ultimately show ?thesis by (simp add: sum_of_bool_eq)
qed

lemma ones_bounds: "0 \<le> ones n k \<and> ones n k \<le> int k"
  using card_mono [of "{..<k}" "{i. i < k \<and> bit n i}"] by (auto simp: ones_sum)

lemma ones_card: "ones (uint x) 64 = int (card {i. bit (x :: u64) i})"
proof -
  have "{i. i < 64 \<and> bit (uint x) i} = {i. bit x i}" by (auto simp: bit_uint_iff dest: bit_imp_le_length)
  then show ?thesis by (simp only: ones_sum)
qed

lemma uint_drop_bit: "uint (drop_bit k (w :: u64)) = uint w div 2 ^ k"
proof -
  have "uint (drop_bit k w) = drop_bit k (uint w)"
    by (rule bit_eqI) (auto simp: bit_simps dest: bit_imp_le_length)
  then show ?thesis by (simp add: drop_bit_eq_div)
qed

lemma popcount64_card: "unat (popcount64 x) = card {i. bit x i}"
proof -
  obtain ds where len: "length ds = 8" and ds: "all_bytes ds" and x: "bytes_val ds = uint x"
    using bytes_exists [of "uint x" 8] uint_bounded [of x] by auto
  define as where "as = map swar1 ds"
  define bs where "bs = map swar2 as"
  define es where "es = map (\<lambda>d. (d + d div 16) mod 16) bs"
  have ok: "swar_ok d" if "d \<in> set ds" for d using swar_byte ds that by blast
  have as: "all_bytes as" using ok by (auto simp: as_def swar_ok_def Let_def)
  have bs: "\<forall>d \<in> set bs. 0 \<le> d \<and> d mod 16 \<le> 4 \<and> d div 16 \<le> 4"
    using ok by (auto simp: as_def bs_def swar_ok_def Let_def)
  have es: "es = map byte_ones ds"
    using ok by (auto simp: as_def bs_def es_def swar_ok_def Let_def)
  define x1 where "x1 = x - (drop_bit 1 x AND 0x5555555555555555)"
  define x2 where "x2 = (x1 AND 0x3333333333333333) + (drop_bit 2 x1 AND 0x3333333333333333)"
  define x3 where "x3 = (x2 + drop_bit 4 x2) AND 0x0F0F0F0F0F0F0F0F"
  have len': "length as = 8" "length bs = 8" "length es = 8"
    by (simp_all add: as_def bs_def es_def len)
  have m: "0x5555555555555555 = bytes_val (replicate (length ds) 0x55)"
    "0x3333333333333333 = bytes_val (replicate (length as) 0x33)"
    "0x0F0F0F0F0F0F0F0F = bytes_val (replicate (length bs) 15)"
    by (simp_all add: len len' numeral_eq_Suc)
  have d1: "bytes_val ds - (bytes_val ds div 2 ^ 1 AND 0x5555555555555555) = bytes_val as"
    using shift_and_mask_bytes [of ds 1 85] ds bytes_val_diff [of "\<lambda>d. d" ds]
    by (simp add: m as_def swar1_def [abs_def])
  have d2: "(bytes_val as AND 0x3333333333333333) + (bytes_val as div 2 ^ 2 AND 0x3333333333333333) = bytes_val bs"
    using shift_and_mask_bytes [of as 2 51] and_mask_bytes [of as 51] as
      bytes_val_add [of "\<lambda>d. d AND 0x33" as]
    by (simp add: m bs_def swar2_def [abs_def] bytes_val_add)
  have x1: "uint x1 = bytes_val as" 
    using d1 bytes_val_bounds [OF as] len'
    by (simp add: x1_def uint_word_ariths uint_and uint_drop_bit x)
  have bb: "all_bytes bs"
  proof
    fix d assume "d \<in> set bs"
    with bs have "0 \<le> d" "d mod 16 \<le> 4" "d div 16 \<le> 4" by auto
    moreover have "d = 16 * (d div 16) + d mod 16" by simp
    ultimately show "0 \<le> d \<and> d < 256" by linarith
  qed
  have x2: "uint x2 = bytes_val bs"
    using d2 bytes_val_bounds [OF bb] len'
    by (simp add: x2_def uint_word_ariths uint_and uint_drop_bit x1)
  have x3: "uint x3 = bytes_val es"
  proof -
    have "bytes_val bs \<le> bytes_val (replicate (length bs) 68)"
    proof (rule bytes_val_le, rule ballI)
      fix d assume "d \<in> set bs"
      with bs have "d mod 16 \<le> 4" "d div 16 \<le> 4" by auto
      moreover have "d = 16 * (d div 16) + d mod 16" by simp
      ultimately show "d \<le> 68" by linarith
    qed
    then have "bytes_val bs + bytes_val bs div 16 < 2 ^ 64"
      by (simp add: len' numeral_eq_Suc)
    moreover have "0 \<le> bytes_val bs + bytes_val bs div 16"
      using bytes_val_bounds [OF bb] pos_imp_zdiv_nonneg_iff [of 16 "bytes_val bs"] by linarith
    ultimately have "(bytes_val bs + bytes_val bs div 16) mod 2 ^ 64 = bytes_val bs + bytes_val bs div 16"
      by (intro mod_pos_pos_trivial)
    then show ?thesis
      using fold_nibbles [OF bs]
      by (simp add: x3_def uint_word_ariths uint_and uint_drop_bit x2 m es_def)
  qed
  have "uint (popcount64 x) = bytes_val es * 0x0101010101010101 mod 2 ^ 64 div 2 ^ 56"
    unfolding popcount64_def Let_def x1_def [symmetric] x2_def [symmetric] x3_def [symmetric]
    by (simp add: uint_drop_bit uint_word_ariths x3)
  also have "\<dots> = sum_list es"
  proof -
    have *: "0 \<le> e \<and> e \<le> 8" if "e \<in> set es" for e
      using that by (auto simp: es byte_ones_eq ones_bounds [of _ 8, simplified])
    obtain e0 e1 e2 e3 e4 e5 e6 e7 where e: "es = [e0,e1,e2,e3,e4,e5,e6,e7]"
      using len'(3) by (auto simp: numeral_eq_Suc length_Suc_conv)
    have "bytes_val es * 0x0101010101010101 mod 2 ^ 64 div 2 ^ 56 = e0 + e1 + e2 + e3 + e4 + e5 + e6 + e7"
      unfolding e by (rule sum_by_multiplication) (use * e in simp_all)
    moreover have "sum_list es = e0 + e1 + e2 + e3 + e4 + e5 + e6 + e7"
      unfolding e by (simp only: sum_list_simps add.assoc add_0_right)
    ultimately show ?thesis by simp
  qed
  also have "\<dots> = int (card {i. bit x i})"
    using ones_bytes [OF ds] ones_card [of x] len x es by simp
  finally show ?thesis by (simp add: unat_eq_nat_uint)
qed

text \<open>The count as a loop over the bits would do it.\<close>

definition popcount_ref :: "u64 \<Rightarrow> nat" where
  "popcount_ref x = length (filter (bit x) [0..<64])"

text \<open>
  the branch-free \<open>popcount64\<close> of the page allocator agrees, on every 64-bit word,
  with counting the set bits one by one.
\<close>

theorem popcount64_reference: "popcount64 x = of_nat (popcount_ref x)"
proof -
  have "card {i. bit x i} = length (filter (bit x) [0..<64])"
  proof -
    have "{i. bit x i} = set (filter (bit x) [0..<64])" by (auto dest: bit_imp_le_length)
    then show ?thesis by (metis distinct_card distinct_filter distinct_upt)
  qed
  then have "unat (popcount64 x) = popcount_ref x"
    by (simp only: popcount64_card popcount_ref_def)
  then have "of_nat (unat (popcount64 x)) = (of_nat (popcount_ref x) :: u64)" by (rule arg_cong)
  then show ?thesis by (simp only: of_nat_unat ucast_id)
qed

end
