(* ===== verification/Pmm.thy ===== *)
theory Pmm
  imports Spinlock Popcount
begin

text \<open>
  The physical page allocator of \<open>kernel/mm/pmm.c\<close>.  The file-scope variables are the
  fields of the record \<open>pmm\<close>; the array behind the pointer \<open>bitmap\<close> is a list of words,
  and an access past its end is \<open>None\<close>.  A set bit is a free page.

  The abstraction \<open>bits\<close> is the set of page numbers whose bit is set; \<open>pmm_inv\<close> ties
  \<open>free_count\<close> to its size.  The lemmas show that the bulk range operations are set
  union and difference with an exact count, that initialisation makes free exactly the
  usable pages outside the first megabyte, the kernel and the bitmap itself, and that
  allocation hands out the lowest free page.
\<close>

section \<open>Data\<close>

datatype MmapEntryType =
    MMAP_USABLE | MMAP_RESERVED | MMAP_ACPI_RECLAIMABLE | MMAP_ACPI_NVS | MMAP_BAD_MEMORY
  | MMAP_BOOTLOADER_RECLAIMABLE | MMAP_KERNEL | MMAP_FRAMEBUFFER

record MmapEntry =
  mbase :: u64
  length_bytes :: u64
  mtype :: MmapEntryType

record pmm = machine +
  pmm_lock :: Spinlock
  bitmap :: "u64 list"
  bitmap_ptr :: ptr
  bitmap_size :: u64
  total_pages :: u64
  free_count :: u64
  highest_page :: u64

abbreviation (input) PAGE_SIZE :: u64 where
  "PAGE_SIZE \<equiv> 4096"

section \<open>Bit manipulation\<close>

definition word_at :: "u64 list \<Rightarrow> u64 \<Rightarrow> u64 option" where
  "word_at bm i = (if unat i < length bm then Some (bm ! unat i) else None)"

definition bitmap_set :: "u64 list \<Rightarrow> u64 \<Rightarrow> u64 list option" where
  "bitmap_set bm page = do {
     w \<leftarrow> word_at bm (page div 64);
     Some (bm[unat (page div 64) := w OR push_bit (unat (page mod 64)) 1]) }"

definition bitmap_clear :: "u64 list \<Rightarrow> u64 \<Rightarrow> u64 list option" where
  "bitmap_clear bm page = do {
     w \<leftarrow> word_at bm (page div 64);
     Some (bm[unat (page div 64) := w AND NOT (push_bit (unat (page mod 64)) 1)]) }"

definition bitmap_test :: "u64 list \<Rightarrow> u64 \<Rightarrow> bool option" where
  "bitmap_test bm page = do {
     w \<leftarrow> word_at bm (page div 64);
     Some (drop_bit (unat (page mod 64)) w AND 1 \<noteq> 0) }"

text \<open>
  The three loops of the two range operations, with \<open>v\<close> the value the bits take: page by
  page up to a multiple of 64, word by word, then page by page.
\<close>

definition put_page :: "bool \<Rightarrow> u64 list \<Rightarrow> u64 \<Rightarrow> u64 \<Rightarrow> (u64 list \<times> u64) option" where
  "put_page v bm page count = do {
     b \<leftarrow> bitmap_test bm page;
     if b = v then Some (bm, count)
     else do {
       bm' \<leftarrow> (if v then bitmap_set bm page else bitmap_clear bm page);
       Some (bm', count + 1) } }"

definition put_word :: "bool \<Rightarrow> u64 list \<Rightarrow> u64 \<Rightarrow> u64 \<Rightarrow> (u64 list \<times> u64) option" where
  "put_word v bm idx count = do {
     w \<leftarrow> word_at bm idx;
     Some (bm[unat idx := if v then NOT 0 else 0],
           count + (if v then 64 - popcount64 w else popcount64 w)) }"

partial_function (option) head_loop ::
  "bool \<Rightarrow> u64 list \<Rightarrow> u64 \<Rightarrow> u64 \<Rightarrow> u64 \<Rightarrow> (u64 list \<times> u64 \<times> u64) option" where
  "head_loop v bm start fin count =
     (if start < fin \<and> start mod 64 \<noteq> 0
      then do { (bm', c') \<leftarrow> put_page v bm start count; head_loop v bm' (start + 1) fin c' }
      else Some (bm, start, count))"

partial_function (option) word_loop ::
  "bool \<Rightarrow> u64 list \<Rightarrow> u64 \<Rightarrow> u64 \<Rightarrow> u64 \<Rightarrow> (u64 list \<times> u64 \<times> u64) option" where
  "word_loop v bm start fin count =
     (if start + 64 \<le> fin
      then do { (bm', c') \<leftarrow> put_word v bm (start div 64) count; word_loop v bm' (start + 64) fin c' }
      else Some (bm, start, count))"

partial_function (option) tail_loop ::
  "bool \<Rightarrow> u64 list \<Rightarrow> u64 \<Rightarrow> u64 \<Rightarrow> u64 \<Rightarrow> (u64 list \<times> u64) option" where
  "tail_loop v bm start fin count =
     (if start < fin
      then do { (bm', c') \<leftarrow> put_page v bm start count; tail_loop v bm' (start + 1) fin c' }
      else Some (bm, count))"

definition put_range :: "bool \<Rightarrow> u64 list \<Rightarrow> u64 \<Rightarrow> u64 \<Rightarrow> (u64 list \<times> u64) option" where
  "put_range v bm start fin = do {
     (bm, start, count) \<leftarrow> head_loop v bm start fin 0;
     (bm, start, count) \<leftarrow> word_loop v bm start fin count;
     tail_loop v bm start fin count }"

definition bitmap_set_range :: "u64 list \<Rightarrow> u64 \<Rightarrow> u64 \<Rightarrow> (u64 list \<times> u64) option" where
  "bitmap_set_range bm start fin = put_range True bm start fin"

definition bitmap_clear_range :: "u64 list \<Rightarrow> u64 \<Rightarrow> u64 \<Rightarrow> (u64 list \<times> u64) option" where
  "bitmap_clear_range bm start fin = put_range False bm start fin"

section \<open>Initialisation\<close>

text \<open>Pass 1: the highest page any region reaches.\<close>

definition find_highest :: "MmapEntry list \<Rightarrow> u64" where
  "find_highest es = fold (\<lambda>e h.
     let end_page = (mbase e + length_bytes e) div PAGE_SIZE
     in if h < end_page then end_page else h) es 0"

text \<open>Pass 2: the place for the bitmap in one region, \<open>None\<close> for \<open>continue\<close>.\<close>

definition skip_low :: "u64 \<Rightarrow> u64 \<Rightarrow> (u64 \<times> u64) option" where
  "skip_low b len =
     (if b < 0x100000
      then let skip = 0x100000 - b in if len \<le> skip then None else Some (b + skip, len - skip)
      else Some (b, len))"

definition skip_kernel :: "u64 \<Rightarrow> u64 \<Rightarrow> u64 \<Rightarrow> u64 \<Rightarrow> (u64 \<times> u64) option" where
  "skip_kernel kernel_phys kernel_size b len =
     (let kend = kernel_phys + kernel_size
      in if b < kend \<and> kernel_phys < b + len
         then let skip = kend - b in if len \<le> skip then None else Some (b + skip, len - skip)
         else Some (b, len))"

definition page_align :: "u64 \<Rightarrow> u64" where
  "page_align a = (a + PAGE_SIZE - 1) AND NOT (PAGE_SIZE - 1)"

definition place_bitmap :: "u64 \<Rightarrow> u64 \<Rightarrow> u64 \<Rightarrow> MmapEntry \<Rightarrow> ptr option" where
  "place_bitmap kernel_phys kernel_size bsize e = (
     if mtype e \<noteq> MMAP_USABLE then None
     else do {
       (b, len) \<leftarrow> skip_low (mbase e) (length_bytes e);
       (b, len) \<leftarrow> skip_kernel kernel_phys kernel_size b len;
       let diff = page_align b - b;
       if len \<le> diff then None
       else if bsize \<le> len - diff then Some (page_align b) else None })"

primrec find_bitmap :: "u64 \<Rightarrow> u64 \<Rightarrow> u64 \<Rightarrow> MmapEntry list \<Rightarrow> ptr" where
  "find_bitmap kp ks bsize [] = NULL"
| "find_bitmap kp ks bsize (e # es) =
     (case place_bitmap kp ks bsize e of Some p \<Rightarrow> p | None \<Rightarrow> find_bitmap kp ks bsize es)"

text \<open>Pass 3: the pages of every usable region become free.\<close>

primrec free_regions :: "MmapEntry list \<Rightarrow> u64 \<Rightarrow> u64 list \<Rightarrow> u64 \<Rightarrow> (u64 list \<times> u64) option" where
  "free_regions [] tot bm count = Some (bm, count)"
| "free_regions (e # es) tot bm count = (
     if mtype e \<noteq> MMAP_USABLE then free_regions es tot bm count
     else do {
       let start_page = page_align (mbase e) div PAGE_SIZE;
       let end_page = ((mbase e + length_bytes e) AND NOT (PAGE_SIZE - 1)) div PAGE_SIZE;
       (bm', c) \<leftarrow> bitmap_set_range bm start_page (if tot < end_page then tot else end_page);
       free_regions es tot bm' (count + c) })"

definition pmm_init :: "MmapEntry list \<Rightarrow> u64 \<Rightarrow> u64 \<Rightarrow> 'a pmm_scheme \<Rightarrow> 'a pmm_scheme option" where
  "pmm_init es kernel_phys kernel_size s = do {
     let highest = find_highest es;
     let bsize = (highest + 63) div 64 * 8;
     let p = find_bitmap kernel_phys kernel_size bsize es;
     let s = s\<lparr>highest_page := highest, total_pages := highest, bitmap_size := bsize, bitmap_ptr := p\<rparr>;
     if p = NULL then Some s
     else do {
       let bm = replicate (unat (bsize div 8)) 0;
       (bm, count) \<leftarrow> free_regions es highest bm 0;
       (bm, c) \<leftarrow> bitmap_clear_range bm 0 (0x100000 div PAGE_SIZE);
       let count = count - c;
       (bm, c) \<leftarrow> bitmap_clear_range bm (kernel_phys div PAGE_SIZE)
                    ((kernel_phys + kernel_size + PAGE_SIZE - 1) div PAGE_SIZE);
       let count = count - c;
       (bm, c) \<leftarrow> bitmap_clear_range bm (p div PAGE_SIZE) ((p + bsize + PAGE_SIZE - 1) div PAGE_SIZE);
       Some (s\<lparr>bitmap := bm, free_count := count - c\<rparr>) } }"

section \<open>Allocation and release\<close>

abbreviation (input) PMM_MAX_PAGE :: u64 where
  "PMM_MAX_PAGE \<equiv> 0x100000000 div PAGE_SIZE"

text \<open>The index of the lowest set bit, as \<open>__builtin_ctzll\<close> computes it on a non-zero word.\<close>

definition ctzll :: "u64 \<Rightarrow> nat" where
  "ctzll w = length (takeWhile (\<lambda>i. \<not> bit w i) [0..<64])"

text \<open>The scan: the first page found, or \<open>None\<close> inside when every word is zero.\<close>

partial_function (option) alloc_scan :: "u64 list \<Rightarrow> u64 \<Rightarrow> u64 \<Rightarrow> u64 option option" where
  "alloc_scan bm i qwords =
     (if i < qwords
      then do {
        w \<leftarrow> word_at bm i;
        if w = 0 then alloc_scan bm (i + 1) qwords
        else Some (Some (i * 64 + of_nat (ctzll w))) }
      else Some None)"

definition pmm_acquire :: "'a pmm_scheme \<Rightarrow> 'a pmm_scheme option" where
  "pmm_acquire s = do {
     (f, l) \<leftarrow> spin_lock (rflags s) (pmm_lock s);
     Some (s\<lparr>rflags := f, pmm_lock := l\<rparr>) }"

definition pmm_release :: "'a pmm_scheme \<Rightarrow> 'a pmm_scheme" where
  "pmm_release s = (let (f, l) = spin_unlock (pmm_lock s) in s\<lparr>rflags := f, pmm_lock := l\<rparr>)"

definition max_page :: "'a pmm_scheme \<Rightarrow> u64" where
  "max_page s = (if total_pages s < PMM_MAX_PAGE then total_pages s else PMM_MAX_PAGE)"

definition pmm_alloc_page :: "'a pmm_scheme \<Rightarrow> (ptr \<times> 'a pmm_scheme) option" where
  "pmm_alloc_page s = do {
     s \<leftarrow> pmm_acquire s;
     let qwords = (max_page s + 63) div 64;
     found \<leftarrow> alloc_scan (bitmap s) 0 qwords;
     case found of
       None \<Rightarrow> Some (NULL, pmm_release s)
     | Some page \<Rightarrow>
         if max_page s \<le> page then Some (NULL, pmm_release s)
         else do {
           bm \<leftarrow> bitmap_clear (bitmap s) page;
           let s = s\<lparr>bitmap := bm, free_count := free_count s - 1\<rparr>;
           Some (page * PAGE_SIZE, pmm_release s) } }"

definition pmm_free_page :: "ptr \<Rightarrow> 'a pmm_scheme \<Rightarrow> 'a pmm_scheme option" where
  "pmm_free_page addr s = (
     let page = addr div PAGE_SIZE
     in if total_pages s \<le> page then Some s
        else do {
          s \<leftarrow> pmm_acquire s;
          b \<leftarrow> bitmap_test (bitmap s) page;
          if b then Some (pmm_release s)
          else do {
            bm \<leftarrow> bitmap_set (bitmap s) page;
            Some (pmm_release (s\<lparr>bitmap := bm, free_count := free_count s + 1\<rparr>)) } })"

definition pmm_free_pages :: "'a pmm_scheme \<Rightarrow> u64" where
  "pmm_free_pages s = free_count s"

definition pmm_total_pages :: "'a pmm_scheme \<Rightarrow> u64" where
  "pmm_total_pages s = total_pages s"

section \<open>The bitmap as a set of pages\<close>

definition bits :: "u64 list \<Rightarrow> nat set" where
  "bits bm = {n. n < 64 * length bm \<and> bit (bm ! (n div 64)) (n mod 64)}"

lemma finite_bits [simp]: "finite (bits bm)"
  by (rule finite_subset [of _ "{..<64 * length bm}"]) (auto simp: bits_def)

lemma bits_less: "n \<in> bits bm \<Longrightarrow> n < 64 * length bm"
  by (simp add: bits_def)

lemma unat_page_index [simp]:
  "unat (p div 64 :: u64) = unat p div 64" "unat (p mod 64 :: u64) = unat p mod 64"
  by (simp_all add: unat_div unat_mod)

lemma mod_64_eq_0: "(st :: u64) mod 64 = 0 \<longleftrightarrow> unat st mod 64 = 0"
  by (simp only: unat_page_index(2) [symmetric] unat_eq_0)

lemma page_in_range: "n < 64 * l \<longleftrightarrow> (n :: nat) div 64 < l"
  by (simp add: div_less_iff_less_mult mult.commute)

lemma bits_update:
  "i < length bm \<Longrightarrow> n \<in> bits (bm[i := w]) \<longleftrightarrow> (if n div 64 = i then bit w (n mod 64) else n \<in> bits bm)"
  by (auto simp: bits_def page_in_range)

lemma page_eq_iff: "n div 64 = (p :: nat) div 64 \<and> n mod 64 = p mod 64 \<longleftrightarrow> n = p"
  by (metis div_mult_mod_eq)

lemma bit_single [simp]: "bit (2 ^ k :: u64) i \<longleftrightarrow> i = k \<and> k < 64"
  by (auto simp: bit_exp_iff)

lemma drop_bit_and_1: "drop_bit k (w :: u64) AND 1 \<noteq> 0 \<longleftrightarrow> bit w k"
  by (simp add: bit_iff_and_drop_bit_eq_1 and_one_eq)

lemma bitmap_test_spec:
  "unat p < 64 * length bm \<Longrightarrow> bitmap_test bm p = Some (unat p \<in> bits bm)"
  by (simp add: bitmap_test_def word_at_def bits_def drop_bit_and_1 page_in_range)

lemma bitmap_set_spec:
  assumes "unat p < 64 * length bm"
  shows "\<exists>bm'. bitmap_set bm p = Some bm' \<and> length bm' = length bm \<and> bits bm' = insert (unat p) (bits bm)"
proof -
  have i: "unat p div 64 < length bm" using assms by simp
  have "n \<in> bits (bm[unat p div 64 := bm ! (unat p div 64) OR push_bit (unat p mod 64) 1])
     \<longleftrightarrow> n = unat p \<or> n \<in> bits bm" for n
    unfolding bits_update [OF i] using assms page_eq_iff [of n "unat p"]
    by (cases "n div 64 = unat p div 64") (auto simp: bit_or_iff bits_def page_in_range)
  then show ?thesis using i by (auto simp: bitmap_set_def word_at_def)
qed

lemma bitmap_clear_spec:
  assumes "unat p < 64 * length bm"
  shows "\<exists>bm'. bitmap_clear bm p = Some bm' \<and> length bm' = length bm \<and> bits bm' = bits bm - {unat p}"
proof -
  have i: "unat p div 64 < length bm" using assms by simp
  have "n \<in> bits (bm[unat p div 64 := bm ! (unat p div 64) AND NOT (push_bit (unat p mod 64) 1)])
     \<longleftrightarrow> n \<in> bits bm \<and> n \<noteq> unat p" for n
    unfolding bits_update [OF i] using assms page_eq_iff [of n "unat p"]
    by (cases "n div 64 = unat p div 64") (auto simp: bit_and_iff bit_not_iff bits_def page_in_range)
  then show ?thesis using i by (auto simp: bitmap_clear_def word_at_def)
qed

section \<open>Range operations\<close>

text \<open>
  \<open>swept v bm a b bm' c\<close>: going from \<open>bm\<close> to \<open>bm'\<close> gave the pages \<open>a..<b\<close> the value
  \<open>v\<close>, touched nothing else, and changed \<open>c\<close> pages.
\<close>

definition changing :: "bool \<Rightarrow> u64 list \<Rightarrow> nat \<Rightarrow> nat \<Rightarrow> nat set" where
  "changing v bm a b = {n. a \<le> n \<and> n < b \<and> (n \<in> bits bm) \<noteq> v}"

definition swept :: "bool \<Rightarrow> u64 list \<Rightarrow> nat \<Rightarrow> nat \<Rightarrow> u64 list \<Rightarrow> nat \<Rightarrow> bool" where
  "swept v bm a b bm' c \<longleftrightarrow> length bm' = length bm
     \<and> (\<forall>n. n \<in> bits bm' \<longleftrightarrow> (if a \<le> n \<and> n < b then v else n \<in> bits bm))
     \<and> c = card (changing v bm a b)"

lemma changing_Suc: "changing v bm a (Suc a) = (if (a \<in> bits bm) = v then {} else {a})"
  by (auto simp: changing_def less_Suc_eq_le)

lemma swept_refl: "b \<le> a \<Longrightarrow> swept v bm a b bm 0"
  by (auto simp: swept_def changing_def)

lemma finite_changing [simp]: "finite (changing v bm a b)"
  by (rule finite_subset [of _ "{..<b}"]) (auto simp: changing_def)

lemma swept_bits: "swept v bm a b bm' c \<Longrightarrow> n \<in> bits bm' \<longleftrightarrow> (if a \<le> n \<and> n < b then v else n \<in> bits bm)"
  by (simp add: swept_def)

lemma swept_trans:
  assumes s: "swept v bm a b bm1 c1" "swept v bm1 b d bm2 c2" and "a \<le> b" and "b \<le> d"
  shows "swept v bm a d bm2 (c1 + c2)"
proof -
  have "n \<in> changing v bm a d \<longleftrightarrow> n \<in> changing v bm a b \<union> changing v bm1 b d" for n
    using assms(3,4) by (cases "n < b") (simp_all add: changing_def swept_bits [OF s(1)])
  then have "changing v bm a d = changing v bm a b \<union> changing v bm1 b d" by blast
  moreover have "changing v bm a b \<inter> changing v bm1 b d = {}"
    by (auto simp: changing_def)
  ultimately have "card (changing v bm a d) = c1 + c2"
    using s by (simp add: card_Un_disjoint swept_def)
  moreover have "n \<in> bits bm2 \<longleftrightarrow> (if a \<le> n \<and> n < d then v else n \<in> bits bm)" for n
    using assms(3,4) by (simp add: swept_bits [OF s(1)] swept_bits [OF s(2)])
  ultimately show ?thesis using s by (simp add: swept_def)
qed

lemma swept_count_le: "swept v bm a b bm' c \<Longrightarrow> c \<le> b - a"
proof -
  assume "swept v bm a b bm' c"
  moreover have "changing v bm a b \<subseteq> {a..<b}" by (auto simp: changing_def)
  then have "card (changing v bm a b) \<le> card {a..<b}" by (intro card_mono) simp_all
  ultimately show ?thesis by (simp add: swept_def)
qed

lemma unat_Suc: "x < y \<Longrightarrow> unat ((x :: u64) + 1) = Suc (unat x)"
proof -
  assume "x < y"
  then have "unat x < unat y" by (simp add: word_less_nat_alt)
  with unat_lt_u64 [of y] have "unat x + 1 < 2 ^ 64" by linarith
  then show ?thesis by (simp add: unat_word_ariths)
qed

lemma put_page_spec:
  assumes "unat p < 64 * length bm" and "unat count < 2 ^ 64 - 1"
  shows "\<exists>bm' count'. put_page v bm p count = Some (bm', count')
     \<and> swept v bm (unat p) (Suc (unat p)) bm' (unat count' - unat count) \<and> unat count \<le> unat count'"
proof -
  have n: "count + 1 \<noteq> 0" "unat (count + 1) = Suc (unat count)"
    using assms(2) by (auto simp: unat_word_ariths word_unat_eq_iff)
  obtain bs bc where "bitmap_set bm p = Some bs" "length bs = length bm" "bits bs = insert (unat p) (bits bm)"
    "bitmap_clear bm p = Some bc" "length bc = length bm" "bits bc = bits bm - {unat p}"
    using bitmap_set_spec [OF assms(1)] bitmap_clear_spec [OF assms(1)] by blast
  then show ?thesis
    using n by (cases v; cases "unat p \<in> bits bm")
      (auto simp: put_page_def bitmap_test_spec [OF assms(1)] swept_def changing_Suc le_less_Suc_eq)
qed


lemma put_word_spec:
  assumes "unat idx < length bm" and "unat count \<le> 2 ^ 64 - 65"
  shows "\<exists>bm' count'. put_word v bm idx count = Some (bm', count')
     \<and> swept v bm (64 * unat idx) (64 * unat idx + 64) bm' (unat count' - unat count) \<and> unat count \<le> unat count'"
proof -
  let ?i = "unat idx" and ?w = "bm ! unat idx"
  have inj: "inj_on (\<lambda>n. n + 64 * ?i) S" for S by (rule inj_onI) simp
  have ch: "changing v bm (64 * ?i) (64 * ?i + 64) = (\<lambda>n. n + 64 * ?i) ` {n. n < 64 \<and> bit ?w n \<noteq> v}"
  proof (intro set_eqI iffI)
    fix n assume "n \<in> changing v bm (64 * ?i) (64 * ?i + 64)"
    then have "64 * ?i \<le> n" "n < 64 * ?i + 64" "(n \<in> bits bm) \<noteq> v" by (auto simp: changing_def)
    moreover from this have "n div 64 = ?i" "n mod 64 = n - 64 * ?i" 
      by (auto simp: div_nat_eqI modulo_nat_def)
    ultimately show "n \<in> (\<lambda>n. n + 64 * ?i) ` {n. n < 64 \<and> bit ?w n \<noteq> v}"
      using assms(1) by (intro image_eqI [of _ _ "n - 64 * ?i"]) (auto simp: bits_def page_in_range)
  next
    fix n assume "n \<in> (\<lambda>n. n + 64 * ?i) ` {n. n < 64 \<and> bit ?w n \<noteq> v}"
    then show "n \<in> changing v bm (64 * ?i) (64 * ?i + 64)"
      using assms(1) by (auto simp: changing_def bits_def page_in_range)
  qed
  have pc: "unat (popcount64 ?w) = card {n. n < 64 \<and> bit ?w n}"
    unfolding popcount64_card by (rule arg_cong [of _ _ card]) (auto dest: bit_imp_le_length)
  have le: "card {n. n < 64 \<and> bit ?w n} \<le> 64"
    using card_mono [of "{..<64}" "{n. n < 64 \<and> bit ?w n}"] by auto
  have "{n. n < 64 \<and> \<not> bit ?w n} = {..<64} - {n. n < 64 \<and> bit ?w n}" by auto
  then have co: "card {n. n < 64 \<and> \<not> bit ?w n} = 64 - card {n. n < 64 \<and> bit ?w n}"
    by (simp add: card_Diff_subset subset_eq)
  define d where "d = (if v then 64 - popcount64 ?w else popcount64 ?w)"
  have d: "unat d = card (changing v bm (64 * ?i) (64 * ?i + 64))" "unat d \<le> 64"
    using le co pc by (auto simp: d_def ch card_image [OF inj] unat_sub word_le_nat_alt)
  then have c: "unat (count + d) = unat count + unat d"
    using assms(2) by (simp add: unat_word_ariths)
  have "n \<in> bits (bm[?i := if v then NOT 0 else 0]) \<longleftrightarrow>
     (if 64 * ?i \<le> n \<and> n < 64 * ?i + 64 then v else n \<in> bits bm)" for n
  proof -
    have "n div 64 = ?i \<longleftrightarrow> 64 * ?i \<le> n \<and> n < 64 * ?i + 64" by linarith
    then show ?thesis using assms(1) by (auto simp: bits_update)
  qed
  then show ?thesis
    using assms(1) c d by (simp add: put_word_def word_at_def d_def [symmetric] swept_def)
qed

text \<open>What one of the loops has done when it stands at \<open>st'\<close>.\<close>

definition advanced :: "bool \<Rightarrow> u64 list \<Rightarrow> u64 \<Rightarrow> u64 \<Rightarrow> u64 \<Rightarrow> u64 list \<Rightarrow> u64 \<Rightarrow> u64 \<Rightarrow> bool" where
  "advanced v bm st fin count bm' st' count' \<longleftrightarrow>
     st \<le> st' \<and> st' \<le> fin \<and> count \<le> count'
     \<and> swept v bm (unat st) (unat st') bm' (unat count' - unat count)"

lemma advanced_refl: "st \<le> fin \<Longrightarrow> advanced v bm st fin count bm st count"
  by (simp add: advanced_def swept_refl)

lemma advanced_trans:
  assumes "advanced v bm st fin c bm1 st1 c1" and "advanced v bm1 st1 fin c1 bm2 st2 c2"
  shows "advanced v bm st fin c bm2 st2 c2"
proof -
  from assms have "unat c \<le> unat c1" "unat c1 \<le> unat c2"
    by (auto simp: advanced_def word_le_nat_alt)
  then have e: "(unat c1 - unat c) + (unat c2 - unat c1) = unat c2 - unat c" by simp
  have "swept v bm (unat st) (unat st2) bm2 ((unat c1 - unat c) + (unat c2 - unat c1))"
    by (rule swept_trans) (use assms in \<open>auto simp: advanced_def word_le_nat_alt\<close>)
  with assms show ?thesis by (auto simp: advanced_def e)
qed

lemma advanced_count:
  "advanced v bm st fin c bm' st' c' \<Longrightarrow> c \<le> st \<Longrightarrow> c' \<le> st' \<and> length bm' = length bm"
  using swept_count_le [of v bm "unat st" "unat st'" bm' "unat c' - unat c"]
  by (auto simp: advanced_def word_le_nat_alt swept_def)

lemma advanced_page:
  assumes "st < fin" and "unat fin \<le> 64 * length bm" and "count \<le> st"
  shows "\<exists>bm' c'. put_page v bm st count = Some (bm', c') \<and> advanced v bm st fin count bm' (st + 1) c'"
proof -
  have l: "unat st < unat fin" using assms(1) by (simp add: word_less_nat_alt)
  moreover have "unat count \<le> unat st" using assms(3) by (simp add: word_le_nat_alt)
  ultimately have "unat st < 64 * length bm" "unat count < 2 ^ 64 - 1"
    using assms(2) unat_lt_u64 [of fin] by linarith+
  from put_page_spec [OF this, of v] unat_Suc [OF assms(1)] l show ?thesis
    by (auto simp: advanced_def word_le_nat_alt)
qed

definition at_word :: "u64 \<Rightarrow> u64 \<Rightarrow> bool" where
  "at_word fin st \<longleftrightarrow> fin \<le> st \<or> unat st mod 64 = 0"

lemma head_loop_spec:
  assumes "st \<le> fin" and "unat fin \<le> 64 * length bm" and "count \<le> st"
  shows "\<exists>bm' st' c'. head_loop v bm st fin count = Some (bm', st', c')
     \<and> advanced v bm st fin count bm' st' c' \<and> (at_word fin st')"
  using assms
proof (induction "unat fin - unat st" arbitrary: bm st count rule: less_induct)
  case less
  show ?case
  proof (cases "st < fin \<and> st mod 64 \<noteq> 0")
    case False
    then have "head_loop v bm st fin count = Some (bm, st, count)"
      by (subst head_loop.simps) (rule if_not_P)
    moreover have "at_word fin st"
      using False by (simp only: mod_64_eq_0 at_word_def) auto
    ultimately show ?thesis using less.prems by (simp add: advanced_refl)
  next
    case True
    with advanced_page less.prems obtain bm1 c1 where
      p: "put_page v bm st count = Some (bm1, c1)" and a: "advanced v bm st fin count bm1 (st + 1) c1"
      by blast
    from a advanced_count [OF a less.prems(3)] less.prems(2)
    have "st + 1 \<le> fin" "unat fin \<le> 64 * length bm1" "c1 \<le> st + 1" by (auto simp: advanced_def)
    moreover have "unat fin - unat (st + 1) < unat fin - unat st"
      using conjunct1 [OF True] by (simp add: unat_Suc [of st fin] word_less_nat_alt)
    ultimately obtain bm' st' c' where
      "head_loop v bm1 (st + 1) fin c1 = Some (bm', st', c')"
      "advanced v bm1 (st + 1) fin c1 bm' st' c'" "at_word fin st'"
      using less.hyps [of "st + 1" bm1 c1] by blast
    with p True show ?thesis
      by (auto simp: head_loop.simps [of v bm st] intro: advanced_trans [OF a])
  qed
qed

lemma tail_loop_spec:
  assumes "st \<le> fin" and "unat fin \<le> 64 * length bm" and "count \<le> st"
  shows "\<exists>bm' c'. tail_loop v bm st fin count = Some (bm', c') \<and> advanced v bm st fin count bm' fin c'"
  using assms
proof (induction "unat fin - unat st" arbitrary: bm st count rule: less_induct)
  case less
  show ?case
  proof (cases "st < fin")
    case False
    then have "tail_loop v bm st fin count = Some (bm, count)"
      by (simp add: tail_loop.simps [of v bm st])
    moreover have "st = fin" using False less.prems by simp
    ultimately show ?thesis by (simp add: advanced_refl)
  next
    case True
    with advanced_page less.prems obtain bm1 c1 where
      p: "put_page v bm st count = Some (bm1, c1)" and a: "advanced v bm st fin count bm1 (st + 1) c1"
      by blast
    from a advanced_count [OF a less.prems(3)] less.prems(2)
    have "st + 1 \<le> fin" "unat fin \<le> 64 * length bm1" "c1 \<le> st + 1" by (auto simp: advanced_def)
    moreover have "unat fin - unat (st + 1) < unat fin - unat st"
      using True by (simp add: unat_Suc [of st fin] word_less_nat_alt)
    ultimately obtain bm' c' where
      "tail_loop v bm1 (st + 1) fin c1 = Some (bm', c')" "advanced v bm1 (st + 1) fin c1 bm' fin c'"
      using less.hyps [of "st + 1" bm1 c1] by blast
    with p True show ?thesis
      by (auto simp: tail_loop.simps [of v bm st] intro: advanced_trans [OF a])
  qed
qed

lemma advanced_word:
  assumes "st + 64 \<le> fin" and "st \<le> fin" and "unat st mod 64 = 0" and "unat fin \<le> 64 * length bm"
    and "count \<le> st" and "unat fin \<le> 2 ^ 63"
  shows "unat (st + 64) = unat st + 64 \<and> (\<exists>bm' c'. put_word v bm (st div 64) count = Some (bm', c')
     \<and> advanced v bm st fin count bm' (st + 64) c')"
proof -
  have u: "unat st \<le> unat fin" "unat count \<le> unat st" "unat (st + 64) \<le> unat fin"
    using assms by (simp_all add: word_le_nat_alt)
  then have s: "unat (st + 64) = unat st + 64"
    using assms(6) by (simp add: unat_word_ariths)
  have m: "64 * (unat st div 64) = unat st" using assms(3) mult_div_mod_eq [of 64 "unat st"] by simp
  have "unat (st div 64) < length bm" using u(3) s assms(4) by simp
  moreover have "unat count \<le> 2 ^ 64 - 65" using u assms(6) by simp
  ultimately show ?thesis
    using put_word_spec [of "st div 64" bm count v] u s m
    by (auto simp: advanced_def word_le_nat_alt)
qed

lemma word_loop_spec:
  assumes "st \<le> fin" and "unat fin \<le> 64 * length bm" and "count \<le> st"
    and "at_word fin st" and "unat fin \<le> 2 ^ 63"
  shows "\<exists>bm' st' c'. word_loop v bm st fin count = Some (bm', st', c') \<and> advanced v bm st fin count bm' st' c'"
  using assms(1-4)
proof (induction "unat fin - unat st" arbitrary: bm st count rule: less_induct)
  case less
  show ?case
  proof (cases "st + 64 \<le> fin")
    case False
    then have "word_loop v bm st fin count = Some (bm, st, count)"
      by (simp add: word_loop.simps [of v bm st])
    with less.prems show ?thesis by (auto simp: advanced_refl)
  next
    case True
    have "st < fin"
    proof (rule ccontr)
      assume "\<not> st < fin"
      with less.prems have "st = fin" by simp
      with True assms(5) show False by (simp add: word_le_nat_alt unat_word_ariths)
    qed
    with less.prems(4) have m: "unat st mod 64 = 0" by (auto simp: at_word_def)
    from advanced_word [OF True less.prems(1) m less.prems(2,3) assms(5), of v]
    obtain bm1 c1 where s: "unat (st + 64) = unat st + 64" and
      p: "put_word v bm (st div 64) count = Some (bm1, c1)" and a: "advanced v bm st fin count bm1 (st + 64) c1"
      by blast
    from a advanced_count [OF a less.prems(3)] less.prems(2)
    have "st + 64 \<le> fin" "unat fin \<le> 64 * length bm1" "c1 \<le> st + 64" by (auto simp: advanced_def)
    moreover have "unat fin - unat (st + 64) < unat fin - unat st"
      using \<open>st < fin\<close> s by (simp add: word_less_nat_alt)
    moreover have "at_word fin (st + 64)" using m by (simp add: at_word_def s)
    ultimately obtain bm' st' c' where
      "word_loop v bm1 (st + 64) fin c1 = Some (bm', st', c')" "advanced v bm1 (st + 64) fin c1 bm' st' c'"
      using less.hyps [of "st + 64" bm1 c1] by blast
    with p True show ?thesis
      by (auto simp: word_loop.simps [of v bm st] intro: advanced_trans [OF a])
  qed
qed

lemma put_range_spec:
  assumes "unat fin \<le> 64 * length bm" and "unat fin \<le> 2 ^ 63" and "unat st \<le> 2 ^ 63"
  shows "\<exists>bm' c. put_range v bm st fin = Some (bm', c) \<and> swept v bm (unat st) (unat fin) bm' (unat c)"
proof (cases "st \<le> fin")
  case True
  obtain bm1 st1 c1 where 1: "head_loop v bm st fin 0 = Some (bm1, st1, c1)"
      "advanced v bm st fin 0 bm1 st1 c1" "at_word fin st1"
    using head_loop_spec [OF True assms(1) word_zero_le, of v] by blast
  have l1: "st1 \<le> fin" "unat fin \<le> 64 * length bm1" "c1 \<le> st1"
    using 1(2) advanced_count [OF 1(2)] assms(1) by (auto simp: advanced_def)
  obtain bm2 st2 c2 where 2: "word_loop v bm1 st1 fin c1 = Some (bm2, st2, c2)"
      "advanced v bm1 st1 fin c1 bm2 st2 c2"
    using word_loop_spec [OF l1 1(3) assms(2), of v] by blast
  have l2: "st2 \<le> fin" "unat fin \<le> 64 * length bm2" "c2 \<le> st2"
    using 2(2) advanced_count [OF 2(2)] l1 by (auto simp: advanced_def)
  obtain bm3 c3 where 3: "tail_loop v bm2 st2 fin c2 = Some (bm3, c3)" "advanced v bm2 st2 fin c2 bm3 fin c3"
    using tail_loop_spec [OF l2, of v] by blast
  have "advanced v bm st fin 0 bm3 fin c3"
    using 1(2) 2(2) 3(2) by (blast intro: advanced_trans)
  then show ?thesis using 1 2 3 by (auto simp: put_range_def advanced_def)
next
  case False
  have "unat (st + 64) = unat st + 64" using assms(3) by (simp add: unat_word_ariths)
  with False have n: "\<not> st < fin" "\<not> st + 64 \<le> fin" by (auto simp: word_le_nat_alt word_less_nat_alt)
  then have "put_range v bm st fin = Some (bm, 0)"
    by (simp add: put_range_def head_loop.simps [of v bm st] word_loop.simps [of v bm st] tail_loop.simps [of v bm st])
  then show ?thesis using False by (auto simp: swept_refl word_le_nat_alt)
qed

section \<open>Allocation\<close>

lemma ctzll:
  assumes "w \<noteq> 0"
  shows "ctzll w < 64" and "bit w (ctzll w)" and "j < ctzll w \<Longrightarrow> \<not> bit w j"
proof -
  have "\<exists>i. bit w i" using assms bit_eq_iff [of w 0] by auto
  then obtain i where i: "bit w i" by blast
  then have "i < 64" using bit_imp_le_length [of w i] by simp
  then have ex: "\<exists>i \<in> set [0..<64]. bit w i" using i by (simp only: set_upt) auto
  let ?t = "takeWhile (\<lambda>i. \<not> bit w i) [0..<64]"
  have l: "length ?t < length [0..<64]"
  proof (rule ccontr)
    assume "\<not> length ?t < length [0..<64]"
    then have "?t = [0..<64]"
      by (metis takeWhile_eq_all_conv takeWhile_eq_take length_takeWhile_le linorder_neqE_nat not_le take_all_iff)
    then have "\<forall>i \<in> set [0..<64]. \<not> bit w i" by (simp only: takeWhile_eq_all_conv)
    with ex show False by blast
  qed
  then show "ctzll w < 64" by (simp add: ctzll_def)
  show "bit w (ctzll w)"
    using nth_length_takeWhile [OF l] l unfolding ctzll_def by (simp del: upt_rec_numeral)
  show "\<not> bit w j" if "j < ctzll w"
  proof -
    have "j < length ?t" using that by (simp add: ctzll_def)
    then have "?t ! j \<in> set ?t" "?t ! j = [0..<64] ! j" by (rule nth_mem, rule takeWhile_nth)
    moreover have "[0..<64] ! j = j" using \<open>j < length ?t\<close> l by (simp del: upt_rec_numeral)
    ultimately show ?thesis using set_takeWhileD by force
  qed
qed

lemma alloc_scan_spec:
  assumes "i \<le> qw" and "unat qw \<le> length bm" and "unat qw \<le> 2 ^ 57" and "\<forall>n \<in> bits bm. 64 * unat i \<le> n"
  shows "\<exists>r. alloc_scan bm i qw = Some r \<and> (case r of
       None \<Rightarrow> bits bm \<inter> {..<64 * unat qw} = {}
     | Some page \<Rightarrow> unat page \<in> bits bm \<and> (\<forall>n \<in> bits bm. unat page \<le> n))"
  using assms(1,4)
proof (induction "unat qw - unat i" arbitrary: i rule: less_induct)
  case less
  show ?case
  proof (cases "i < qw")
    case False
    then have "i = qw" using less.prems by simp
    with less.prems(2) have "bits bm \<inter> {..<64 * unat qw} = {}" by force
    then show ?thesis using False by (simp add: alloc_scan.simps [of bm i])
  next
    case True
    then have u: "unat i < unat qw" and s: "unat (i + 1) = Suc (unat i)"
      by (simp_all add: word_less_nat_alt unat_Suc [of i qw])
    let ?w = "bm ! unat i"
    have w: "word_at bm i = Some ?w" using u assms(2) by (simp add: word_at_def)
    have in_word: "n div 64 = unat i" if "n < 64 * unat (i + 1)" "n \<in> bits bm" for n
      using less.prems(2) that s by fastforce
    show ?thesis
    proof (cases "?w = 0")
      case 0: True
      have "\<forall>n \<in> bits bm. 64 * unat (i + 1) \<le> n"
      proof (rule ballI, rule ccontr)
        fix n assume n: "n \<in> bits bm" "\<not> 64 * unat (i + 1) \<le> n"
        then have "n div 64 = unat i" using in_word by simp
        with n 0 show False by (simp add: bits_def)
      qed
      moreover have "i + 1 \<le> qw" "unat qw - unat (i + 1) < unat qw - unat i"
        using u s by (simp_all add: word_le_nat_alt)
      ultimately show ?thesis
        using less.hyps [of "i + 1"] True 0 w by (simp add: alloc_scan.simps [of bm i])
    next
      case nz: False
      let ?p = "i * 64 + of_nat (ctzll ?w)"
      have c: "ctzll ?w < 64" by (rule ctzll(1) [OF nz])
      have "unat (of_nat (ctzll ?w) :: u64) = ctzll ?w" using c by (simp add: unat_of_nat_u64)
      then have p: "unat ?p = 64 * unat i + ctzll ?w"
        using c u assms(3) by (simp add: unat_word_ariths)
      then have "unat ?p \<in> bits bm"
        using c u assms(2) ctzll(2) [OF nz] by (simp add: bits_def page_in_range)
      moreover have "unat ?p \<le> n" if n: "n \<in> bits bm" for n
      proof (rule ccontr)
        assume l: "\<not> unat ?p \<le> n"
        then have "n div 64 = unat i" using in_word [OF _ n] p c s by simp
        moreover have "n = 64 * (n div 64) + n mod 64" by simp
        ultimately have "n mod 64 < ctzll ?w" using l p by linarith
        with n \<open>n div 64 = unat i\<close> show False using ctzll(3) [OF nz] by (simp add: bits_def)
      qed
      ultimately show ?thesis using True nz w by (simp add: alloc_scan.simps [of bm i])
    qed
  qed
qed

section \<open>The invariant\<close>

definition pmm_inv :: "'a pmm_scheme \<Rightarrow> bool" where [inv_defs]:
  "pmm_inv s \<longleftrightarrow> unat (total_pages s) \<le> 2 ^ 52
     \<and> length (bitmap s) = (unat (total_pages s) + 63) div 64
     \<and> bits (bitmap s) \<subseteq> {0<..<unat (total_pages s)}
     \<and> unat (free_count s) = card (bits (bitmap s))
     \<and> lock (pmm_lock s) = 0"

text \<open>The pages \<open>pmm_alloc_page\<close> may hand out: the free ones below 4 GiB.\<close>

definition allocatable :: "'a pmm_scheme \<Rightarrow> nat set" where
  "allocatable s = bits (bitmap s) \<inter> {..<2 ^ 20}"

text \<open>What a critical section leaves of the lock and the processor flags.\<close>

definition unlocked :: "'a pmm_scheme \<Rightarrow> 'a pmm_scheme" where
  "unlocked s = s\<lparr>pmm_lock := (pmm_lock s)\<lparr>saved_flags := rflags s, lock := 0\<rparr>\<rparr>"

lemma pmm_acquire_free:
  "lock (pmm_lock s) = 0 \<Longrightarrow>
   pmm_acquire s = Some (s\<lparr>rflags := cli (rflags s), pmm_lock := (pmm_lock s)\<lparr>lock := 1, saved_flags := rflags s\<rparr>\<rparr>)"
  by (simp add: pmm_acquire_def)

lemma max_page_flags [simp]: "max_page (s\<lparr>rflags := f, pmm_lock := l\<rparr>) = max_page s"
  by (simp add: max_page_def)

lemmas pmm_critical = pmm_acquire_free pmm_release_def spin_unlock_def unlocked_def

lemma pmm_inv_page_in_range: "pmm_inv s \<Longrightarrow> n < unat (total_pages s) \<Longrightarrow> n < 64 * length (bitmap s)"
  by (auto simp: pmm_inv_def)

lemma pmm_alloc_page_spec:
  assumes inv: "pmm_inv s"
  shows "pmm_alloc_page s = Some (NULL, unlocked s) \<and> allocatable s = {} \<or>
     (\<exists>page bm. pmm_alloc_page s = Some (of_nat page * PAGE_SIZE, unlocked (s\<lparr>bitmap := bm, free_count := free_count s - 1\<rparr>))
        \<and> page \<in> allocatable s \<and> (\<forall>n \<in> allocatable s. page \<le> n)
        \<and> bits bm = bits (bitmap s) - {page} \<and> length bm = length (bitmap s))"
proof -
  define mx where "mx = max_page s"
  let ?q = "(mx + 63) div 64"
  from inv have l0: "lock (pmm_lock s) = 0" and t: "unat (total_pages s) \<le> 2 ^ 52"
    and len: "length (bitmap s) = (unat (total_pages s) + 63) div 64"
    and sub: "bits (bitmap s) \<subseteq> {0<..<unat (total_pages s)}"
    by (auto simp: pmm_inv_def)
  have mx: "unat mx = min (unat (total_pages s)) (2 ^ 20)"
    by (simp add: mx_def max_page_def word_less_nat_alt min_def)
  then have "unat (mx + 63) = unat mx + 63"
    by (simp add: unat_word_ariths)
  then have q: "unat ?q = (unat mx + 63) div 64" by simp
  then have ql: "unat ?q \<le> length (bitmap s)" "unat ?q \<le> 2 ^ 57"
    using mx len by (auto intro!: div_le_mono)
  obtain r where r: "alloc_scan (bitmap s) 0 ?q = Some r" and rs: "case r of
       None \<Rightarrow> bits (bitmap s) \<inter> {..<64 * unat ?q} = {}
     | Some page \<Rightarrow> unat page \<in> bits (bitmap s) \<and> (\<forall>n \<in> bits (bitmap s). unat page \<le> n)"
    using alloc_scan_spec [of 0 ?q "bitmap s"] ql by auto
  have a: "allocatable s = bits (bitmap s) \<inter> {..<unat mx}"
    using sub mx by (auto simp: allocatable_def)
  have cover: "unat mx \<le> 64 * unat ?q" unfolding q by linarith
  show ?thesis
  proof (cases r)
    case None
    then have "allocatable s = {}" using rs cover by (auto simp: a)
    then show ?thesis using None r l0
      by (simp add: pmm_alloc_page_def mx_def [symmetric] pmm_critical)
  next
    case (Some page)
    with rs have pg: "unat page \<in> bits (bitmap s)" "\<forall>n \<in> bits (bitmap s). unat page \<le> n" by auto
    show ?thesis
    proof (cases "mx \<le> page")
      case True
      then have "allocatable s = {}" using pg by (force simp: a word_le_nat_alt)
      then show ?thesis using True Some r l0
        by (simp add: pmm_alloc_page_def mx_def [symmetric] pmm_critical)
    next
      case False
      obtain bm where bm: "bitmap_clear (bitmap s) page = Some bm" "length bm = length (bitmap s)"
          "bits bm = bits (bitmap s) - {unat page}"
        using bitmap_clear_spec [of page "bitmap s"] bits_less [OF pg(1)] by blast
      have "unat page \<in> allocatable s" using pg False by (simp add: a word_le_nat_alt)
      moreover have "\<forall>n \<in> allocatable s. unat page \<le> n" using pg by (auto simp: a)
      moreover have "pmm_alloc_page s = Some (of_nat (unat page) * PAGE_SIZE, unlocked (s\<lparr>bitmap := bm, free_count := free_count s - 1\<rparr>))"
        using False Some r l0 bm
        by (simp add: pmm_alloc_page_def mx_def [symmetric] pmm_critical)
      ultimately show ?thesis using bm by blast
    qed
  qed
qed

lemma pmm_inv_unlocked [simp]: "pmm_inv (unlocked s) \<longleftrightarrow> pmm_inv (s\<lparr>pmm_lock := (pmm_lock s)\<lparr>lock := 0\<rparr>\<rparr>)"
  by (simp add: pmm_inv_def unlocked_def)

lemma unlocked_fields [simp]:
  "bitmap (unlocked s) = bitmap s" "free_count (unlocked s) = free_count s"
  "total_pages (unlocked s) = total_pages s" "rflags (unlocked s) = rflags s"
  "lock (pmm_lock (unlocked s)) = 0" "pmm.more (unlocked s) = pmm.more s"
  by (simp_all add: unlocked_def)

definition page_of :: "ptr \<Rightarrow> nat" where
  "page_of p = unat p div 4096"

lemma page_of_page [simp]: "n < 2 ^ 52 \<Longrightarrow> page_of (of_nat n * PAGE_SIZE) = n"
  "n < 2 ^ 52 \<Longrightarrow> unat (of_nat n * PAGE_SIZE :: u64) = n * 4096"
proof -
  assume n: "n < 2 ^ 52"
  have "unat (of_nat n :: u64) = n" using n by (simp add: unat_of_nat_u64)
  then show "unat (of_nat n * PAGE_SIZE :: u64) = n * 4096" using n by (simp add: unat_word_ariths)
  then show "page_of (of_nat n * PAGE_SIZE) = n" by (simp add: page_of_def)
qed

text \<open>The abstract allocator: a set of free page numbers.\<close>

definition free_set :: "'a pmm_scheme \<Rightarrow> nat set" where
  "free_set s = bits (bitmap s)"

lemma pmm_alloc_page_cases:
  assumes "pmm_inv s"
  obtains (out_of_memory) "pmm_alloc_page s = Some (NULL, unlocked s)" "allocatable s = {}" "pmm_inv (unlocked s)"
    "free_set (unlocked s) = free_set s"
  | (page) p s' where "pmm_alloc_page s = Some (p, s')" "pmm_inv s'" "p \<noteq> NULL" "aligned 4096 p"
    "page_of p \<in> allocatable s" "\<forall>n \<in> allocatable s. page_of p \<le> n"
    "free_set s' = free_set s - {page_of p}" "unat (free_count s') + 1 = unat (free_count s)"
    "rflags s' = rflags s" "total_pages s' = total_pages s" "pmm.more s' = pmm.more s"
    "unat p < 2 ^ 32"
proof -
  have locked: "(pmm_lock s)\<lparr>lock := 0\<rparr> = pmm_lock s" using assms by (cases "pmm_lock s") (simp add: pmm_inv_def)
  from pmm_alloc_page_spec [OF assms] consider
      (1) "pmm_alloc_page s = Some (NULL, unlocked s)" "allocatable s = {}"
    | (2) page bm where "pmm_alloc_page s = Some (of_nat page * PAGE_SIZE, unlocked (s\<lparr>bitmap := bm, free_count := free_count s - 1\<rparr>))"
        "page \<in> allocatable s" "\<forall>n \<in> allocatable s. page \<le> n"
        "bits bm = bits (bitmap s) - {page}" "length bm = length (bitmap s)"
    by blast
  then show ?thesis
  proof cases
    case 1
    then show ?thesis using out_of_memory assms locked by (simp add: free_set_def)
  next
    case 2
    let ?s = "unlocked (s\<lparr>bitmap := bm, free_count := free_count s - 1\<rparr>)"
    have p: "page < 2 ^ 20" "page \<in> bits (bitmap s)" using 2(2) by (auto simp: allocatable_def)
    have "page \<noteq> 0" using p(2) assms by (auto simp: pmm_inv_def)
    have u: "unat (of_nat page * PAGE_SIZE :: u64) = page * 4096" "page_of (of_nat page * PAGE_SIZE) = page"
      using p(1) by simp_all
    have pos: "card (bits (bitmap s)) > 0" using p(2) card_gt_0_iff [of "bits (bitmap s)"] by auto
    have "unat (free_count s) = card (bits (bitmap s))" using assms by (simp add: pmm_inv_def)
    with pos have "free_count s \<noteq> 0" by (auto simp: unat_eq_0)
    then have fc: "unat (free_count s - 1) = unat (free_count s) - 1" by (rule unat_minus_one_lt)
    have inv: "pmm_inv ?s"
      using assms 2 p fc by (auto simp: pmm_inv_def)
    have "of_nat page * PAGE_SIZE \<noteq> NULL" "aligned 4096 (of_nat page * PAGE_SIZE)"
      using u(1) \<open>page \<noteq> 0\<close> by (auto simp: unat_eq_0 [symmetric] aligned_def)
    then show ?thesis
      using page [OF 2(1) inv] 2 u p fc pos assms by (simp add: free_set_def pmm_inv_def)
  qed
qed

lemma pmm_free_page_spec:
  assumes inv: "pmm_inv s" and p: "page_of p \<noteq> 0" and r: "page_of p < unat (total_pages s)"
  shows "\<exists>s'. pmm_free_page p s = Some s' \<and> pmm_inv s' \<and> free_set s' = insert (page_of p) (free_set s)
     \<and> unat (free_count s') = unat (free_count s) + (if page_of p \<in> free_set s then 0 else 1)
     \<and> rflags s' = rflags s \<and> total_pages s' = total_pages s \<and> pmm.more s' = pmm.more s"
proof -
  have l0: "lock (pmm_lock s) = 0" using inv by (simp add: pmm_inv_def)
  have u: "unat (p div 4096) = page_of p" by (simp add: page_of_def unat_div)
  have nr: "\<not> total_pages s \<le> p div 4096" using r u by (simp add: word_le_nat_alt)
  have rng: "unat (p div 4096) < 64 * length (bitmap s)"
    using pmm_inv_page_in_range [OF inv r] u by simp
  obtain bm where bm: "bitmap_set (bitmap s) (p div 4096) = Some bm" "length bm = length (bitmap s)"
      "bits bm = insert (page_of p) (bits (bitmap s))"
    using bitmap_set_spec [OF rng] u by auto
  have small: "card (bits (bitmap s)) \<le> 2 ^ 52"
  proof -
    have "card (bits (bitmap s)) \<le> card {..<2 ^ 52 :: nat}"
      using inv by (intro card_mono) (auto simp: pmm_inv_def)
    then show ?thesis by simp
  qed
  have fc: "unat (free_count s + 1) = unat (free_count s) + 1"
    using inv small by (simp add: pmm_inv_def unat_word_ariths)
  show ?thesis
  proof (cases "page_of p \<in> bits (bitmap s)")
    case True
    then have "pmm_free_page p s = Some (unlocked s)"
      using l0 nr rng u by (simp add: pmm_free_page_def pmm_critical bitmap_test_spec)
    then show ?thesis using True inv by (auto simp: free_set_def pmm_inv_def unlocked_def)
  next
    case False
    then have "pmm_free_page p s = Some (unlocked (s\<lparr>bitmap := bm, free_count := free_count s + 1\<rparr>))"
      using l0 nr rng u bm by (simp add: pmm_free_page_def pmm_critical bitmap_test_spec)
    then show ?thesis using False inv bm fc p r by (auto simp: free_set_def pmm_inv_def unlocked_def)
  qed
qed

section \<open>A contract for page allocators\<close>

text \<open>A sequence of allocations, as the clients of the allocator make them.\<close>

primrec alloc_seq :: "('s \<Rightarrow> (ptr \<times> 's) option) \<Rightarrow> nat \<Rightarrow> 's \<Rightarrow> (ptr list \<times> 's) option" where
  "alloc_seq alloc 0 s = Some ([], s)"
| "alloc_seq alloc (Suc n) s = do {
     (p, s) \<leftarrow> alloc s;
     (ps, s) \<leftarrow> alloc_seq alloc n s;
     Some (p # ps, s) }"

locale page_allocator =
  fixes alloc :: "'s \<Rightarrow> (ptr \<times> 's) option"
    and release :: "ptr \<Rightarrow> 's \<Rightarrow> 's option"
    and inv :: "'s \<Rightarrow> bool"
    and pages :: "'s \<Rightarrow> nat set"
    and known :: "'s \<Rightarrow> nat"
  assumes alloc_total: "inv s \<Longrightarrow> \<exists>p s'. alloc s = Some (p, s') \<and> inv s' \<and> known s' = known s"
    and alloc_null: "inv s \<Longrightarrow> alloc s = Some (NULL, s') \<Longrightarrow> pages s' = pages s"
    and alloc_page: "inv s \<Longrightarrow> alloc s = Some (p, s') \<Longrightarrow> p \<noteq> NULL \<Longrightarrow>
      page_of p \<in> pages s \<and> pages s' = pages s - {page_of p} \<and> aligned 4096 p"
    and pages_known: "inv s \<Longrightarrow> pages s \<subseteq> {0<..<known s}"
    and release_page: "inv s \<Longrightarrow> page_of p \<in> {0<..<known s} \<Longrightarrow>
      \<exists>s'. release p s = Some s' \<and> inv s' \<and> pages s' = insert (page_of p) (pages s)"
begin

lemma alloc_release:
  assumes "inv s" and "alloc s = Some (p, s')" and "p \<noteq> NULL"
  shows "\<exists>s''. release p s' = Some s'' \<and> inv s'' \<and> pages s'' = pages s"
proof -
  have s': "inv s'" "known s' = known s" using alloc_total [OF assms(1)] assms(2) by auto
  from alloc_page [OF assms] have a: "page_of p \<in> pages s" "pages s' = pages s - {page_of p}" by auto
  with pages_known [OF assms(1)] s' have "page_of p \<in> {0<..<known s'}" by auto
  from release_page [OF s'(1) this] a show ?thesis by auto
qed

lemma alloc_seq_distinct:
  "inv s \<Longrightarrow> \<exists>ps s'. alloc_seq alloc n s = Some (ps, s') \<and> inv s' \<and> length ps = n
     \<and> distinct (map page_of (filter (\<lambda>p. p \<noteq> NULL) ps))
     \<and> page_of ` (set ps - {NULL}) = pages s - pages s' \<and> pages s' \<subseteq> pages s"
proof (induction n arbitrary: s)
  case (Suc n)
  obtain p s1 where 1: "alloc s = Some (p, s1)" "inv s1" using alloc_total [OF Suc.prems] by blast
  obtain ps s2 where 2: "alloc_seq alloc n s1 = Some (ps, s2)" "inv s2" "length ps = n"
      "distinct (map page_of (filter (\<lambda>p. p \<noteq> NULL) ps))"
      "page_of ` (set ps - {NULL}) = pages s1 - pages s2" "pages s2 \<subseteq> pages s1"
    using Suc.IH [OF 1(2)] by blast
  show ?case
  proof (cases "p = NULL")
    case True
    then show ?thesis using 1 2 alloc_null [OF Suc.prems] by simp
  next
    case False
    with alloc_page [OF Suc.prems 1(1)]
    have a: "page_of p \<in> pages s" "pages s1 = pages s - {page_of p}" by auto
    have "{x \<in> set ps. x \<noteq> NULL} = set ps - {NULL}" by blast
    then have "page_of p \<notin> page_of ` {x \<in> set ps. x \<noteq> NULL}" using 2(5) a(2) by simp
    moreover have "page_of ` (insert p (set ps) - {NULL}) = pages s - pages s2"
    proof -
      have "insert p (set ps) - {NULL} = insert p (set ps - {NULL})" using False by blast
      then have "page_of ` (insert p (set ps) - {NULL}) = insert (page_of p) (pages s1 - pages s2)"
        by (simp only: image_insert 2(5))
      moreover have "insert x (A - {x} - C) = A - C" if "x \<in> A" "C \<subseteq> A - {x}" for x :: nat and A C
        using that by blast
      ultimately show ?thesis using a 2(6) by (simp only:)
    qed
    moreover have "pages s2 \<subseteq> pages s"
      using 2(6) Diff_subset unfolding a(2) by (rule subset_trans)
    ultimately show ?thesis using 1 2 False by simp
  qed
qed simp

end

interpretation pmm: page_allocator pmm_alloc_page pmm_free_page pmm_inv free_set "\<lambda>s. unat (total_pages s)"
proof
  fix s :: "'a pmm_scheme" assume inv: "pmm_inv s"
  show "\<exists>p s'. pmm_alloc_page s = Some (p, s') \<and> pmm_inv s' \<and> unat (total_pages s') = unat (total_pages s)"
    by (rule pmm_alloc_page_cases [OF inv]) (auto simp: unlocked_def)
  show "free_set s \<subseteq> {0<..<unat (total_pages s)}" using inv by (simp add: pmm_inv_def free_set_def)
next
  fix s s' :: "'a pmm_scheme" assume inv: "pmm_inv s" and "pmm_alloc_page s = Some (NULL, s')"
  then show "free_set s' = free_set s"
    by (cases rule: pmm_alloc_page_cases [OF inv]) auto
next
  fix s s' :: "'a pmm_scheme" and p
  assume inv: "pmm_inv s" and "pmm_alloc_page s = Some (p, s')" and "p \<noteq> NULL"
  then show "page_of p \<in> free_set s \<and> free_set s' = free_set s - {page_of p} \<and> aligned 4096 p"
    by (cases rule: pmm_alloc_page_cases [OF inv]) (auto simp: allocatable_def free_set_def)
next
  fix s :: "'a pmm_scheme" and p
  assume "pmm_inv s" and "page_of p \<in> {0<..<unat (total_pages s)}"
  then show "\<exists>s'. pmm_free_page p s = Some s' \<and> pmm_inv s' \<and> free_set s' = insert (page_of p) (free_set s)"
    using pmm_free_page_spec [of s p] by auto
qed

section \<open>Initialisation\<close>

text \<open>
  What the firmware promises of the memory map (UEFI descriptors cover whole pages and stay
  below \<open>2 ^ 52\<close>, the physical address width of x86-64) and of the kernel image.
\<close>

definition entry_end :: "MmapEntry \<Rightarrow> nat" where
  "entry_end e = unat (mbase e) + unat (length_bytes e)"

definition mmap_ok :: "MmapEntry list \<Rightarrow> bool" where
  "mmap_ok es \<longleftrightarrow> (\<forall>e \<in> set es. entry_end e \<le> 2 ^ 52 \<and> 4096 dvd unat (mbase e) \<and> 4096 dvd unat (length_bytes e))"

definition entry_pages :: "MmapEntry \<Rightarrow> nat set" where
  "entry_pages e = (if mtype e = MMAP_USABLE then {unat (mbase e) div 4096..<entry_end e div 4096} else {})"

definition usable_pages :: "MmapEntry list \<Rightarrow> nat set" where
  "usable_pages es = (\<Union>e \<in> set es. entry_pages e)"

text \<open>The pages that overlap the \<open>n\<close> bytes at address \<open>a\<close>.\<close>

definition pages_of_range :: "nat \<Rightarrow> nat \<Rightarrow> nat set" where
  "pages_of_range a n = {a div 4096..<(a + n + 4095) div 4096}"

lemma entry_end_word:
  "entry_end e \<le> 2 ^ 52 \<Longrightarrow> unat (mbase e + length_bytes e) = entry_end e"
  by (simp add: entry_end_def unat_word_ariths)

lemma find_highest_ge:
  assumes "mmap_ok es"
  shows "unat (find_highest es) \<le> 2 ^ 40 \<and> (\<forall>e \<in> set es. entry_end e \<le> 4096 * unat (find_highest es))"
proof -
  let ?f = "\<lambda>e h. let end_page = (mbase e + length_bytes e) div PAGE_SIZE in if h < end_page then end_page else h"
  have "unat h \<le> 2 ^ 40 \<Longrightarrow> unat (fold ?f es h) \<le> 2 ^ 40 \<and> unat h \<le> unat (fold ?f es h)
    \<and> (\<forall>e \<in> set es. entry_end e \<le> 4096 * unat (fold ?f es h))" for h
    using assms
  proof (induction es arbitrary: h)
    case (Cons e es)
    have e: "entry_end e \<le> 2 ^ 52" "4096 dvd entry_end e"
      using Cons.prems(2) by (auto simp: mmap_ok_def entry_end_def)
    then have u: "unat ((mbase e + length_bytes e) div PAGE_SIZE) = entry_end e div 4096"
      by (simp add: unat_div entry_end_word)
    define h' where "h' = ?f e h"
    have h': "unat h' \<le> 2 ^ 40" "unat h \<le> unat h'" "entry_end e \<le> 4096 * unat h'"
      using u e Cons.prems(1) by (auto simp: h'_def Let_def word_less_nat_alt)
    from Cons.IH [OF h'(1)] Cons.prems(2) have
      "unat (fold ?f es h') \<le> 2 ^ 40 \<and> unat h' \<le> unat (fold ?f es h')
       \<and> (\<forall>e \<in> set es. entry_end e \<le> 4096 * unat (fold ?f es h'))" by (simp add: mmap_ok_def)
    then show ?case using h' unfolding fold.simps o_apply h'_def [symmetric] by auto
  qed simp
  from this [of 0] show ?thesis by (simp add: find_highest_def)
qed

lemma unat_page_align:
  assumes "unat a \<le> 2 ^ 52"
  shows "unat (page_align a) = (unat a + 4095) div 4096 * 4096"
proof -
  have "unat (a + 4095) = unat a + 4095" using assms by (simp add: unat_word_ariths)
  moreover have "page_align a = (a + 4095) AND - 4096" by (simp add: page_align_def add.commute)
  ultimately show ?thesis using unat_align_down(1) [of "a + 4095"] by simp
qed

lemma skip_low_spec:
  assumes "skip_low b len = Some (b', l')" and "unat b + unat len \<le> 2 ^ 52"
  shows "unat b \<le> unat b' \<and> unat b' + unat l' = unat b + unat len \<and> 0x100000 \<le> unat b'"
proof (cases "b < 0x100000")
  case True
  then have lt: "unat b < 0x100000" by (simp add: word_less_nat_alt)
  then have s: "unat (0x100000 - b) = 0x100000 - unat b"
    by (subst unat_sub) (simp_all add: word_le_nat_alt)
  have ns: "\<not> len \<le> 0x100000 - b" "b' = b + (0x100000 - b)" "l' = len - (0x100000 - b)"
    using assms(1) True by (auto simp: skip_low_def Let_def split: if_splits)
  then have "unat l' = unat len - (0x100000 - unat b)" "0x100000 - unat b < unat len"
    using s by (simp_all add: unat_sub word_le_nat_alt)
  moreover have "unat b' = 0x100000" using ns by simp
  ultimately show ?thesis using lt by simp
next
  case False
  then show ?thesis using assms by (auto simp: skip_low_def word_less_nat_alt)
qed

lemma skip_kernel_spec:
  assumes "skip_kernel kp ks b len = Some (b', l')" and "unat b + unat len \<le> 2 ^ 52" and "unat kp + unat ks \<le> 2 ^ 52"
  shows "unat b \<le> unat b' \<and> unat b' + unat l' = unat b + unat len
    \<and> (unat kp + unat ks \<le> unat b' \<or> unat b' + unat l' \<le> unat kp)"
proof -
  have k: "unat (kp + ks) = unat kp + unat ks" "unat (b + len) = unat b + unat len"
    using assms(2,3) by (simp_all add: unat_word_ariths)
  show ?thesis
  proof (cases "b < kp + ks \<and> kp < b + len")
    case True
    then have lt: "unat b < unat kp + unat ks" using k by (simp add: word_less_nat_alt)
    then have s: "unat (kp + ks - b) = unat kp + unat ks - unat b"
      using k by (simp add: unat_sub word_le_nat_alt)
    have ns: "\<not> len \<le> kp + ks - b" "b' = b + (kp + ks - b)" "l' = len - (kp + ks - b)"
      using assms(1) True by (auto simp: skip_kernel_def Let_def split: if_splits)
    then have "unat l' = unat len - (unat kp + unat ks - unat b)" "unat kp + unat ks - unat b < unat len"
      using s by (simp_all add: unat_sub word_le_nat_alt)
    moreover have "unat b' = unat kp + unat ks" using ns k by simp
    ultimately show ?thesis using lt by simp
  next
    case False
    then show ?thesis using assms k by (auto simp: skip_kernel_def word_less_nat_alt)
  qed
qed

text \<open>
  Where the bitmap goes: page-aligned, above the first megabyte, inside a usable region and
  apart from the kernel image.
\<close>

definition bitmap_place_ok :: "MmapEntry list \<Rightarrow> u64 \<Rightarrow> u64 \<Rightarrow> u64 \<Rightarrow> ptr \<Rightarrow> bool" where
  "bitmap_place_ok es kp ks bsize p \<longleftrightarrow> aligned 4096 p \<and> 0x100000 \<le> unat p
     \<and> (\<exists>e \<in> set es. mtype e = MMAP_USABLE \<and> unat (mbase e) \<le> unat p \<and> unat p + unat bsize \<le> entry_end e)
     \<and> (unat kp + unat ks \<le> unat p \<or> unat p + unat bsize \<le> unat kp)"

lemma place_bitmap_spec:
  assumes "place_bitmap kp ks bsize e = Some p" and "entry_end e \<le> 2 ^ 52" and "unat kp + unat ks \<le> 2 ^ 52"
  shows "mtype e = MMAP_USABLE \<and> aligned 4096 p \<and> 0x100000 \<le> unat p \<and> unat (mbase e) \<le> unat p
    \<and> unat p + unat bsize \<le> entry_end e \<and> (unat kp + unat ks \<le> unat p \<or> unat p + unat bsize \<le> unat kp)"
proof -
  from assms(1) obtain b1 l1 b2 l2 where
    us: "mtype e = MMAP_USABLE" and 1: "skip_low (mbase e) (length_bytes e) = Some (b1, l1)"
    and 2: "skip_kernel kp ks b1 l1 = Some (b2, l2)"
    and p: "p = page_align b2" "\<not> l2 \<le> page_align b2 - b2" "bsize \<le> l2 - (page_align b2 - b2)"
    by (auto simp: place_bitmap_def Let_def bind_eq_Some_conv split: if_splits)
  have s1: "unat (mbase e) \<le> unat b1" "unat b1 + unat l1 = entry_end e" "0x100000 \<le> unat b1"
    using skip_low_spec [OF 1] assms(2) by (auto simp: entry_end_def)
  have s2: "unat b1 \<le> unat b2" "unat b2 + unat l2 = entry_end e"
    "unat kp + unat ks \<le> unat b2 \<or> unat b2 + unat l2 \<le> unat kp"
    using skip_kernel_spec [OF 2 _ assms(3)] s1 assms(2) by auto
  have pa: "unat p = (unat b2 + 4095) div 4096 * 4096"
    using s2 assms(2) p(1) by (simp add: unat_page_align)
  then have ge: "unat b2 \<le> unat p" by linarith
  then have d: "unat (page_align b2 - b2) = unat p - unat b2"
    using p(1) by (simp add: unat_sub word_le_nat_alt)
  have lt: "unat p - unat b2 < unat l2" using p(2) d by (simp add: word_le_nat_alt)
  then have "unat (l2 - (page_align b2 - b2)) = unat l2 - (unat p - unat b2)"
    using d by (simp add: unat_sub word_le_nat_alt)
  then have "unat bsize \<le> unat l2 - (unat p - unat b2)" using p(3) by (simp add: word_le_nat_alt)
  with lt ge s2 have "unat p + unat bsize \<le> entry_end e" by linarith
  moreover have "aligned 4096 p" by (simp add: aligned_def pa)
  ultimately show ?thesis using us s1 s2 ge by auto
qed

lemma find_bitmap_spec:
  assumes "find_bitmap kp ks bsize es \<noteq> NULL" and "mmap_ok es" and "unat kp + unat ks \<le> 2 ^ 52"
  shows "bitmap_place_ok es kp ks bsize (find_bitmap kp ks bsize es)"
  using assms(1,2)
proof (induction es)
  case (Cons e es)
  show ?case
  proof (cases "place_bitmap kp ks bsize e")
    case None
    then have "bitmap_place_ok es kp ks bsize (find_bitmap kp ks bsize es)"
      using Cons by (simp add: mmap_ok_def)
    then show ?thesis using None by (auto simp: bitmap_place_ok_def)
  next
    case (Some p)
    moreover have "entry_end e \<le> 2 ^ 52" using Cons.prems(2) by (simp add: mmap_ok_def)
    ultimately show ?thesis using place_bitmap_spec [OF Some _ assms(3)]
      by (auto simp: bitmap_place_ok_def)
  qed
qed simp

lemma changing_True: "changing True bm a b = {a..<b} - bits bm"
  and changing_False: "changing False bm a b = {a..<b} \<inter> bits bm"
  by (auto simp: changing_def)

lemma swept_True:
  assumes "swept True bm a b bm' c"
  shows "length bm' = length bm" "bits bm' = bits bm \<union> {a..<b}" "card (bits bm') = card (bits bm) + c"
proof -
  show "length bm' = length bm" using assms by (simp add: swept_def)
  show b: "bits bm' = bits bm \<union> {a..<b}"
    by (rule set_eqI) (auto simp: swept_bits [OF assms])
  have "bits bm' = bits bm \<union> changing True bm a b" unfolding b changing_True by simp
  moreover have "bits bm \<inter> changing True bm a b = {}" unfolding changing_True by blast
  ultimately show "card (bits bm') = card (bits bm) + c"
    using assms by (simp add: card_Un_disjoint swept_def)
qed

lemma swept_False:
  assumes "swept False bm a b bm' c"
  shows "length bm' = length bm" "bits bm' = bits bm - {a..<b}" "card (bits bm) = card (bits bm') + c"
proof -
  show "length bm' = length bm" using assms by (simp add: swept_def)
  show b: "bits bm' = bits bm - {a..<b}"
    by (rule set_eqI) (auto simp: swept_bits [OF assms])
  have "bits bm = bits bm' \<union> changing False bm a b" unfolding b changing_False by blast
  moreover have "bits bm' \<inter> changing False bm a b = {}" unfolding b changing_False by blast
  ultimately have "card (bits bm) = card (bits bm') + card (changing False bm a b)"
    using card_Un_disjoint [of "bits bm'" "changing False bm a b"] by simp
  then show "card (bits bm) = card (bits bm') + c"
    using assms by (simp add: swept_def)
qed

lemma free_regions_spec:
  assumes "mmap_ok es" and "\<forall>e \<in> set es. entry_end e \<le> 4096 * unat tot" and "unat tot \<le> 2 ^ 40"
    and "unat tot \<le> 64 * length bm" and "unat count = card (bits bm)" and "bits bm \<subseteq> {..<unat tot}"
  shows "\<exists>bm' c. free_regions es tot bm count = Some (bm', c) \<and> length bm' = length bm
     \<and> bits bm' = bits bm \<union> usable_pages es \<and> unat c = card (bits bm') \<and> bits bm' \<subseteq> {..<unat tot}"
  using assms(1,2,4-)
proof (induction es arbitrary: bm count)
  case (Cons e es)
  show ?case
  proof (cases "mtype e = MMAP_USABLE")
    case False
    then show ?thesis using Cons by (simp add: usable_pages_def entry_pages_def mmap_ok_def)
  next
    case True
    let ?st = "page_align (mbase e) div PAGE_SIZE"
    let ?en = "((mbase e + length_bytes e) AND NOT 4095) div PAGE_SIZE"
    have e: "entry_end e \<le> 2 ^ 52" "4096 dvd unat (mbase e)" "4096 dvd entry_end e" "entry_end e \<le> 4096 * unat tot"
      using Cons.prems(1,2) by (auto simp: mmap_ok_def entry_end_def)
    have st: "unat ?st = unat (mbase e) div 4096"
      using e(1,2) by (auto simp: unat_div unat_page_align entry_end_def)
    have en: "unat ?en = entry_end e div 4096"
      using e(1,3) by (simp add: unat_div unat_align_down(1) entry_end_word)
    then have clip: "\<not> tot < ?en" using e(4) by (auto simp: word_less_nat_alt)
    have le: "unat ?en \<le> unat tot" using en e(4) by simp
    have "unat (mbase e) \<le> 2 ^ 52" using e(1) by (simp add: entry_end_def)
    then have "unat ?st \<le> 2 ^ 63" using st div_le_dividend [of "unat (mbase e)" 4096] by simp
    moreover have "unat ?en \<le> 64 * length bm" "unat ?en \<le> 2 ^ 63"
      using le Cons.prems(3) assms(3) by simp_all
    ultimately obtain bm1 c1 where 1: "bitmap_set_range bm ?st ?en = Some (bm1, c1)"
        "swept True bm (unat ?st) (unat ?en) bm1 (unat c1)"
      using put_range_spec [of ?en bm ?st True] unfolding bitmap_set_range_def by blast
    have b1: "bits bm1 = bits bm \<union> entry_pages e" "length bm1 = length bm"
      using swept_True(1,2) [OF 1(2)] st en True by (simp_all add: entry_pages_def)
    have sub: "bits bm1 \<subseteq> {..<unat tot}" using Cons.prems(5) b1(1) le en True by (auto simp: entry_pages_def)
    have "card (bits bm1) = unat count + unat c1" using swept_True(3) [OF 1(2)] Cons.prems(4) by simp
    moreover have "card (bits bm1) \<le> 2 ^ 40"
      using card_mono [OF _ sub] assms(3) by simp
    ultimately have "unat (count + c1) = card (bits bm1)" by (simp add: unat_word_ariths)
    moreover have "mmap_ok es" "\<forall>e \<in> set es. entry_end e \<le> 4096 * unat tot" "unat tot \<le> 64 * length bm1"
      using Cons.prems b1(2) by (simp_all add: mmap_ok_def)
    ultimately obtain bm' c where "free_regions es tot bm1 (count + c1) = Some (bm', c)" "length bm' = length bm1"
       "bits bm' = bits bm1 \<union> usable_pages es" "unat c = card (bits bm')" "bits bm' \<subseteq> {..<unat tot}"
      using Cons.IH [of bm1 "count + c1"] sub by blast
    moreover have "free_regions (e # es) tot bm count = free_regions es tot bm1 (count + c1)"
      using True 1(1) clip by (simp add: Let_def)
    moreover have "usable_pages (e # es) = entry_pages e \<union> usable_pages es" by (simp add: usable_pages_def)
    ultimately show ?thesis using b1 by (simp add: Un_assoc)
  qed
qed (simp add: usable_pages_def)


lemma clear_range_spec:
  assumes "unat fin \<le> unat tot" and "unat tot \<le> 2 ^ 40" and "unat tot \<le> 64 * length bm" and "unat st \<le> 2 ^ 63"
    and "unat count = card (bits bm)"
  shows "\<exists>bm' c. bitmap_clear_range bm st fin = Some (bm', c) \<and> length bm' = length bm
     \<and> bits bm' = bits bm - {unat st..<unat fin} \<and> unat (count - c) = card (bits bm')"
proof -
  obtain bm' c where 1: "bitmap_clear_range bm st fin = Some (bm', c)" "swept False bm (unat st) (unat fin) bm' (unat c)"
    using put_range_spec [of fin bm st False] assms unfolding bitmap_clear_range_def by auto
  have "card (bits bm) = card (bits bm') + unat c" by (rule swept_False(3) [OF 1(2)])
  then have "unat (count - c) = card (bits bm')" using assms(5) by (simp add: unat_sub word_le_nat_alt)
  then show ?thesis using 1(1) swept_False(1,2) [OF 1(2)] by blast
qed

lemma bits_replicate_0 [simp]: "bits (replicate n 0) = {}"
  by (auto simp: bits_def page_in_range)

lemma page_after_range:
  assumes "unat a + unat b \<le> 2 ^ 60"
  shows "unat ((a + b + PAGE_SIZE - 1) div PAGE_SIZE :: u64) = (unat a + unat b + 4095) div 4096"
proof -
  have "a + b + PAGE_SIZE - 1 = a + b + 4095" by simp
  moreover have "unat (a + b + 4095) = unat a + unat b + 4095" using assms by (simp add: unat_word_ariths)
  ultimately show ?thesis by (simp only: unat_div) simp
qed

text \<open>Reserving the pages of a byte range keeps the count exact.\<close>

lemma reserve_range:
  assumes "unat a + unat b \<le> 4096 * unat tot" and "unat tot \<le> 2 ^ 40" and "unat tot \<le> 64 * length bm"
    and "unat count = card (bits bm)"
  shows "\<exists>bm' c. bitmap_clear_range bm (a div PAGE_SIZE) ((a + b + PAGE_SIZE - 1) div PAGE_SIZE) = Some (bm', c)
     \<and> length bm' = length bm \<and> bits bm' = bits bm - pages_of_range (unat a) (unat b)
     \<and> unat (count - c) = card (bits bm')"
proof -
  have e: "unat ((a + b + PAGE_SIZE - 1) div PAGE_SIZE) = (unat a + unat b + 4095) div 4096"
    using assms(1,2) by (intro page_after_range) simp
  have u: "unat (a div PAGE_SIZE) = unat a div 4096" by (simp add: unat_div)
  have "unat ((a + b + PAGE_SIZE - 1) div PAGE_SIZE) \<le> unat tot" unfolding e using assms(1) by linarith
  moreover have "unat (a div PAGE_SIZE) \<le> 2 ^ 63" unfolding u using unat_lt_u64 [of a] by simp
  ultimately show ?thesis
    using clear_range_spec [OF _ assms(2,3) _ assms(4)] unfolding pages_of_range_def e [symmetric] u [symmetric]
    by blast
qed

text \<open>
  C3: initialisation is correct.  For a memory map as the firmware delivers it, a kernel
  image inside the map, and a bitmap that finds room, \<open>pmm_init\<close> returns with the
  invariant established; the bitmap lies page-aligned in a usable region above the first
  megabyte and apart from the kernel; and the free pages are exactly the usable ones minus
  the first megabyte, the kernel image and the bitmap.
\<close>

theorem pmm_init_correct:
  assumes ok: "mmap_ok es" and kern: "unat kp + unat ks \<le> 4096 * unat (find_highest es)"
    and big: "256 \<le> unat (find_highest es)" and lk: "lock (pmm_lock s) = 0"
    and found: "find_bitmap kp ks ((find_highest es + 63) div 64 * 8) es \<noteq> NULL"
  shows "\<exists>s'. pmm_init es kp ks s = Some s' \<and> pmm_inv s' \<and> total_pages s' = find_highest es
    \<and> bitmap_place_ok es kp ks (bitmap_size s') (bitmap_ptr s')
    \<and> free_set s' = usable_pages es - {..<256} - pages_of_range (unat kp) (unat ks)
         - pages_of_range (unat (bitmap_ptr s')) (unat (bitmap_size s'))"
proof -
  define h sz where "h = find_highest es" and "sz = (find_highest es + 63) div 64 * 8"
  define p where "p = find_bitmap kp ks sz es"
  have hb: "unat h \<le> 2 ^ 40" "\<forall>e \<in> set es. entry_end e \<le> 4096 * unat h"
    using find_highest_ge [OF ok] by (auto simp: h_def)
  have words: "unat (sz div 8) = (unat h + 63) div 64"
  proof -
    have "unat ((h + 63) div 64) = (unat h + 63) div 64"
      using hb(1) by (simp add: unat_div unat_word_ariths)
    then have "unat sz = (unat h + 63) div 64 * 8"
      using hb(1) by (simp add: sz_def h_def [symmetric] unat_word_ariths)
    then show ?thesis by (simp add: unat_div)
  qed
  have kern': "unat kp + unat ks \<le> 4096 * unat h" using kern by (simp add: h_def)
  then have "unat kp + unat ks \<le> 2 ^ 52" using hb(1) by simp
  then have place: "bitmap_place_ok es kp ks sz p"
    using find_bitmap_spec [OF _ ok] found by (simp add: p_def sz_def)
  then have pe: "unat p + unat sz \<le> 4096 * unat h" using hb(2) by (force simp: bitmap_place_ok_def)
  define bm0 :: "u64 list" where "bm0 = replicate (unat (sz div 8)) 0"
  have l0: "unat h \<le> 64 * length bm0" unfolding bm0_def length_replicate words by linarith
  have "unat (0 :: u64) = card (bits bm0)" "bits bm0 \<subseteq> {..<unat h}" by (simp_all add: bm0_def)
  from free_regions_spec [OF ok hb(2,1) l0 this] obtain bm1 c1 where
    1: "free_regions es h bm0 0 = Some (bm1, c1)" "length bm1 = length bm0" "bits bm1 = usable_pages es"
       "unat c1 = card (bits bm1)" "bits bm1 \<subseteq> {..<unat h}" by (auto simp: bm0_def)
  have "unat (256 :: u64) \<le> unat h" using big by (simp add: h_def)
  from clear_range_spec [OF this hb(1), of bm1 0 c1] 1 l0 obtain bm2 c2 where
    2: "bitmap_clear_range bm1 0 256 = Some (bm2, c2)" "length bm2 = length bm0" "bits bm2 = usable_pages es - {..<256}"
       "unat (c1 - c2) = card (bits bm2)" by (auto simp: atLeast0LessThan)
  obtain bm3 c3 where 3: "bitmap_clear_range bm2 (kp div PAGE_SIZE) ((kp + ks + PAGE_SIZE - 1) div PAGE_SIZE) = Some (bm3, c3)"
       "length bm3 = length bm0" "bits bm3 = usable_pages es - {..<256} - pages_of_range (unat kp) (unat ks)"
       "unat (c1 - c2 - c3) = card (bits bm3)"
    using reserve_range [OF kern' hb(1) _ 2(4)] 2(2,3) l0 by auto
  obtain bm4 c4 where 4: "bitmap_clear_range bm3 (p div PAGE_SIZE) ((p + sz + PAGE_SIZE - 1) div PAGE_SIZE) = Some (bm4, c4)"
       "length bm4 = length bm0"
       "bits bm4 = usable_pages es - {..<256} - pages_of_range (unat kp) (unat ks) - pages_of_range (unat p) (unat sz)"
       "unat (c1 - c2 - c3 - c4) = card (bits bm4)"
    using reserve_range [OF pe hb(1) _ 3(4)] 3(2,3) l0 by auto
  let ?s = "s\<lparr>highest_page := h, total_pages := h, bitmap_size := sz, bitmap_ptr := p, bitmap := bm4,
      free_count := c1 - c2 - c3 - c4\<rparr>"
  have "(0x100000 div PAGE_SIZE :: u64) = 256" by simp
  moreover have "p \<noteq> NULL" using found by (simp add: p_def sz_def)
  ultimately have run: "pmm_init es kp ks s = Some ?s"
    using 1(1) 2(1) 3(1) 4(1)
    unfolding pmm_init_def Let_def h_def [symmetric] sz_def [folded h_def, symmetric] p_def [symmetric] bm0_def [symmetric]
    by (simp only: bind.bind_lunit case_prod_conv if_False)
  have "0 \<notin> bits bm4" unfolding 4(3) by simp
  moreover have "bits bm4 \<subseteq> {..<unat h}" using 1(3,5) unfolding 4(3) by blast
  ultimately have sub: "bits bm4 \<subseteq> {0<..<unat h}" by (metis greaterThanLessThan_iff gr0I lessThan_iff subset_iff)
  have "length bm4 = (unat h + 63) div 64" using 4(2) words by (simp add: bm0_def)
  then have "pmm_inv ?s" using sub 4(4) hb(1) lk by (simp add: pmm_inv_def)
  then show ?thesis using run place 4(3) by (auto simp: free_set_def h_def)
qed

definition sample_map :: "MmapEntry list" where
  "sample_map = [\<lparr>mbase = 0, length_bytes = 0x200000, mtype = MMAP_USABLE\<rparr>,
     \<lparr>mbase = 0x200000, length_bytes = 0x1000, mtype = MMAP_RESERVED\<rparr>]"

definition sample_pmm :: pmm where
  "sample_pmm = \<lparr>rflags = 0x202, pmm_lock = SPINLOCK_INIT, bitmap = [6], bitmap_ptr = 0x1000, bitmap_size = 8,
     total_pages = 64, free_count = 2, highest_page = 64\<rparr>"

theorem pmm_init_correct_witness:
  "\<exists>s'. pmm_init sample_map 0x100000 0x1000 sample_pmm = Some s' \<and> pmm_inv s' \<and> total_pages s' = 513
    \<and> bitmap_place_ok sample_map 0x100000 0x1000 (bitmap_size s') (bitmap_ptr s')
    \<and> free_set s' = usable_pages sample_map - {..<256} - pages_of_range 0x100000 0x1000
         - pages_of_range (unat (bitmap_ptr s')) (unat (bitmap_size s'))"
proof -
  have h: "find_highest sample_map = 513" by (simp add: find_highest_def sample_map_def)
  have "mmap_ok sample_map" by (simp add: mmap_ok_def sample_map_def entry_end_def)
  moreover have "lock (pmm_lock sample_pmm) = 0" by (simp add: sample_pmm_def SPINLOCK_INIT_def)
  moreover have "find_bitmap 0x100000 0x1000 ((find_highest sample_map + 63) div 64 * 8) sample_map \<noteq> NULL"
    by (simp add: h) (simp add: sample_map_def place_bitmap_def skip_low_def skip_kernel_def page_align_def)
  ultimately show ?thesis
    using pmm_init_correct [of sample_map "0x100000" "0x1000" sample_pmm] h by simp
qed

section \<open>Allocation and release: the properties\<close>

lemma bits_singleton: "bits [w] = {n. bit w n}"
proof (rule set_eqI)
  fix n show "n \<in> bits [w] \<longleftrightarrow> n \<in> {n. bit w n}"
    using bit_imp_le_length [of w n] by (cases "n < 64") (auto simp: bits_def)
qed

lemma bit_6: "bit (6 :: u64) n \<longleftrightarrow> n = 1 \<or> n = 2"
proof -
  have "(6 :: u64) = 2 ^ 1 OR 2 ^ 2" by simp
  then show ?thesis by (simp only: bit_or_iff bit_single) auto
qed

lemma sample_pmm_bits: "bits (bitmap sample_pmm) = {1, 2}"
proof -
  have "bitmap sample_pmm = [6]" by (simp add: sample_pmm_def)
  then show ?thesis by (simp only: bits_singleton bit_6) auto
qed

lemma sample_pmm_inv: "pmm_inv sample_pmm"
  unfolding pmm_inv_def sample_pmm_bits by (simp add: sample_pmm_def SPINLOCK_INIT_def)

text \<open>
  C4: allocation is correct and total.  From a state that satisfies the invariant
  \<open>pmm_alloc_page\<close> returns; it returns \<open>NULL\<close>, with nothing changed, only if no page
  below 4 GiB is free; otherwise it returns the page-aligned address of the lowest free
  page, takes exactly that page out of the free set and decrements the free count.  On
  either path the lock is free again and the processor flags are what they were.
\<close>

theorem pmm_alloc_page_correct:
  assumes "pmm_inv s"
  shows "\<exists>p s'. pmm_alloc_page s = Some (p, s') \<and> pmm_inv s' \<and> rflags s' = rflags s
    \<and> (if allocatable s = {} then p = NULL \<and> free_set s' = free_set s
       else aligned 4096 p \<and> page_of p = Min (allocatable s) \<and> free_set s' = free_set s - {page_of p}
         \<and> unat (pmm_free_pages s') + 1 = unat (pmm_free_pages s))"
proof (rule pmm_alloc_page_cases [OF assms])
  assume "pmm_alloc_page s = Some (NULL, unlocked s)" "allocatable s = {}" "pmm_inv (unlocked s)"
    "free_set (unlocked s) = free_set s"
  then show ?thesis by (auto simp: unlocked_def)
next
  fix p s'
  assume a: "page_of p \<in> allocatable s" "\<forall>n \<in> allocatable s. page_of p \<le> n"
  moreover have "finite (allocatable s)" by (simp add: allocatable_def)
  ultimately have "Min (allocatable s) = page_of p" by (intro Min_eqI) auto
  moreover assume "pmm_alloc_page s = Some (p, s')" "pmm_inv s'" "aligned 4096 p"
    "free_set s' = free_set s - {page_of p}" "unat (free_count s') + 1 = unat (free_count s)" "rflags s' = rflags s"
  ultimately show ?thesis using a by (auto simp: pmm_free_pages_def)
qed

theorem pmm_alloc_page_correct_witness:
  "\<exists>p s'. pmm_alloc_page sample_pmm = Some (p, s') \<and> pmm_inv s' \<and> page_of p = 1 \<and> free_set s' = {2}"
proof -
  have "allocatable sample_pmm = {1, 2}" by (auto simp: allocatable_def sample_pmm_bits)
  moreover have "free_set sample_pmm = {1, 2}" by (simp add: free_set_def sample_pmm_bits)
  ultimately show ?thesis using pmm_alloc_page_correct [OF sample_pmm_inv] by auto
qed

text \<open>
  C5: no page is handed out twice.  Of any number of consecutive allocations the addresses
  that are not \<open>NULL\<close> name distinct pages, and they are exactly the pages that left the
  free set.
\<close>

theorem pmm_allocations_distinct:
  assumes "pmm_inv s"
  shows "\<exists>ps s'. alloc_seq pmm_alloc_page n s = Some (ps, s') \<and> pmm_inv s' \<and> length ps = n
     \<and> distinct (map page_of (filter (\<lambda>p. p \<noteq> NULL) ps))
     \<and> page_of ` (set ps - {NULL}) = free_set s - free_set s' \<and> free_set s' \<subseteq> free_set s"
  by (rule pmm.alloc_seq_distinct [OF assms])

theorem pmm_allocations_distinct_witness:
  "\<exists>ps s'. alloc_seq pmm_alloc_page 3 sample_pmm = Some (ps, s') \<and> length ps = 3
     \<and> distinct (map page_of (filter (\<lambda>p. p \<noteq> NULL) ps))"
  using pmm_allocations_distinct [OF sample_pmm_inv, of 3] by blast

text \<open>
  freeing undoes allocating.  Giving back the page just allocated restores the set of
  free pages and the free count.
\<close>

theorem pmm_alloc_free_roundtrip:
  assumes "pmm_inv s" and "pmm_alloc_page s = Some (p, s')" and "p \<noteq> NULL"
  shows "\<exists>s''. pmm_free_page p s' = Some s'' \<and> pmm_inv s'' \<and> free_set s'' = free_set s
     \<and> pmm_free_pages s'' = pmm_free_pages s"
proof -
  obtain s'' where 1: "pmm_free_page p s' = Some s''" "pmm_inv s''" "free_set s'' = free_set s"
    using pmm.alloc_release [OF assms] by blast
  then have "unat (free_count s'') = unat (free_count s)"
    using assms(1) by (simp add: pmm_inv_def free_set_def)
  then show ?thesis using 1 by (simp add: pmm_free_pages_def word_unat_eq_iff)
qed

theorem pmm_alloc_free_roundtrip_witness:
  "\<exists>p s' s''. pmm_alloc_page sample_pmm = Some (p, s') \<and> pmm_free_page p s' = Some s'' \<and> free_set s'' = {1, 2}
     \<and> pmm_free_pages s'' = 2"
proof (rule pmm_alloc_page_cases [OF sample_pmm_inv])
  assume "allocatable sample_pmm = {}"
  then show ?thesis by (simp add: allocatable_def sample_pmm_bits)
next
  fix p s' assume a: "pmm_alloc_page sample_pmm = Some (p, s')" and "p \<noteq> NULL"
  then show ?thesis
    using pmm_alloc_free_roundtrip [OF sample_pmm_inv a]
    by (auto simp: free_set_def sample_pmm_bits pmm_free_pages_def) (simp add: sample_pmm_def)
qed

text \<open>
  C7: the bulk range operations are set union and difference.  For a range inside the
  bitmap they return, change exactly the pages of the range, and report exactly how many
  pages changed.
\<close>

theorem bitmap_ranges_correct:
  assumes "unat fin \<le> 64 * length bm" and "unat fin \<le> 2 ^ 63" and "unat st \<le> 2 ^ 63"
  shows "\<exists>bs cs bc cc. bitmap_set_range bm st fin = Some (bs, cs) \<and> bitmap_clear_range bm st fin = Some (bc, cc)
    \<and> bits bs = bits bm \<union> {unat st..<unat fin} \<and> unat cs = card ({unat st..<unat fin} - bits bm)
    \<and> bits bc = bits bm - {unat st..<unat fin} \<and> unat cc = card ({unat st..<unat fin} \<inter> bits bm)"
proof -
  obtain bs cs where s: "put_range True bm st fin = Some (bs, cs)" "swept True bm (unat st) (unat fin) bs (unat cs)"
    using put_range_spec [OF assms] by blast
  obtain bc cc where c: "put_range False bm st fin = Some (bc, cc)" "swept False bm (unat st) (unat fin) bc (unat cc)"
    using put_range_spec [OF assms] by blast
  have "unat cs = card ({unat st..<unat fin} - bits bm)" "unat cc = card ({unat st..<unat fin} \<inter> bits bm)"
    using s(2) c(2) by (simp_all add: swept_def changing_True changing_False)
  with s(1) c(1) swept_True(2) [OF s(2)] swept_False(2) [OF c(2)] show ?thesis
    unfolding bitmap_set_range_def bitmap_clear_range_def by blast
qed

theorem bitmap_ranges_correct_witness:
  "\<exists>bs cs bc cc. bitmap_set_range [0, 0, 5] 3 190 = Some (bs, cs) \<and> bitmap_clear_range [0, 0, 5] 3 190 = Some (bc, cc)
    \<and> bits bs = bits [0, 0, 5] \<union> {3..<190} \<and> bits bc = bits [0, 0, 5] - {3..<190}"
proof -
  have u: "unat (190 :: u64) = 190" "unat (3 :: u64) = 3" by simp_all
  have "unat (190 :: u64) \<le> 64 * length [0, 0, 5 :: u64]" "unat (190 :: u64) \<le> 2 ^ 63" "unat (3 :: u64) \<le> 2 ^ 63"
    by simp_all
  from bitmap_ranges_correct [OF this] show ?thesis unfolding u by blast
qed

end
