(* ===== verification/CString.thy ===== *)
theory CString
  imports Prelude
begin

text \<open>
  The freestanding memory and string routines of \<open>kernel/string.c\<close>, on the flat byte
  memory.  Each routine is the loop of the source: the counted ones recurse on the number
  of iterations left, the ones that run until a terminator are partial functions, since a
  memory without a zero byte makes them run for ever.  The routines that return their
  destination pointer return only the memory here, because no caller looks at the pointer.

  The lemmas give each routine its contract: \<open>memset\<close>, \<open>memcpy\<close> and \<open>memmove\<close> in
  closed form, the string routines against the predicate \<open>cstr\<close> ("this pointer is a
  terminated string with these bytes").
\<close>

section \<open>The routines\<close>

primrec memset_loop :: "mem \<Rightarrow> ptr \<Rightarrow> u8 \<Rightarrow> nat \<Rightarrow> mem" where
  "memset_loop m p c 0 = m"
| "memset_loop m p c (Suc n) = memset_loop (m(p := c)) (p + 1) c n"

definition memset :: "mem \<Rightarrow> ptr \<Rightarrow> u32 \<Rightarrow> u64 \<Rightarrow> mem" where
  "memset m dst c n = memset_loop m dst (ucast c) (unat n)"

primrec memcpy_loop :: "mem \<Rightarrow> ptr \<Rightarrow> ptr \<Rightarrow> nat \<Rightarrow> mem" where
  "memcpy_loop m d s 0 = m"
| "memcpy_loop m d s (Suc n) = memcpy_loop (m(d := m s)) (d + 1) (s + 1) n"

definition memcpy :: "mem \<Rightarrow> ptr \<Rightarrow> ptr \<Rightarrow> u64 \<Rightarrow> mem" where
  "memcpy m dst src n = memcpy_loop m dst src (unat n)"

text \<open>The loop \<open>while (n--) *--d = *--s\<close>, with \<open>d\<close> and \<open>s\<close> past the end.\<close>

primrec memmove_back :: "mem \<Rightarrow> ptr \<Rightarrow> ptr \<Rightarrow> nat \<Rightarrow> mem" where
  "memmove_back m d s 0 = m"
| "memmove_back m d s (Suc n) = memmove_back (m(d - 1 := m (s - 1))) (d - 1) (s - 1) n"

definition memmove :: "mem \<Rightarrow> ptr \<Rightarrow> ptr \<Rightarrow> u64 \<Rightarrow> mem" where
  "memmove m dst src n =
     (if dst < src then memcpy_loop m dst src (unat n)
      else memmove_back m (dst + n) (src + n) (unat n))"

primrec memcmp_loop :: "mem \<Rightarrow> ptr \<Rightarrow> ptr \<Rightarrow> nat \<Rightarrow> int" where
  "memcmp_loop m pa pb 0 = 0"
| "memcmp_loop m pa pb (Suc n) =
     (if m pa \<noteq> m pb then uint (m pa) - uint (m pb) else memcmp_loop m (pa + 1) (pb + 1) n)"

definition memcmp :: "mem \<Rightarrow> ptr \<Rightarrow> ptr \<Rightarrow> u64 \<Rightarrow> int" where
  "memcmp m a b n = memcmp_loop m a b (unat n)"

partial_function (option) strlen_loop :: "mem \<Rightarrow> ptr \<Rightarrow> u64 \<Rightarrow> u64 option" where
  "strlen_loop m s len = (if m s \<noteq> 0 then strlen_loop m (s + 1) (len + 1) else Some len)"

definition strlen :: "mem \<Rightarrow> ptr \<Rightarrow> u64 option" where
  "strlen m s = strlen_loop m s 0"

partial_function (option) strcmp :: "mem \<Rightarrow> ptr \<Rightarrow> ptr \<Rightarrow> int option" where
  "strcmp m a b =
     (if m a \<noteq> 0 \<and> m a = m b then strcmp m (a + 1) (b + 1)
      else Some (uint (m a) - uint (m b)))"

primrec strncmp_loop :: "mem \<Rightarrow> ptr \<Rightarrow> ptr \<Rightarrow> nat \<Rightarrow> int" where
  "strncmp_loop m a b 0 = 0"
| "strncmp_loop m a b (Suc n) =
     (if m a \<noteq> 0 \<and> m a = m b then strncmp_loop m (a + 1) (b + 1) n
      else uint (m a) - uint (m b))"

definition strncmp :: "mem \<Rightarrow> ptr \<Rightarrow> ptr \<Rightarrow> u64 \<Rightarrow> int" where
  "strncmp m a b n = strncmp_loop m a b (unat n)"

partial_function (option) strcpy :: "mem \<Rightarrow> ptr \<Rightarrow> ptr \<Rightarrow> mem option" where
  "strcpy m d s =
     (let m' = m(d := m s) in if m s \<noteq> 0 then strcpy m' (d + 1) (s + 1) else Some m')"

text \<open>
  \<open>strncpy\<close>: the first loop leaves \<open>n\<close> as it is when it stores the terminator, the second
  one then writes \<open>n\<close> further zero bytes.
\<close>

primrec strncpy_copy :: "mem \<Rightarrow> ptr \<Rightarrow> ptr \<Rightarrow> nat \<Rightarrow> mem \<times> ptr \<times> nat" where
  "strncpy_copy m d s 0 = (m, d, 0)"
| "strncpy_copy m d s (Suc n) =
     (let m' = m(d := m s)
      in if m s \<noteq> 0 then strncpy_copy m' (d + 1) (s + 1) n else (m', d + 1, Suc n))"

definition strncpy :: "mem \<Rightarrow> ptr \<Rightarrow> ptr \<Rightarrow> u64 \<Rightarrow> mem" where
  "strncpy m dst src n =
     (let (m', d, k) = strncpy_copy m dst src (unat n) in memset_loop m' d 0 k)"

partial_function (option) str_end :: "mem \<Rightarrow> ptr \<Rightarrow> ptr option" where
  "str_end m d = (if m d \<noteq> 0 then str_end m (d + 1) else Some d)"

definition strcat :: "mem \<Rightarrow> ptr \<Rightarrow> ptr \<Rightarrow> mem option" where
  "strcat m dst src = do { d \<leftarrow> str_end m dst; strcpy m d src }"

partial_function (option) strchr :: "mem \<Rightarrow> ptr \<Rightarrow> u8 \<Rightarrow> ptr option" where
  "strchr m s c =
     (if m s \<noteq> 0 then (if m s = c then Some s else strchr m (s + 1) c)
      else Some (if c = 0 then s else NULL))"

partial_function (option) strrchr_loop :: "mem \<Rightarrow> ptr \<Rightarrow> u8 \<Rightarrow> ptr \<Rightarrow> ptr option" where
  "strrchr_loop m s c lst =
     (if m s \<noteq> 0 then strrchr_loop m (s + 1) c (if m s = c then s else lst)
      else Some (if c = 0 then s else lst))"

definition strrchr :: "mem \<Rightarrow> ptr \<Rightarrow> u8 \<Rightarrow> ptr option" where
  "strrchr m s c = strrchr_loop m s c NULL"

section \<open>Terminated strings\<close>

text \<open>\<open>cstr m p cs\<close>: the bytes \<open>cs\<close>, none of them zero, stand at \<open>p\<close>, then a zero byte.\<close>

primrec cstr :: "mem \<Rightarrow> ptr \<Rightarrow> u8 list \<Rightarrow> bool" where
  "cstr m p [] \<longleftrightarrow> m p = 0"
| "cstr m p (c # cs) \<longleftrightarrow> m p = c \<and> c \<noteq> 0 \<and> cstr m (p + 1) cs"

section \<open>Counted loops in closed form\<close>

lemma memset_loop_apply:
  "memset_loop m p c n x = (if within p n x then c else m x)"
proof (induction n arbitrary: m p)
  case 0 then show ?case by simp
next
  case (Suc n) then show ?case by (simp add: within_Suc)
qed

lemma no_clash_shift:
  fixes d s :: ptr
  shows "unat (d + 1 - (s + 1)) = unat (d - s)"
  by simp

text \<open>A forward copy is right unless the destination starts strictly inside the source.\<close>

lemma memcpy_loop_apply:
  assumes "\<not> (0 < unat (d - s) \<and> unat (d - s) < n)" and "n < 2 ^ 64"
  shows "memcpy_loop m d s n x = (if within d n x then m (s + (x - d)) else m x)"
  using assms
proof (induction n arbitrary: m d s)
  case 0 then show ?case by simp
next
  case (Suc n)
  have ih: "memcpy_loop (m(d := m s)) (d + 1) (s + 1) n x =
      (if within (d + 1) n x then (m(d := m s)) (s + 1 + (x - (d + 1))) else (m(d := m s)) x)"
    using Suc.prems by (intro Suc.IH) (auto simp: no_clash_shift)
  have eq: "s + 1 + (x - (d + 1)) = s + (x - d)" by simp
  have clash: "s + (x - d) \<noteq> d" if "within (d + 1) n x" "x \<noteq> d" "d \<noteq> s"
  proof
    assume e: "s + (x - d) = d"
    then have "x - d = d - s" by (metis add_diff_cancel_left')
    moreover have "unat (x - d) < Suc n"
      using that within_Suc [of d n x] by (simp add: within_def)
    ultimately have "unat (d - s) < Suc n" by simp
    moreover have "0 < unat (d - s)" using that by (simp add: unat_gt_0)
    ultimately show False using Suc.prems by blast
  qed
  show ?case
  proof (cases "d = s")
    case True
    then show ?thesis using ih by (auto simp: within_Suc)
  next
    case False
    then show ?thesis using ih clash by (auto simp: within_Suc eq)
  qed
qed

lemma memmove_back_apply:
  assumes "\<not> (0 < unat (s - d) \<and> unat (s - d) < n)" and "n < 2 ^ 64"
  shows "memmove_back m (d + of_nat n) (s + of_nat n) n x = (if within d n x then m (s + (x - d)) else m x)"
  using assms
proof (induction n arbitrary: m)
  case 0 then show ?case by simp
next
  case (Suc n)
  let ?m = "m(d + of_nat n := m (s + of_nat n))"
  have ih: "memmove_back ?m (d + of_nat n) (s + of_nat n) n x =
      (if within d n x then ?m (s + (x - d)) else ?m x)"
    using Suc.prems by (intro Suc.IH) auto
  have n: "n < 2 ^ 64" using Suc.prems by simp
  have clash: "s + (x - d) \<noteq> d + of_nat n" if w: "within d n x" and ne: "d \<noteq> s"
  proof
    assume e: "s + (x - d) = d + of_nat n"
    obtain i where i: "i < n" "x = d + of_nat i" using within_ex [OF w] by blast
    have "s - d = of_nat n - of_nat i" using e i by (simp add: algebra_simps)
    then have "s - d = of_nat (n - i)" using i by (simp add: of_nat_diff)
    then have "unat (s - d) = n - i" using n by (simp add: unat_of_nat_u64)
    then show False using Suc.prems i ne by auto
  qed
  show ?case
    using ih clash n by (auto simp: within_last algebra_simps)
qed

lemma cstr_upd: "\<not> within p (Suc (length cs)) x \<Longrightarrow> cstr (m(x := v)) p cs = cstr m p cs"
proof (induction cs arbitrary: p)
  case Nil then show ?case by (simp add: within_def unat_eq_0)
next
  case (Cons c cs)
  then have "x \<noteq> p" "\<not> within (p + 1) (Suc (length cs)) x"
    by (auto simp: within_Suc [of p "Suc (length cs)"])
  with Cons.IH show ?case by simp
qed

lemma strlen_loop_cstr: "cstr m p cs \<Longrightarrow> strlen_loop m p k = Some (k + of_nat (length cs))"
  by (induction cs arbitrary: p k) (simp_all add: strlen_loop.simps [of m] algebra_simps)

lemma uint_u8_eq_0 [simp]: "uint (x :: u8) = 0 \<longleftrightarrow> x = 0"
  by (rule uint_0_iff)

lemma uint_u8_pos [simp]: "0 < uint (x :: u8) \<longleftrightarrow> x \<noteq> 0"
  using uint_u8_eq_0 [of x] uint_ge_0 [of x] by linarith

lemma uint_u8_inj [simp]: "uint (x :: u8) = uint y \<longleftrightarrow> x = y"
  by (rule word_uint_eq_iff [symmetric])

lemma strcmp_cstr:
  "cstr m a as \<Longrightarrow> cstr m b bs \<Longrightarrow>
   \<exists>r. strcmp m a b = Some r \<and> (r = 0 \<longleftrightarrow> as = bs) \<and> (r < 0 \<longleftrightarrow> ord_class.lexordp as bs)"
proof (induction as arbitrary: a b bs)
  case Nil
  then show ?case
    by (cases bs) (auto simp: strcmp.simps [of m a b])
next
  case (Cons c as)
  show ?case
  proof (cases bs)
    case Nil
    with Cons.prems show ?thesis
      by (auto simp: strcmp.simps [of m a b] not_less)
  next
    case (Cons d bs')
    with Cons.prems Cons.IH [of "a + 1" "b + 1" bs'] show ?thesis
      by (auto simp: strcmp.simps [of m a b] word_less_def)
        (metis linorder_less_linear uint_u8_inj)
  qed
qed

lemma strncmp_loop_cstr:
  "cstr m a as \<Longrightarrow> cstr m b bs \<Longrightarrow> strncmp_loop m a b n = 0 \<longleftrightarrow> take n as = take n bs"
proof (induction n arbitrary: a b as bs)
  case 0 then show ?case by simp
next
  case (Suc n)
  then show ?case
    by (cases as; cases bs) auto
qed

lemma strcpy_cstr:
  assumes "cstr m s cs" and "\<And>x. within d (Suc (length cs)) x \<Longrightarrow> \<not> within s (Suc (length cs)) x"
    and "length cs < 2 ^ 64 - 1"
  shows "strcpy m d s = Some (\<lambda>x. if within d (Suc (length cs)) x then m (s + (x - d)) else m x)"
  using assms
proof (induction cs arbitrary: m d s)
  case Nil
  then show ?case
    by (auto simp: strcpy.simps [of m d s] Let_def fun_eq_iff within_def unat_eq_0)
next
  case (Cons c cs)
  let ?n = "Suc (length cs)"
  let ?m = "m(d := m s)"
  have d: "\<not> within s (Suc ?n) d"
    using Cons.prems(2) [of d] by simp
  have ns: "\<not> within (s + 1) ?n d" "d \<noteq> s"
    using d by (auto simp: within_Suc [of s ?n])
  have "strcpy ?m (d + 1) (s + 1) = Some (\<lambda>x. if within (d + 1) ?n x then ?m (s + 1 + (x - (d + 1))) else ?m x)"
  proof (rule Cons.IH)
    show "cstr ?m (s + 1) cs" using Cons.prems(1) ns by (simp add: cstr_upd)
    show "\<not> within (s + 1) ?n x" if "within (d + 1) ?n x" for x
    proof (cases "x = d")
      case True with ns show ?thesis by simp
    next
      case False
      then have "within d (Suc ?n) x" using that by (simp add: within_Suc [of d ?n])
      then have "\<not> within s (Suc ?n) x" using Cons.prems(2) by simp
      then show ?thesis by (auto simp: within_Suc [of s ?n])
    qed
    show "length cs < 2 ^ 64 - 1" using Cons.prems(3) by simp
  qed
  moreover have "s + (x - d) \<noteq> d" if "within (d + 1) ?n x" "x \<noteq> d" for x
  proof
    assume "s + (x - d) = d"
    then have e: "d - s = x - d" by (metis add_diff_cancel_left')
    have "unat (x - d) < Suc ?n" using that within_Suc [of d ?n x] by (simp add: within_def)
    then have "within s (Suc ?n) d" unfolding within_def e .
    with d show False by simp
  qed
  ultimately show ?case
    using Cons.prems(1)
    by (auto simp: strcpy.simps [of m d s] Let_def fun_eq_iff within_Suc [of d ?n])
qed

text \<open>What \<open>strncpy\<close> writes: the string, then zero bytes, one more of them than \<open>n\<close> allows.\<close>

lemma strncpy_copy_cstr:
  assumes "cstr m s cs" and "length cs < n"
    and "\<And>x. within d (Suc (length cs)) x \<Longrightarrow> \<not> within s (Suc (length cs)) x"
    and "n < 2 ^ 64"
  shows "strncpy_copy m d s n =
    (the (strcpy m d s), d + of_nat (Suc (length cs)), n - length cs)"
  using assms
proof (induction cs arbitrary: m d s n)
  case Nil
  then obtain k where "n = Suc k" by (cases n) auto
  with Nil show ?case
    by (simp add: strcpy.simps [of m d s] Let_def fun_upd_def)
next
  case (Cons c cs)
  let ?n = "Suc (length cs)"
  let ?m = "m(d := m s)"
  obtain k where k: "n = Suc k" using Cons.prems by (cases n) auto
  have d: "\<not> within s (Suc ?n) d"
    using Cons.prems(3) [of d] by simp
  have ns: "\<not> within (s + 1) ?n d" "d \<noteq> s"
    using d by (auto simp: within_Suc [of s ?n])
  have "strncpy_copy ?m (d + 1) (s + 1) k =
     (the (strcpy ?m (d + 1) (s + 1)), d + 1 + of_nat (Suc (length cs)), k - length cs)"
  proof (rule Cons.IH)
    show "cstr ?m (s + 1) cs" using Cons.prems(1) ns by (simp add: cstr_upd)
    show "\<not> within (s + 1) ?n x" if "within (d + 1) ?n x" for x
    proof (cases "x = d")
      case True with ns show ?thesis by simp
    next
      case False
      then have "within d (Suc ?n) x" using that by (simp add: within_Suc [of d ?n])
      then have "\<not> within s (Suc ?n) x" using Cons.prems(3) by simp
      then show ?thesis by (auto simp: within_Suc [of s ?n])
    qed
  qed (use Cons.prems k in auto)
  then show ?case
    using Cons.prems(1) k by (simp add: strcpy.simps [of m d s] Let_def algebra_simps)
qed

lemma str_end_cstr: "cstr m p cs \<Longrightarrow> str_end m p = Some (p + of_nat (length cs))"
  by (induction cs arbitrary: p) (simp_all add: str_end.simps [of m] algebra_simps)

lemma strchr_cstr:
  "cstr m p cs \<Longrightarrow> c \<noteq> 0 \<Longrightarrow>
   strchr m p c = Some (if c \<in> set cs then p + of_nat (length (takeWhile (\<lambda>x. x \<noteq> c) cs)) else NULL)"
  by (induction cs arbitrary: p) (auto simp: strchr.simps [of m] algebra_simps)

lemma cstr_end: "cstr m p cs \<Longrightarrow> m (p + of_nat (length cs)) = 0"
proof (induction cs arbitrary: p)
  case (Cons c cs)
  then show ?case using Cons.IH [of "p + 1"] by (simp add: add.assoc)
qed simp

lemma memcmp_loop_eq_0: "n < 2 ^ 64 \<Longrightarrow> memcmp_loop m a b n = 0 \<longleftrightarrow> (\<forall>i < n. m (a + of_nat i) = m (b + of_nat i))"
proof (induction n arbitrary: a b)
  case (Suc n)
  then have ih: "memcmp_loop m (a + 1) (b + 1) n = 0 \<longleftrightarrow> (\<forall>i < n. m (a + 1 + of_nat i) = m (b + 1 + of_nat i))"
    by simp
  show ?case
    by (simp add: ih All_less_Suc2 add.assoc)
qed simp

lemma strrchr_loop_cstr:
  "cstr m p cs \<Longrightarrow> c \<noteq> 0 \<Longrightarrow> c \<notin> set cs \<Longrightarrow> strrchr_loop m p c lst = Some lst"
proof (induction cs arbitrary: p)
  case Nil
  then show ?case by (simp add: strrchr_loop.simps [of m p])
next
  case (Cons x cs)
  then show ?case by (auto simp: strrchr_loop.simps [of m p])
qed

lemma strrchr_loop_last:
  "cstr m p (xs @ c # ys) \<Longrightarrow> c \<notin> set ys \<Longrightarrow> strrchr_loop m p c lst = Some (p + of_nat (length xs))"
proof (induction xs arbitrary: p lst)
  case Nil
  then show ?case by (auto simp: strrchr_loop.simps [of m p] strrchr_loop_cstr)
next
  case (Cons x xs)
  then show ?case by (simp add: strrchr_loop.simps [of m p] add.assoc)
qed

section \<open>The contracts\<close>

lemma not_wrapping_gap:
  fixes a b :: ptr
  assumes "a \<le> b" and "unat b + n \<le> 2 ^ 64"
  shows "\<not> (0 < unat (a - b) \<and> unat (a - b) < n)"
  using assms by (auto simp: unat_sub_if' word_le_nat_alt)

text \<open>
  \<open>memmove\<close> stores the source range, as it was before the call, in the destination
  range and changes no other byte, also when the two ranges overlap.  The ranges may not
  wrap around the end of the address space.
\<close>

theorem memmove_correct:
  assumes "unat dst + unat n \<le> 2 ^ 64" and "unat src + unat n \<le> 2 ^ 64"
  shows "memmove m dst src n x = (if within dst (unat n) x then m (src + (x - dst)) else m x)"
proof (cases "dst < src")
  case True
  then have "\<not> (0 < unat (dst - src) \<and> unat (dst - src) < unat n)"
    using assms by (intro not_wrapping_gap) auto
  with True show ?thesis
    by (simp add: memmove_def memcpy_loop_apply unat_lt_u64 [simplified])
next
  case False
  then have "\<not> (0 < unat (src - dst) \<and> unat (src - dst) < unat n)"
    using assms by (intro not_wrapping_gap) auto
  from memmove_back_apply [OF this unat_lt_u64] False show ?thesis
    by (simp add: memmove_def)
qed

theorem memmove_correct_witness:
  "memmove (\<lambda>a. ucast a) 11 10 4 14 = 13 \<and> memmove (\<lambda>a. ucast a) 10 11 4 10 = 11"
  using memmove_correct [of 11 4 10 "\<lambda>a. ucast a" 14] memmove_correct [of 10 4 11 "\<lambda>a. ucast a" 10]
  by (simp add: within_def)

text \<open>
  On terminated strings \<open>strcmp\<close> returns; its result is zero exactly when the strings
  are equal and negative exactly when the first comes first in the dictionary order of
  unsigned bytes.
\<close>

theorem strcmp_correct:
  assumes "cstr m a as" and "cstr m b bs"
  shows "\<exists>r. strcmp m a b = Some r \<and> (r = 0 \<longleftrightarrow> as = bs) \<and> (r < 0 \<longleftrightarrow> ord_class.lexordp as bs)"
  using assms by (rule strcmp_cstr)

theorem strcmp_correct_witness:
  "\<exists>r. strcmp ((\<lambda>_. 0)(100 := 97, 200 := 98)) 100 200 = Some r \<and> r < 0"
  using strcmp_correct [of "(\<lambda>_. 0)(100 := 97, 200 := 98)" 100 "[97]" 200 "[98]"]
  by (auto simp: word_less_def)

text \<open>
  A string shorter than \<open>n\<close> makes \<open>strncpy\<close> write \<open>n + 1\<close> bytes: the string, then
  zeros up to and including offset \<open>n\<close>.  The destination needs room for \<open>n + 1\<close>
  bytes, one more than the C standard's function of that name, which stops at \<open>n\<close>.
\<close>

theorem strncpy_writes:
  assumes "cstr m s cs" and "length cs < unat n" and "unat n < 2 ^ 64 - 1"
    and "\<And>x. within d (Suc (length cs)) x \<Longrightarrow> \<not> within s (Suc (length cs)) x"
  shows "strncpy m d s n x =
    (if within d (length cs) x then m (s + (x - d)) else if within d (Suc (unat n)) x then 0 else m x)"
proof -
  let ?k = "length cs"
  have k: "?k < 2 ^ 64 - 1" using assms(2,3) by simp
  have z: "m (s + of_nat ?k) = 0" using assms(1) by (rule cstr_end)
  have last: "x = d + of_nat ?k \<longleftrightarrow> within d (Suc ?k) x \<and> \<not> within d ?k x"
    using k by (auto simp: within_last within_offset)
  have first_k: "\<not> within (d + of_nat (Suc ?k)) (unat n - ?k) x" if w: "within d (Suc ?k) x"
  proof
    assume "within (d + of_nat (Suc ?k)) (unat n - ?k) x"
    then obtain j where j: "j < unat n - ?k" "x = d + of_nat (Suc ?k) + of_nat j"
      using within_ex by blast
    then have "x = d + of_nat (Suc ?k + j)" by (simp add: add.assoc)
    moreover have "Suc ?k + j < 2 ^ 64" using j assms(3) by simp
    ultimately have "\<not> within d (Suc ?k) x" by (simp add: within_offset del: of_nat_Suc of_nat_add)
    with w show False by simp
  qed
  have rest: "within (d + of_nat (Suc ?k)) (unat n - ?k) x \<longleftrightarrow> within d (Suc (unat n)) x \<and> \<not> within d (Suc ?k) x"
    if "\<not> within d (Suc ?k) x"
  proof -
    have "unat (x - d) \<ge> Suc ?k" using that by (simp add: within_def)
    then have le: "of_nat (Suc ?k) \<le> x - d" using k
      by (simp add: word_le_nat_alt unat_of_nat_u64 del: of_nat_Suc)
    have e: "x - (d + of_nat (Suc ?k)) = (x - d) - of_nat (Suc ?k)" by simp
    have "unat (x - (d + of_nat (Suc ?k))) = unat (x - d) - Suc ?k"
      unfolding e using k unat_sub [OF le] by (simp add: unat_of_nat_u64 del: of_nat_Suc)
    then show ?thesis using that assms(2) by (auto simp: within_def)
  qed
  have eq: "strncpy m d s n x =
    (if within (d + of_nat (Suc ?k)) (unat n - ?k) x then 0
     else if within d (Suc ?k) x then m (s + (x - d)) else m x)"
    by (simp add: strncpy_def strncpy_copy_cstr [OF assms(1,2,4) unat_lt_u64]
        strcpy_cstr [OF assms(1,4) k] memset_loop_apply del: of_nat_Suc)
  show ?thesis
  proof (cases "within d (Suc ?k) x")
    case True
    then have "unat (x - d) < Suc ?k" by (simp add: within_def)
    then have "\<not> within (d + of_nat (Suc ?k)) (unat n - ?k) x"
      using first_k True by blast
    moreover have "within d (Suc (unat n)) x" using True assms(2) by (auto simp: within_def)
    ultimately show ?thesis using True last z by (auto simp: eq)
  next
    case False
    then show ?thesis using rest by (auto simp: eq within_def)
  qed
qed

theorem strncpy_writes_witness:
  "strncpy ((\<lambda>_. 7)(100 := 97, 101 := 0)) 200 100 4 204 = 0
   \<and> ((\<lambda>_. 7)(100 := 97, 101 := 0) :: mem) 204 = 7"
proof -
  let ?m = "(\<lambda>_. 7)(100 := 97, 101 := 0) :: mem"
  have "\<not> within 100 (Suc (length [97 :: u8])) x" if "within 200 (Suc (length [97 :: u8])) x" for x :: ptr
    using that by (simp add: within_iff)
  from strncpy_writes [of ?m 100 "[97]" 4 200 204, OF _ _ _ this]
  show ?thesis by (simp add: within_def)
qed

end
