(* ===== verification/Heap.thy ===== *)
theory Heap
  imports Pmm CString
begin

text \<open>
  The kernel heap of \<open>kernel/mm/heap.c\<close>: a first-fit allocator whose free blocks form a
  linked list inside the byte memory (\<open>size\<close> in the first word of a block, \<open>next\<close> in the
  second).  An allocated block keeps its size in the first word and the complement of the
  size, the canary, in the second.

  \<open>chain\<close> reads the linked list off the memory as a list of blocks, \<open>blocks_ok\<close> says
  that the blocks are sorted, aligned and never adjacent.  \<open>alloc_list\<close> and
  \<open>insert_list\<close> are the allocator on that list; the pointer code refines them.
\<close>

section \<open>State\<close>

record heap = pmm +
  memory :: mem
  heap_lock :: Spinlock
  heap_start :: u64
  heap_end :: u64
  free_list :: ptr

abbreviation (input) HEADER_SIZE :: u64 where
  "HEADER_SIZE \<equiv> 16"

abbreviation (input) MIN_BLOCK :: u64 where
  "MIN_BLOCK \<equiv> 16"

abbreviation (input) HEAP_PAGES :: nat where
  "HEAP_PAGES \<equiv> 64"

definition HEAP_CANARY :: "u64 \<Rightarrow> u64" where
  "HEAP_CANARY sz = NOT sz"

text \<open>The fields of \<open>struct FreeBlock\<close> at address \<open>b\<close>.\<close>

definition blk_size :: "mem \<Rightarrow> ptr \<Rightarrow> u64" where
  "blk_size m b = load64 m b"

definition blk_next :: "mem \<Rightarrow> ptr \<Rightarrow> ptr" where
  "blk_next m b = load64 m (b + 8)"

definition set_blk_size :: "ptr \<Rightarrow> u64 \<Rightarrow> mem \<Rightarrow> mem" where
  "set_blk_size b v m = store64 m b v"

definition set_blk_next :: "ptr \<Rightarrow> ptr \<Rightarrow> mem \<Rightarrow> mem" where
  "set_blk_next b v m = store64 m (b + 8) v"

text \<open>The C code walks with \<open>FreeBlock **prev\<close>: the address of \<open>free_list\<close> or of a \<open>next\<close> field.\<close>

datatype link = Head | NextOf ptr

definition set_link :: "link \<Rightarrow> ptr \<Rightarrow> mem \<times> ptr \<Rightarrow> mem \<times> ptr" where
  "set_link l v h = (case l of Head \<Rightarrow> (fst h, v) | NextOf b \<Rightarrow> (set_blk_next b v (fst h), snd h))"

section \<open>Operations\<close>

text \<open>\<open>prev\<close> and \<open>cur\<close> when the search loop of \<open>kmalloc\<close> stops; \<open>cur = NULL\<close>: nothing fits.\<close>

partial_function (option) find_fit :: "mem \<Rightarrow> u64 \<Rightarrow> link \<Rightarrow> ptr \<Rightarrow> (link \<times> ptr) option" where
  "find_fit m needed prev cur =
     (if cur = NULL then Some (prev, NULL)
      else if needed \<le> blk_size m cur then Some (prev, cur)
      else find_fit m needed (NextOf cur) (blk_next m cur))"

text \<open>One attempt: unlink the block that fits, splitting it if the rest is worth keeping.\<close>

definition carve :: "u64 \<Rightarrow> link \<Rightarrow> ptr \<Rightarrow> mem \<times> ptr \<Rightarrow> mem \<times> ptr" where
  "carve needed prev cur h =
     (let m = fst h
      in if needed + MIN_BLOCK + 16 \<le> blk_size m cur
         then let remainder = cur + needed;
                  m1 = set_blk_size remainder (blk_size m cur - needed) m;
                  m2 = set_blk_next remainder (blk_next m1 cur) m1;
                  (m3, fl) = set_link prev remainder (m2, snd h)
              in (set_blk_size cur needed m3, fl)
         else set_link prev (blk_next m cur) h)"

definition try_alloc :: "u64 \<Rightarrow> mem \<times> ptr \<Rightarrow> (ptr \<times> mem \<times> ptr) option" where
  "try_alloc needed h = do {
     (prev, cur) \<leftarrow> find_fit (fst h) needed Head (snd h);
     if cur = NULL then Some (NULL, h)
     else let (m, fl) = carve needed prev cur h;
              sz = blk_size m cur;
              m1 = store64 m cur sz;
              m2 = store64 m1 (cur + 8) (HEAP_CANARY sz)
          in Some (cur + HEADER_SIZE, m2, fl) }"

text \<open>Where a block goes in the sorted list.\<close>

partial_function (option) find_pos :: "mem \<Rightarrow> ptr \<Rightarrow> link \<Rightarrow> ptr \<Rightarrow> (link \<times> ptr) option" where
  "find_pos m blk prev cur =
     (if cur \<noteq> NULL \<and> cur < blk then find_pos m blk (NextOf cur) (blk_next m cur)
      else Some (prev, cur))"

definition coalesce_next :: "ptr \<Rightarrow> ptr \<Rightarrow> mem \<Rightarrow> mem" where
  "coalesce_next blk cur m =
     (if cur \<noteq> NULL \<and> blk + blk_size m blk = cur
      then let m1 = set_blk_size blk (blk_size m blk + blk_size m cur) m
           in set_blk_next blk (blk_next m1 cur) m1
      else m)"

definition coalesce_prev :: "link \<Rightarrow> ptr \<Rightarrow> mem \<Rightarrow> mem" where
  "coalesce_prev prev blk m = (case prev of
     Head \<Rightarrow> m
   | NextOf p \<Rightarrow>
       if p + blk_size m p = blk
       then let m1 = set_blk_size p (blk_size m p + blk_size m blk) m
            in set_blk_next p (blk_next m1 blk) m1
       else m)"

definition insert_block :: "ptr \<Rightarrow> mem \<times> ptr \<Rightarrow> (mem \<times> ptr) option" where
  "insert_block blk h = do {
     (prev, cur) \<leftarrow> find_pos (fst h) blk Head (snd h);
     let (m, fl) = set_link prev blk (set_blk_next blk cur (fst h), snd h);
     Some (coalesce_prev prev blk (coalesce_next blk cur m), fl) }"

text \<open>The lock, and the list seen through the state.\<close>

definition heap_acquire :: "'a heap_scheme \<Rightarrow> 'a heap_scheme option" where
  "heap_acquire s = do {
     (f, l) \<leftarrow> spin_lock (rflags s) (heap_lock s);
     Some (s\<lparr>rflags := f, heap_lock := l\<rparr>) }"

definition heap_release :: "'a heap_scheme \<Rightarrow> 'a heap_scheme" where
  "heap_release s = (let (f, l) = spin_unlock (heap_lock s) in s\<lparr>rflags := f, heap_lock := l\<rparr>)"

abbreviation heap_of :: "'a heap_scheme \<Rightarrow> mem \<times> ptr" where
  "heap_of s \<equiv> (memory s, free_list s)"

definition set_heap :: "mem \<times> ptr \<Rightarrow> 'a heap_scheme \<Rightarrow> 'a heap_scheme" where
  "set_heap h s = s\<lparr>memory := fst h, free_list := snd h\<rparr>"

text \<open>\<open>heap_init\<close>: the loop that checks contiguity; \<open>n\<close> iterations are left, \<open>i\<close> is the counter.\<close>

primrec init_loop :: "nat \<Rightarrow> ptr \<Rightarrow> u64 \<Rightarrow> 'a heap_scheme \<Rightarrow> (u64 \<times> bool \<times> 'a heap_scheme) option" where
  "init_loop 0 b i s = Some (i, True, s)"
| "init_loop (Suc n) b i s = do {
     (p, s) \<leftarrow> pmm_alloc_page s;
     if p \<noteq> b + i * PAGE_SIZE
     then do { s \<leftarrow> (if p \<noteq> NULL then pmm_free_page p s else Some s); Some (i, False, s) }
     else init_loop n b (i + 1) s }"

definition heap_init :: "'a heap_scheme \<Rightarrow> 'a heap_scheme option" where
  "heap_init s = do {
     (b, s) \<leftarrow> pmm_alloc_page s;
     if b = NULL then Some s
     else do {
       (i, contiguous, s) \<leftarrow> init_loop (HEAP_PAGES - 1) b 1 s;
       let tot = i * PAGE_SIZE;
       let s = set_heap (set_blk_next b NULL (set_blk_size b tot (memory s)), b) s;
       if contiguous then Some (s\<lparr>heap_start := b, heap_end := b + tot\<rparr>) else Some s } }"

text \<open>The growth loop of \<open>kmalloc\<close>: \<open>got\<close> pages from \<open>b\<close> on; \<open>got\<close> and the counter move together.\<close>

primrec grow_loop :: "nat \<Rightarrow> ptr \<Rightarrow> u64 \<Rightarrow> 'a heap_scheme \<Rightarrow> (u64 \<times> 'a heap_scheme) option" where
  "grow_loop 0 b got s = Some (got, s)"
| "grow_loop (Suc n) b got s = do {
     (p, s) \<leftarrow> pmm_alloc_page s;
     if p = NULL then Some (got, s)
     else if p \<noteq> b + got * PAGE_SIZE then do { s \<leftarrow> pmm_free_page p s; Some (got, s) }
     else grow_loop n b (got + 1) s }"

definition needed_bytes :: "u64 \<Rightarrow> u64" where
  "needed_bytes sz =
     (let needed = ((sz + 15) AND NOT 15) + HEADER_SIZE
      in if needed < MIN_BLOCK then MIN_BLOCK else needed)"

definition kmalloc :: "u64 \<Rightarrow> 'a heap_scheme \<Rightarrow> (ptr \<times> 'a heap_scheme) option" where
  "kmalloc sz s = (
     if sz = 0 then Some (NULL, s)
     else do {
       let needed = needed_bytes sz;
       s \<leftarrow> heap_acquire s;
       (p, h) \<leftarrow> try_alloc needed (heap_of s);
       if p \<noteq> NULL then Some (p, heap_release (set_heap h s))
       else do {
         let s = heap_release s;
         let pages_needed = (needed + PAGE_SIZE - 1) div PAGE_SIZE;
         let pages_needed = (if pages_needed < 4 then 4 else pages_needed);
         (b, s) \<leftarrow> pmm_alloc_page s;
         if b = NULL then Some (NULL, s)
         else do {
           (got, s) \<leftarrow> grow_loop (unat pages_needed - 1) b 1 s;
           s \<leftarrow> heap_acquire s;
           let new_end = b + got * PAGE_SIZE;
           let s = (if heap_end s < new_end then s\<lparr>heap_end := new_end\<rparr> else s);
           let s = (if b < heap_start s then s\<lparr>heap_start := b\<rparr> else s);
           h \<leftarrow> insert_block b (set_blk_size b (got * PAGE_SIZE) (memory s), free_list s);
           (p, h) \<leftarrow> try_alloc needed h;
           Some (p, heap_release (set_heap h s)) } } })"

definition kmalloc_aligned :: "u64 \<Rightarrow> u64 \<Rightarrow> 'a heap_scheme \<Rightarrow> (ptr \<times> 'a heap_scheme) option" where
  "kmalloc_aligned sz align s = (
     if sz = 0 \<or> align = 0 \<or> align AND (align - 1) \<noteq> 0 then Some (NULL, s)
     else if NOT 0 - align - 8 < sz then Some (NULL, s)
     else do {
       (raw, s) \<leftarrow> kmalloc (sz + align + 8) s;
       if raw = NULL then Some (NULL, s)
       else let addr = (raw + 8 + align - 1) AND NOT (align - 1)
            in Some (addr, s\<lparr>memory := store64 (memory s) (addr - 8) raw\<rparr>) })"

definition kfree :: "ptr \<Rightarrow> 'a heap_scheme \<Rightarrow> 'a heap_scheme option" where
  "kfree p s = (
     if p = NULL then Some s
     else let blk = p - HEADER_SIZE;
              block_size = load64 (memory s) blk
          in if load64 (memory s) (blk + 8) \<noteq> HEAP_CANARY block_size then Some s
             else if blk < heap_start s \<or> heap_end s < blk + block_size then Some s
             else do {
               let s = s\<lparr>memory := set_blk_size blk block_size (memory s)\<rparr>;
               s \<leftarrow> heap_acquire s;
               h \<leftarrow> insert_block blk (heap_of s);
               Some (heap_release (set_heap h s)) })"

section \<open>The free list as a list of blocks\<close>

type_synonym block = "ptr \<times> u64"

primrec chain :: "mem \<Rightarrow> ptr \<Rightarrow> block list \<Rightarrow> bool" where
  "chain m p [] \<longleftrightarrow> p = NULL"
| "chain m p (b # bs) \<longleftrightarrow> p = fst b \<and> fst b \<noteq> NULL \<and> blk_size m (fst b) = snd b \<and> chain m (blk_next m (fst b)) bs"

text \<open>Sorted, aligned, inside the physical address space, and with a gap between any two blocks.\<close>

abbreviation blk_end :: "block \<Rightarrow> nat" where
  "blk_end b \<equiv> unat (fst b) + unat (snd b)"

definition block_ok :: "block \<Rightarrow> bool" where
  "block_ok b \<longleftrightarrow> 16 dvd unat (fst b) \<and> 16 dvd unat (snd b) \<and> 0 < unat (snd b) \<and> blk_end b \<le> 2 ^ 52"

primrec blocks_ok :: "nat \<Rightarrow> block list \<Rightarrow> bool" where
  "blocks_ok lo [] \<longleftrightarrow> True"
| "blocks_ok lo (b # bs) \<longleftrightarrow> lo < unat (fst b) \<and> block_ok b \<and> blocks_ok (blk_end b) bs"

definition block_bytes :: "block \<Rightarrow> nat set" where
  "block_bytes b = {unat (fst b)..<blk_end b}"

definition list_bytes :: "block list \<Rightarrow> nat set" where
  "list_bytes bs = (\<Union>b \<in> set bs. block_bytes b)"

lemma list_bytes_simps [simp]:
  "list_bytes [] = {}" "list_bytes (b # bs) = block_bytes b \<union> list_bytes bs"
  "list_bytes (as @ bs) = list_bytes as \<union> list_bytes bs"
  by (simp_all add: list_bytes_def)

lemma blocks_ok_mono: "blocks_ok lo bs \<Longrightarrow> lo' \<le> lo \<Longrightarrow> blocks_ok lo' bs"
  by (cases bs) auto

lemma blocks_ok_mem: "blocks_ok lo bs \<Longrightarrow> b \<in> set bs \<Longrightarrow> block_ok b \<and> lo < unat (fst b)"
proof (induction bs arbitrary: lo)
  case (Cons c bs)
  then show ?case by (cases "b = c") (force simp: block_ok_def)+
qed simp

lemma blocks_ok_append:
  "blocks_ok lo (as @ bs) \<longleftrightarrow> blocks_ok lo as \<and> blocks_ok (if as = [] then lo else blk_end (last as)) bs"
  by (induction as arbitrary: lo) auto

lemma blocks_ok_bytes_above: "blocks_ok lo bs \<Longrightarrow> x \<in> list_bytes bs \<Longrightarrow> lo < x"
  by (auto simp: list_bytes_def block_bytes_def dest: blocks_ok_mem)

text \<open>Word-level consequences of a block being in place.\<close>

lemma unat_blk_end: "block_ok b \<Longrightarrow> unat (fst b + snd b) = blk_end b"
  by (simp add: block_ok_def unat_word_ariths)

lemma aligned_blk: "block_ok b \<Longrightarrow> aligned 8 (fst b) \<and> aligned 8 (fst b + 8)"
proof -
  assume "block_ok b"
  then have d: "16 dvd unat (fst b)" and l: "unat (fst b) \<le> 2 ^ 52" by (auto simp: block_ok_def)
  then have "unat (fst b + 8) = unat (fst b) + 8" by (simp add: unat_word_ariths)
  with d show ?thesis by (auto simp: aligned_def)
qed

lemma blk_fields_distinct:
  assumes "16 dvd unat a" "16 dvd unat b" "unat a \<le> 2 ^ 52" "unat b \<le> 2 ^ 52"
  shows "a + 8 \<noteq> (b :: ptr)" and "a + 8 = b + 8 \<longleftrightarrow> a = b"
proof -
  have "unat (a + 8) = unat a + 8" using assms(3) by (simp add: unat_word_ariths)
  moreover have "unat a + 8 \<noteq> unat b" using assms(1,2) by presburger
  ultimately show "a + 8 \<noteq> b" by auto
qed simp

text \<open>Stores outside the headers of the listed blocks keep the list.\<close>

lemma chain_cong:
  "(\<And>b. b \<in> set bs \<Longrightarrow> blk_size m' (fst b) = blk_size m (fst b) \<and> blk_next m' (fst b) = blk_next m (fst b))
   \<Longrightarrow> chain m' p bs \<longleftrightarrow> chain m p bs"
  by (induction bs arbitrary: p) auto

lemma header_store:
  assumes "block_ok c" "block_ok b" "fst c \<noteq> fst b"
  shows "blk_size (set_blk_size (fst c) v m) (fst b) = blk_size m (fst b)"
    "blk_next (set_blk_size (fst c) v m) (fst b) = blk_next m (fst b)"
    "blk_size (set_blk_next (fst c) v m) (fst b) = blk_size m (fst b)"
    "blk_next (set_blk_next (fst c) v m) (fst b) = blk_next m (fst b)"
proof -
  have d: "fst c + 8 \<noteq> fst b" "fst b + 8 \<noteq> fst c" "fst c + 8 \<noteq> fst b + 8"
    using blk_fields_distinct [of "fst c" "fst b"] blk_fields_distinct [of "fst b" "fst c"] assms
    by (auto simp: block_ok_def)
  note a = aligned_blk [OF assms(1)] aligned_blk [OF assms(2)]
  show "blk_size (set_blk_size (fst c) v m) (fst b) = blk_size m (fst b)"
    "blk_next (set_blk_size (fst c) v m) (fst b) = blk_next m (fst b)"
    "blk_size (set_blk_next (fst c) v m) (fst b) = blk_size m (fst b)"
    "blk_next (set_blk_next (fst c) v m) (fst b) = blk_next m (fst b)"
    using d a assms(3)
    by (auto simp: blk_size_def blk_next_def set_blk_size_def set_blk_next_def load64_store64_other)
qed

lemma header_store_same:
  assumes "block_ok b"
  shows "blk_size (set_blk_size (fst b) v m) (fst b) = v"
    "blk_next (set_blk_next (fst b) v m) (fst b) = v"
    "blk_size (set_blk_next (fst b) v m) (fst b) = blk_size m (fst b)"
    "blk_next (set_blk_size (fst b) v m) (fst b) = blk_next m (fst b)"
proof -
  have "fst b + 8 \<noteq> fst b" using blk_fields_distinct [of "fst b" "fst b"] assms by (auto simp: block_ok_def)
  with aligned_blk [OF assms]
  show "blk_size (set_blk_size (fst b) v m) (fst b) = v"
    "blk_next (set_blk_next (fst b) v m) (fst b) = v"
    "blk_size (set_blk_next (fst b) v m) (fst b) = blk_size m (fst b)"
    "blk_next (set_blk_size (fst b) v m) (fst b) = blk_next m (fst b)"
    by (auto simp: blk_size_def blk_next_def set_blk_size_def set_blk_next_def load64_store64_other load64_store64)
qed

lemma chain_store:
  assumes "block_ok c" and "\<forall>b \<in> set bs. block_ok b \<and> fst b \<noteq> fst c"
  shows "chain (set_blk_size (fst c) v m) p bs \<longleftrightarrow> chain m p bs"
    "chain (set_blk_next (fst c) v m) p bs \<longleftrightarrow> chain m p bs"
  using assms header_store [OF assms(1)] by (intro chain_cong; metis)+

text \<open>Following a list and replacing what comes after its first part.\<close>

definition link_after :: "link \<Rightarrow> block list \<Rightarrow> link" where
  "link_after l bs = (if bs = [] then l else NextOf (fst (last bs)))"

lemma link_after_Cons: "link_after l (b # bs) = link_after (NextOf (fst b)) bs"
  by (simp add: link_after_def)

text \<open>\<open>reach m p as q\<close>: from \<open>p\<close> the blocks \<open>as\<close> lead to \<open>q\<close>.\<close>

primrec reach :: "mem \<Rightarrow> ptr \<Rightarrow> block list \<Rightarrow> ptr \<Rightarrow> bool" where
  "reach m p [] q \<longleftrightarrow> p = q"
| "reach m p (b # bs) q \<longleftrightarrow> p = fst b \<and> fst b \<noteq> NULL \<and> blk_size m (fst b) = snd b \<and> reach m (blk_next m (fst b)) bs q"

lemma chain_append: "chain m p (as @ bs) \<longleftrightarrow> (\<exists>q. reach m p as q \<and> chain m q bs)"
  by (induction as arbitrary: p) auto

lemma reach_cong:
  "(\<And>b. b \<in> set bs \<Longrightarrow> blk_size m' (fst b) = blk_size m (fst b) \<and> blk_next m' (fst b) = blk_next m (fst b))
   \<Longrightarrow> reach m' p bs q \<longleftrightarrow> reach m p bs q"
  by (induction bs arbitrary: p) auto

lemma reach_store:
  assumes "block_ok c" and "\<forall>b \<in> set bs. block_ok b \<and> fst b \<noteq> fst c"
  shows "reach (set_blk_size (fst c) v m) p bs q \<longleftrightarrow> reach m p bs q"
    "reach (set_blk_next (fst c) v m) p bs q \<longleftrightarrow> reach m p bs q"
  using assms header_store [OF assms(1)] by (intro reach_cong; metis)+

lemma blocks_ok_distinct: "blocks_ok lo (as @ b # bs) \<Longrightarrow> \<forall>c \<in> set as \<union> set bs. block_ok c \<and> fst c \<noteq> fst b"
proof
  fix c assume a: "blocks_ok lo (as @ b # bs)" "c \<in> set as \<union> set bs"
  have ok: "block_ok c" using blocks_ok_mem [OF a(1)] a(2) by auto
  have "unat (fst c) \<noteq> unat (fst b)"
  proof (cases "c \<in> set bs")
    case True
    have "blocks_ok (blk_end b) bs" using a(1) by (auto simp: blocks_ok_append)
    from blocks_ok_mem [OF this True] show ?thesis by simp
  next
    case False
    then have c: "c \<in> set as" using a(2) by simp
    then obtain xs ys where "as = xs @ c # ys" by (meson split_list)
    then have "blocks_ok (blk_end c) (ys @ b # bs)" using a(1) by (simp add: blocks_ok_append)
    then show ?thesis using blocks_ok_mem [of "blk_end c" "ys @ b # bs" b] by auto
  qed
  with ok show "block_ok c \<and> fst c \<noteq> fst b" by auto
qed

text \<open>Redirecting the link behind \<open>as\<close> to \<open>q\<close>.\<close>

lemma reach_set_link:
  assumes "reach m p as r" and "blocks_ok lo as"
  shows "\<exists>m' p'. set_link (link_after Head as) q (m, p) = (m', p') \<and> reach m' p' as q
     \<and> (m' = m \<and> as = [] \<or> (\<exists>c \<in> set as. m' = set_blk_next (fst c) q m))"
proof (cases as rule: rev_cases)
  case Nil
  then show ?thesis using assms by (simp add: link_after_def set_link_def)
next
  case (snoc xs c)
  have c: "block_ok c" using assms(2) snoc blocks_ok_mem by fastforce
  have d: "\<forall>b \<in> set xs. block_ok b \<and> fst b \<noteq> fst c"
    using blocks_ok_distinct [of lo xs c "[]"] assms(2) snoc by auto
  let ?m = "set_blk_next (fst c) q m"
  have "reach m p (ys @ [c]) r \<Longrightarrow> \<forall>b \<in> set ys. block_ok b \<and> fst b \<noteq> fst c \<Longrightarrow> reach ?m p (ys @ [c]) q" for ys p
  proof (induction ys arbitrary: p)
    case Nil
    then show ?case using header_store_same [OF c] by simp
  next
    case (Cons y ys)
    then show ?case using header_store [OF c, of y] by auto
  qed
  then have "reach ?m p as q" using assms(1) d snoc by blast
  then show ?thesis using snoc by (auto simp: link_after_def set_link_def)
qed

section \<open>The allocator on lists\<close>

primrec first_fit :: "u64 \<Rightarrow> block list \<Rightarrow> (block list \<times> block \<times> block list) option" where
  "first_fit needed [] = None"
| "first_fit needed (b # bs) =
     (if needed \<le> snd b then Some ([], b, bs)
      else map_option (\<lambda>(pre, c, post). (b # pre, c, post)) (first_fit needed bs))"

text \<open>First fit; the rest of the block stays in the list when it is at least 32 bytes.\<close>

definition alloc_list :: "u64 \<Rightarrow> block list \<Rightarrow> (block \<times> block list) option" where
  "alloc_list needed bs = (case first_fit needed bs of
     None \<Rightarrow> None
   | Some (pre, b, post) \<Rightarrow>
       if needed + 32 \<le> snd b then Some ((fst b, needed), pre @ (fst b + needed, snd b - needed) # post)
       else Some (b, pre @ post))"

lemma first_fit_Some:
  "first_fit needed bs = Some (pre, b, post) \<Longrightarrow>
   bs = pre @ b # post \<and> needed \<le> snd b \<and> (\<forall>c \<in> set pre. snd c < needed)"
  by (induction bs arbitrary: pre) (fastforce simp: not_le split: if_splits)+

lemma first_fit_None: "first_fit needed bs = None \<longleftrightarrow> (\<forall>b \<in> set bs. snd b < needed)"
  by (induction bs) auto

lemma find_fit_spec:
  "chain m p bs \<Longrightarrow> find_fit m needed l p = Some (case first_fit needed bs of
     None \<Rightarrow> (link_after l bs, NULL) | Some (pre, b, post) \<Rightarrow> (link_after l pre, fst b))"
proof (induction bs arbitrary: l p)
  case Nil
  then show ?case by (simp add: find_fit.simps [of m needed l] link_after_def)
next
  case (Cons b bs)
  then show ?case
    by (auto simp: find_fit.simps [of m needed l] link_after_Cons link_after_def split: option.splits)
qed

text \<open>What the memory looks like outside a set of bytes.\<close>

definition same_outside :: "nat set \<Rightarrow> mem \<Rightarrow> mem \<Rightarrow> bool" where
  "same_outside S m m' \<longleftrightarrow> (\<forall>x. unat x \<notin> S \<longrightarrow> m' x = m x)"

lemma same_outside_refl [simp]: "same_outside S m m"
  by (simp add: same_outside_def)

lemma same_outside_trans: "same_outside S m m' \<Longrightarrow> same_outside S m' m'' \<Longrightarrow> same_outside S m m''"
  by (simp add: same_outside_def)

lemma same_outside_mono: "same_outside S m m' \<Longrightarrow> S \<subseteq> T \<Longrightarrow> same_outside T m m'"
  by (auto simp: same_outside_def)

lemma same_outside_store:
  assumes "block_ok b" and "block_bytes b \<subseteq> S"
  shows "same_outside S m (set_blk_size (fst b) v m)" "same_outside S m (set_blk_next (fst b) v m)"
proof -
  have b: "unat (fst b) \<le> 2 ^ 52" "16 \<le> unat (snd b)"
    using assms(1) by (auto simp: block_ok_def dvd_imp_le)
  have u: "unat (fst b + 8) = unat (fst b) + 8" using b(1) by (simp add: unat_word_ariths)
  have "unat x \<in> S" if "within (fst b) 8 x \<or> within (fst b + 8) 8 x" for x
  proof -
    have "unat (fst b) \<le> unat x \<and> unat x < unat (fst b) + 16"
      using that b u within_iff [of "fst b" 8 x] within_iff [of "fst b + 8" 8 x] by auto
    then have "unat x \<in> block_bytes b" using b(2) by (auto simp: block_bytes_def)
    then show ?thesis using assms(2) by blast
  qed
  then show "same_outside S m (set_blk_size (fst b) v m)" "same_outside S m (set_blk_next (fst b) v m)"
    by (auto simp: same_outside_def set_blk_size_def set_blk_next_def store64_def)
qed

lemma list_bytes_mem: "b \<in> set bs \<Longrightarrow> block_bytes b \<subseteq> list_bytes bs"
  by (auto simp: list_bytes_def)

lemma reach_set_link':
  assumes "reach m p as r" and "blocks_ok lo as" and "list_bytes as \<subseteq> S"
    and others: "\<forall>x \<in> set bs. block_ok x \<and> (\<forall>c \<in> set as. fst c \<noteq> fst x)"
  obtains m' p' where "set_link (link_after Head as) q (m, p) = (m', p')" "reach m' p' as q"
    "same_outside S m m'" "\<And>r. chain m' r bs \<longleftrightarrow> chain m r bs"
    "\<And>x. x \<in> set bs \<Longrightarrow> blk_size m' (fst x) = blk_size m (fst x) \<and> blk_next m' (fst x) = blk_next m (fst x)"
proof -
  obtain m' p' where 1: "set_link (link_after Head as) q (m, p) = (m', p')" "reach m' p' as q"
    "m' = m \<and> as = [] \<or> (\<exists>c \<in> set as. m' = set_blk_next (fst c) q m)"
    using reach_set_link [OF assms(1,2)] by blast
  have same: "blk_size m' (fst x) = blk_size m (fst x) \<and> blk_next m' (fst x) = blk_next m (fst x)" if "x \<in> set bs" for x
    using 1(3) header_store others that blocks_ok_mem [OF assms(2)] by metis
  have "same_outside S m m'"
    using 1(3) same_outside_store(2) blocks_ok_mem [OF assms(2)] list_bytes_mem assms(3)
    by (metis same_outside_refl subset_trans)
  then show ?thesis using that 1 same chain_cong [of bs m' m] by blast
qed


text \<open>What the list operation guarantees.\<close>

lemma alloc_list_ok:
  assumes ok: "blocks_ok lo bs" and al: "alloc_list needed bs = Some (b, bs')"
    and n: "16 dvd unat needed" "0 < unat needed" "unat needed \<le> 2 ^ 63"
  shows "blocks_ok lo bs' \<and> block_ok b \<and> needed \<le> snd b \<and> unat (snd b) < unat needed + 32 \<and> 0 < unat (fst b)
    \<and> list_bytes bs = block_bytes b \<union> list_bytes bs' \<and> block_bytes b \<inter> list_bytes bs' = {}"
proof -
  obtain pre c post where ff: "first_fit needed bs = Some (pre, c, post)"
    using al by (auto simp: alloc_list_def split: option.splits)
  then have bs: "bs = pre @ c # post" "needed \<le> snd c" using first_fit_Some by blast+
  let ?lo = "if pre = [] then lo else blk_end (last pre)"
  have okc: "blocks_ok lo pre" "?lo < unat (fst c)" "block_ok c" "blocks_ok (blk_end c) post"
    using ok unfolding bs(1) blocks_ok_append by auto
  have pre_below: "x < unat (fst c)" if "x \<in> list_bytes pre" for x
  proof -
    have "x \<le> blk_end (last pre) \<and> pre \<noteq> []" if "blocks_ok l pre" "x \<in> list_bytes pre" for l
      using that
    proof (induction pre arbitrary: l)
      case (Cons d ds)
      show ?case
      proof (cases "x \<in> list_bytes ds")
        case True
        with Cons show ?thesis by fastforce
      next
        case False
        with Cons.prems have xd: "x < blk_end d" by (auto simp: block_bytes_def)
        show ?thesis
        proof (cases "ds = []")
          case False
          then have "last ds \<in> set ds" by simp
          with Cons.prems have "blk_end d < unat (fst (last ds))" using blocks_ok_mem by fastforce
          with xd False show ?thesis by simp
        qed (use xd in simp)
      qed
    qed simp
    with okc(1,2) that show ?thesis by fastforce
  qed
  have post_above: "blk_end c < x" if "x \<in> list_bytes post" for x
    using blocks_ok_bytes_above [OF okc(4) that] .
  have c: "unat (snd c) \<le> 2 ^ 52" "16 dvd unat (fst c)" "16 dvd unat (snd c)" "blk_end c \<le> 2 ^ 52"
    using okc(3) by (auto simp: block_ok_def)
  have le: "unat needed \<le> unat (snd c)" using bs(2) by (simp add: word_le_nat_alt)
  have n32: "unat (needed + 32) = unat needed + 32" using n(3) by (simp add: unat_word_ariths)
  show ?thesis
  proof (cases "needed + 32 \<le> snd c")
    case True
    then have l32: "unat needed + 32 \<le> unat (snd c)" using n32 by (simp add: word_le_nat_alt)
    have e: "b = (fst c, needed)" "bs' = pre @ (fst c + needed, snd c - needed) # post"
      using al ff True by (auto simp: alloc_list_def)
    have u: "unat (fst c + needed) = unat (fst c) + unat needed" "unat (snd c - needed) = unat (snd c) - unat needed"
      using c l32 bs(2) by (simp_all add: unat_word_ariths unat_sub)
    have "block_ok (fst c, needed)" using c n l32 by (simp add: block_ok_def)
    moreover have "block_ok (fst c + needed, snd c - needed)"
      using c n l32 by (simp add: block_ok_def u)
    moreover have ends: "blk_end (fst c + needed, snd c - needed) = blk_end c" using u l32 by simp
    moreover have "block_bytes c = block_bytes (fst c, needed) \<union> block_bytes (fst c + needed, snd c - needed)"
      using u l32 by (auto simp: block_bytes_def)
    moreover have "block_bytes (fst c, needed) \<inter> block_bytes (fst c + needed, snd c - needed) = {}"
      using u by (auto simp: block_bytes_def)
    moreover have "block_bytes (fst c, needed) \<inter> (list_bytes pre \<union> list_bytes post) = {}"
      using pre_below post_above l32 by (force simp: block_bytes_def)
    moreover have "?lo < unat (fst c + needed)" using okc(2) u(1) by simp
    ultimately show ?thesis using e okc n le ends bs(1) 
      by (auto simp: blocks_ok_append)
  next
    case False
    then have e: "b = c" "bs' = pre @ post"
      using al ff by (auto simp: alloc_list_def)
    have "blocks_ok ?lo post" using okc(2,4) by (auto intro: blocks_ok_mono)
    moreover have "block_bytes c \<inter> (list_bytes pre \<union> list_bytes post) = {}"
      using pre_below post_above by (force simp: block_bytes_def)
    moreover have "unat (snd c) < unat needed + 32" using False n32 by (simp add: word_le_nat_alt)
    ultimately show ?thesis using e okc bs by (auto simp: blocks_ok_append)
  qed
qed

lemma try_alloc_none:
  assumes "chain m p bs" and "alloc_list needed bs = None"
  shows "try_alloc needed (m, p) = Some (NULL, m, p)"
proof -
  have "first_fit needed bs = None"
    using assms(2) by (auto simp: alloc_list_def split: option.splits if_splits)
  then show ?thesis using find_fit_spec [OF assms(1), of needed Head] by (simp add: try_alloc_def)
qed

lemma chain_split:
  assumes "chain m p (pre @ b # post)"
  shows "reach m p pre (fst b)" "fst b \<noteq> NULL" "blk_size m (fst b) = snd b" "chain m (blk_next m (fst b)) post"
  using assms by (auto simp: chain_append)

lemma chain_join:
  "reach m p pre (fst b) \<Longrightarrow> fst b \<noteq> NULL \<Longrightarrow> blk_size m (fst b) = snd b \<Longrightarrow> chain m (blk_next m (fst b)) post
   \<Longrightarrow> chain m p (pre @ b # post)"
  by (auto simp: chain_append)

text \<open>Writing the header of a block that is not in the list.\<close>

lemma header_write:
  assumes "block_ok b" and "\<forall>c \<in> set bs. block_ok c \<and> fst c \<noteq> fst b" and "chain m p bs" and "block_bytes b \<subseteq> S"
  shows "let m2 = store64 (store64 m (fst b) v) (fst b + 8) w
     in chain m2 p bs \<and> load64 m2 (fst b) = v \<and> load64 m2 (fst b + 8) = w \<and> same_outside S m m2"
proof -
  have e: "store64 (store64 m (fst b) v) (fst b + 8) w = set_blk_next (fst b) w (set_blk_size (fst b) v m)"
    by (simp add: set_blk_next_def set_blk_size_def)
  have "chain (set_blk_next (fst b) w (set_blk_size (fst b) v m)) p bs"
    using chain_store [OF assms(1,2)] assms(3) by blast
  moreover have "load64 (set_blk_next (fst b) w (set_blk_size (fst b) v m)) (fst b) = v"
    using header_store_same [OF assms(1)] by (metis blk_size_def)
  moreover have "load64 (set_blk_next (fst b) w (set_blk_size (fst b) v m)) (fst b + 8) = w"
    using header_store_same [OF assms(1)] by (metis blk_next_def)
  moreover have "same_outside S m (set_blk_next (fst b) w (set_blk_size (fst b) v m))"
    using same_outside_store [OF assms(1,4)] by (blast intro: same_outside_trans)
  ultimately show ?thesis unfolding e Let_def by blast
qed

lemma blocks_ok_apart:
  assumes "blocks_ok lo (pre @ post)" and "x \<in> set post" and "d \<in> set pre"
  shows "fst d \<noteq> fst x"
proof -
  obtain ys zs where "post = ys @ x # zs" using assms(2) by (meson split_list)
  then have "blocks_ok lo ((pre @ ys) @ x # zs)" using assms(1) by simp
  from blocks_ok_distinct [OF this] assms(3) show ?thesis by auto
qed

lemma try_alloc_some:
  assumes ch: "chain m p bs" and ok: "blocks_ok lo bs" and al: "alloc_list needed bs = Some (b, bs')"
    and n: "16 dvd unat needed" "0 < unat needed" "unat needed \<le> 2 ^ 63"
  shows "\<exists>m' p'. try_alloc needed (m, p) = Some (fst b + HEADER_SIZE, m', p') \<and> chain m' p' bs'
    \<and> load64 m' (fst b) = snd b \<and> load64 m' (fst b + 8) = HEAP_CANARY (snd b)
    \<and> same_outside (list_bytes bs) m m'"
proof -
  let ?S = "list_bytes bs"
  obtain pre c post where ff: "first_fit needed bs = Some (pre, c, post)"
    using al by (auto simp: alloc_list_def split: option.splits)
  then have bs: "bs = pre @ c # post" "needed \<le> snd c" using first_fit_Some by blast+
  note al_ok = alloc_list_ok [OF ok al n]
  have fit: "find_fit m needed Head p = Some (link_after Head pre, fst c)"
    using find_fit_spec [OF ch, of needed Head] ff by simp
  note cs = chain_split [OF ch [unfolded bs(1)]]
  have okpre: "blocks_ok lo pre" "block_ok c" using ok unfolding bs(1) blocks_ok_append by auto
  have dc: "\<forall>x \<in> set pre \<union> set post. block_ok x \<and> fst x \<noteq> fst c"
    using blocks_ok_distinct ok bs(1) by blast
  have dpp: "\<forall>x \<in> set post. \<forall>d \<in> set pre. fst d \<noteq> fst x"
    using blocks_ok_apart [OF ok [unfolded bs(1)]] by simp
  have sub: "list_bytes pre \<subseteq> ?S" "block_bytes c \<subseteq> ?S" by (auto simp: bs(1))
  have n32: "needed + MIN_BLOCK + 16 = needed + 32" by simp
  define carved where "carved = carve needed (link_after Head pre) (fst c) (m, p)"
  have step: "\<exists>m1 p1. carved = (m1, p1) \<and> chain m1 p1 bs' \<and> blk_size m1 (fst c) = snd b \<and> fst b = fst c
      \<and> same_outside ?S m m1 \<and> (\<forall>x \<in> set bs'. block_ok x \<and> fst x \<noteq> fst c)"
  proof (cases "needed + 32 \<le> snd c")
    case False
    have e: "b = c" "bs' = pre @ post" using al ff False by (auto simp: alloc_list_def)
    have "\<forall>x \<in> set (c # post). block_ok x \<and> (\<forall>d \<in> set pre. fst d \<noteq> fst x)"
      using dc okpre(2) dpp by auto
    then obtain m1 p1 where l: "set_link (link_after Head pre) (blk_next m (fst c)) (m, p) = (m1, p1)"
      "reach m1 p1 pre (blk_next m (fst c))" "same_outside ?S m m1" "\<And>r. chain m1 r (c # post) \<longleftrightarrow> chain m r (c # post)"
      "\<And>x. x \<in> set (c # post) \<Longrightarrow> blk_size m1 (fst x) = blk_size m (fst x) \<and> blk_next m1 (fst x) = blk_next m (fst x)"
      by (rule reach_set_link' [OF cs(1) okpre(1) sub(1)]) (rule that)
    have "chain m1 (blk_next m (fst c)) post"
      using l(5) cs(4) by (subst chain_cong [of post m1 m]) auto
    then have "chain m1 p1 (pre @ post)" using l(2) by (auto simp: chain_append)
    moreover have "carved = (m1, p1)"
      unfolding carved_def carve_def n32 using l(1) False cs(3) by (simp add: Let_def)
    moreover have "blk_size m1 (fst c) = snd c" using l(5) cs(3) by simp
    ultimately show ?thesis using e l(3) dc by auto
  next
    case True
    define r where "r = (fst c + needed, snd c - needed)"
    have e: "b = (fst c, needed)" "bs' = pre @ r # post" using al ff True by (auto simp: alloc_list_def r_def)
    have okb': "blocks_ok lo (pre @ r # post)" using al_ok e by simp
    have okr: "block_ok r" using okb' by (simp add: blocks_ok_append)
    have dr: "\<forall>x \<in> set pre \<union> set post. block_ok x \<and> fst x \<noteq> fst r" by (rule blocks_ok_distinct [OF okb'])
    have rc: "fst r \<noteq> fst c" using n(2) by (auto simp: r_def)
    have subr: "block_bytes r \<subseteq> ?S" using al_ok e by auto
    have spost: "\<forall>x \<in> set post. block_ok x \<and> fst x \<noteq> fst r" and spre: "\<forall>x \<in> set pre. block_ok x \<and> fst x \<noteq> fst r"
      using dr by auto
    define m1 where "m1 = set_blk_size (fst r) (snd r) m"
    define m2 where "m2 = set_blk_next (fst r) (blk_next m1 (fst c)) m1"
    have m1: "blk_next m1 (fst c) = blk_next m (fst c)" unfolding m1_def
      using header_store(2) [OF okr okpre(2) rc] .
    have m2: "reach m2 p pre (fst c)" "chain m2 (blk_next m (fst c)) post" "blk_size m2 (fst r) = snd r"
      "blk_next m2 (fst r) = blk_next m (fst c)"
      using cs reach_store [OF okr spre] chain_store [OF okr spost] header_store_same [OF okr]
      by (auto simp: m2_def m1_def [symmetric] m1) (auto simp: m1_def)
    have "\<forall>x \<in> set (c # r # post). block_ok x \<and> (\<forall>d \<in> set pre. fst d \<noteq> fst x)"
      using dc dr okpre(2) okr dpp by auto
    then obtain m3 p3 where l: "set_link (link_after Head pre) (fst r) (m2, p) = (m3, p3)"
      "reach m3 p3 pre (fst r)" "same_outside ?S m2 m3"
      "\<And>x. x \<in> set (c # r # post) \<Longrightarrow> blk_size m3 (fst x) = blk_size m2 (fst x) \<and> blk_next m3 (fst x) = blk_next m2 (fst x)"
      by (rule reach_set_link' [OF m2(1) okpre(1) sub(1)]) (rule that)
    have "chain m3 (blk_next m (fst c)) post"
      using l(4) m2(2) by (subst chain_cong [of post m3 m2]) auto
    then have c3: "chain m3 p3 (pre @ r # post)"
      using l(2) l(4) [of r] m2(3,4) okb' by (auto intro!: chain_join simp: blocks_ok_append)
    define m4 where "m4 = set_blk_size (fst c) needed m3"
    have dis: "\<forall>x \<in> set bs'. block_ok x \<and> fst x \<noteq> fst c" using dc rc okr e by auto
    have c4: "chain m4 p3 bs'" "blk_size m4 (fst c) = needed"
      using c3 chain_store(1) [OF okpre(2) dis] header_store_same(1) [OF okpre(2)] by (auto simp: m4_def e)
    have "same_outside ?S m m4"
      using same_outside_store [OF okr subr] same_outside_store(1) [OF okpre(2) sub(2)] l(3)
      unfolding m4_def m2_def m1_def by (meson same_outside_trans)
    moreover have "carved = (m4, p3)"
      unfolding carved_def carve_def n32
      using True l(1) cs(3) by (simp add: Let_def m4_def m2_def m1_def r_def)
    ultimately show ?thesis using c4 dis e by auto
  qed
  then obtain m1 p1 where 1: "carved = (m1, p1)" "chain m1 p1 bs'" "blk_size m1 (fst c) = snd b" "fst b = fst c"
      "same_outside ?S m m1" "\<forall>x \<in> set bs'. block_ok x \<and> fst x \<noteq> fst b" by auto
  have okb: "block_ok b" "block_bytes b \<subseteq> ?S" using al_ok by auto
  let ?m = "store64 (store64 m1 (fst b) (snd b)) (fst b + 8) (HEAP_CANARY (snd b))"
  have "try_alloc needed (m, p) = Some (fst b + HEADER_SIZE, ?m, p1)"
    using fit cs(2) 1 by (simp add: try_alloc_def carved_def [symmetric] Let_def)
  moreover have "chain ?m p1 bs' \<and> load64 ?m (fst b) = snd b \<and> load64 ?m (fst b + 8) = HEAP_CANARY (snd b)
     \<and> same_outside ?S m1 ?m"
    using header_write [OF okb(1) 1(6,2) okb(2)] by (simp add: Let_def)
  ultimately show ?thesis using 1(5) same_outside_trans by blast
qed

section \<open>Insertion on lists\<close>

fun join_next :: "block \<Rightarrow> block list \<Rightarrow> block list" where
  "join_next b [] = [b]"
| "join_next b (c # cs) = (if fst b + snd b = fst c then (fst b, snd b + snd c) # cs else b # c # cs)"

definition join_prev :: "block list \<Rightarrow> block list \<Rightarrow> block list" where
  "join_prev pre bs = (if pre \<noteq> [] \<and> fst (last pre) + snd (last pre) = fst (hd bs)
     then butlast pre @ (fst (last pre), snd (last pre) + snd (hd bs)) # tl bs
     else pre @ bs)"

definition insert_list :: "block \<Rightarrow> block list \<Rightarrow> block list" where
  "insert_list b bs = join_prev (takeWhile (\<lambda>c. fst c < fst b) bs) (join_next b (dropWhile (\<lambda>c. fst c < fst b) bs))"

definition head_ptr :: "block list \<Rightarrow> ptr" where
  "head_ptr bs = (case bs of [] \<Rightarrow> NULL | b # _ \<Rightarrow> fst b)"

lemma chain_head: "chain m p bs \<Longrightarrow> p = head_ptr bs"
  by (cases bs) (auto simp: head_ptr_def)

lemma find_pos_spec:
  "chain m p bs \<Longrightarrow> find_pos m blk l p = Some (link_after l (takeWhile (\<lambda>c. fst c < blk) bs),
     head_ptr (dropWhile (\<lambda>c. fst c < blk) bs))"
proof (induction bs arbitrary: l p)
  case Nil
  then show ?case by (simp add: find_pos.simps [of m blk l] link_after_def head_ptr_def)
next
  case (Cons b bs)
  then show ?case
    by (auto simp: find_pos.simps [of m blk l] link_after_Cons) (auto simp: link_after_def head_ptr_def)
qed

text \<open>A block that shares no byte with the list fits between its neighbours.\<close>

definition apart :: "block \<Rightarrow> block list \<Rightarrow> bool" where
  "apart b bs \<longleftrightarrow> block_bytes b \<inter> list_bytes bs = {}"

lemma block_bytes_apart:
  assumes "block_ok a" "block_ok b" "block_bytes a \<inter> block_bytes b = {}"
  shows "blk_end a \<le> unat (fst b) \<or> blk_end b \<le> unat (fst a)"
proof (rule ccontr)
  assume "\<not> ?thesis"
  then have "max (unat (fst a)) (unat (fst b)) \<in> block_bytes a \<inter> block_bytes b"
    using assms(1,2) by (auto simp: block_bytes_def block_ok_def)
  with assms(3) show False by simp
qed

lemma insert_position:
  assumes ok: "blocks_ok lo bs" and b: "block_ok b" "apart b bs" and lo: "lo < unat (fst b)"
  defines "pre \<equiv> takeWhile (\<lambda>c. fst c < fst b) bs" and "post \<equiv> dropWhile (\<lambda>c. fst c < fst b) bs"
  shows "bs = pre @ post" and "pre \<noteq> [] \<Longrightarrow> blk_end (last pre) \<le> unat (fst b)"
    and "post \<noteq> [] \<Longrightarrow> blk_end b \<le> unat (fst (hd post))" and "\<forall>c \<in> set bs. fst c \<noteq> fst b"
proof -
  show bs: "bs = pre @ post" by (simp add: pre_def post_def)
  have dis: "blk_end c \<le> unat (fst b) \<or> blk_end b \<le> unat (fst c)" if "c \<in> set bs" for c
  proof (rule block_bytes_apart)
    show "block_ok c" using blocks_ok_mem [OF ok that] by simp
    show "block_bytes c \<inter> block_bytes b = {}"
      using b(2) list_bytes_mem [OF that] by (auto simp: apart_def)
  qed (rule b(1))
  have pos: "0 < unat (snd b)" "c \<in> set bs \<Longrightarrow> 0 < unat (snd c)" for c
    using b(1) blocks_ok_mem [OF ok] by (auto simp: block_ok_def)
  show "\<forall>c \<in> set bs. fst c \<noteq> fst b" using dis pos by fastforce
  show "blk_end (last pre) \<le> unat (fst b)" if "pre \<noteq> []"
  proof -
    have "last pre \<in> set pre" using that by simp
    then have "fst (last pre) < fst b" "last pre \<in> set bs"
      using set_takeWhileD unfolding pre_def by metis+
    then show ?thesis using dis pos by (fastforce simp: word_less_nat_alt)
  qed
  show "blk_end b \<le> unat (fst (hd post))" if "post \<noteq> []"
  proof -
    have "\<not> fst (hd post) < fst b" using that hd_dropWhile [of "\<lambda>c. fst c < fst b" bs] by (simp add: post_def)
    moreover have "hd post \<in> set bs" using that bs by (metis Un_iff hd_in_set set_append)
    ultimately show ?thesis using dis pos by (fastforce simp: word_less_nat_alt)
  qed
qed

lemma merged_block:
  assumes "block_ok a" "block_ok b" "fst a + snd a = fst b"
  shows "block_ok (fst a, snd a + snd b)" "blk_end (fst a, snd a + snd b) = blk_end b"
    "block_bytes (fst a, snd a + snd b) = block_bytes a \<union> block_bytes b" "blk_end a = unat (fst b)"
proof -
  have e: "blk_end a = unat (fst b)" using unat_blk_end [OF assms(1)] assms(3) by simp
  have u: "unat (snd a + snd b) = unat (snd a) + unat (snd b)"
    using assms(1,2) by (simp add: block_ok_def unat_word_ariths)
  show "blk_end a = unat (fst b)" by (rule e)
  show "blk_end (fst a, snd a + snd b) = blk_end b" using u e by simp
  show "block_ok (fst a, snd a + snd b)" using assms(1,2) u e by (auto simp: block_ok_def)
  show "block_bytes (fst a, snd a + snd b) = block_bytes a \<union> block_bytes b"
    using u e by (auto simp: block_bytes_def)
qed

lemma join_next_ok:
  assumes b: "block_ok b" and post: "blocks_ok l post" "post \<noteq> [] \<Longrightarrow> blk_end b \<le> unat (fst (hd post))" and "l' < unat (fst b)"
  shows "blocks_ok l' (join_next b post) \<and> list_bytes (join_next b post) = block_bytes b \<union> list_bytes post
    \<and> join_next b post \<noteq> [] \<and> fst (hd (join_next b post)) = fst b"
proof (cases post)
  case (Cons c cs)
  then have c: "block_ok c" "blocks_ok (blk_end c) cs" using post by auto
  show ?thesis
  proof (cases "fst b + snd b = fst c")
    case True
    note mb = merged_block [OF b c(1) True]
    show ?thesis using True Cons c assms(4) mb by (simp add: Un_assoc)
  next
    case False
    have "blk_end b \<noteq> unat (fst c)" using False unat_blk_end [OF b] by (metis word_unat_eq_iff)
    then have "blk_end b < unat (fst c)" using post(2) Cons by simp
    then show ?thesis using False Cons b c assms(4) by simp
  qed
qed (use assms in simp)

lemma join_prev_ok:
  assumes pre: "blocks_ok lo pre" "pre \<noteq> [] \<Longrightarrow> blk_end (last pre) \<le> unat (fst (hd bs))"
    and bs: "blocks_ok l bs" "bs \<noteq> []" "lo < unat (fst (hd bs))"
  shows "blocks_ok lo (join_prev pre bs) \<and> list_bytes (join_prev pre bs) = list_bytes pre \<union> list_bytes bs"
proof -
  obtain b cs where c: "bs = b # cs" using bs(2) by (cases bs) auto
  have b: "block_ok b" "blocks_ok (blk_end b) cs" using bs(1) c by auto
  show ?thesis
  proof (cases pre rule: rev_cases)
    case Nil
    then show ?thesis using bs c b by (simp add: join_prev_def)
  next
    case (snoc xs d)
    have d: "block_ok d" "blocks_ok lo xs" "(if xs = [] then lo else blk_end (last xs)) < unat (fst d)"
      using pre(1) snoc by (auto simp: blocks_ok_append)
    show ?thesis
    proof (cases "fst d + snd d = fst b")
      case True
      note mb = merged_block [OF d(1) b(1) True]
      have "join_prev pre bs = xs @ (fst d, snd d + snd b) # cs" using True snoc c by (simp add: join_prev_def)
      then show ?thesis using d b mb snoc c by (auto simp: blocks_ok_append)
    next
      case False
      have "blk_end d \<noteq> unat (fst b)" using False unat_blk_end [OF d(1)] by (metis word_unat_eq_iff)
      then have "blk_end d < unat (fst b)" using pre(2) snoc c by simp
      moreover have "join_prev pre bs = pre @ bs" using False snoc c by (simp add: join_prev_def)
      ultimately show ?thesis using d b snoc c by (auto simp: blocks_ok_append)
    qed
  qed
qed

lemma insert_list_ok:
  assumes ok: "blocks_ok lo bs" and b: "block_ok b" "apart b bs" and lo: "lo < unat (fst b)"
  shows "blocks_ok lo (insert_list b bs) \<and> list_bytes (insert_list b bs) = list_bytes bs \<union> block_bytes b"
proof -
  let ?pre = "takeWhile (\<lambda>c. fst c < fst b) bs" and ?post = "dropWhile (\<lambda>c. fst c < fst b) bs"
  note pos = insert_position [OF ok b lo]
  have sp: "blocks_ok lo ?pre" "blocks_ok (if ?pre = [] then lo else blk_end (last ?pre)) ?post"
    using ok pos(1) blocks_ok_append [of lo ?pre ?post] by simp_all
  have jn: "blocks_ok lo (join_next b ?post)" "list_bytes (join_next b ?post) = block_bytes b \<union> list_bytes ?post"
    "join_next b ?post \<noteq> []" "fst (hd (join_next b ?post)) = fst b"
    using join_next_ok [OF b(1) sp(2) pos(3) lo] by auto
  have "list_bytes bs = list_bytes ?pre \<union> list_bytes ?post"
    by (metis list_bytes_simps(3) takeWhile_dropWhile_id)
  then show ?thesis
    using join_prev_ok [OF sp(1) _ jn(1,3)] jn pos(2) lo unfolding insert_list_def by auto
qed

section \<open>Insertion in memory\<close>

definition headers_ok :: "block list \<Rightarrow> bool" where
  "headers_ok bs \<longleftrightarrow> distinct (map fst bs) \<and> (\<forall>b \<in> set bs. block_ok b)"

lemma fst_notin_image: "(\<forall>c \<in> A. fst c \<noteq> fst a) \<longleftrightarrow> fst a \<notin> fst ` A"
  by (metis image_iff)

lemma headers_ok_middle:
  "headers_ok (xs @ a # ys) \<longleftrightarrow> block_ok a \<and> headers_ok (xs @ ys) \<and> (\<forall>c \<in> set xs \<union> set ys. fst c \<noteq> fst a)"
  unfolding headers_ok_def fst_notin_image by (simp add: ball_Un) blast

lemma blocks_ok_headers: "blocks_ok lo bs \<Longrightarrow> headers_ok bs"
proof (induction bs arbitrary: lo)
  case (Cons b bs)
  then have "\<forall>c \<in> set bs. fst c \<noteq> fst b" using blocks_ok_distinct [of lo "[]" b bs] by simp
  moreover have "headers_ok bs" using Cons by auto
  ultimately show ?case using Cons.prems by (auto simp: headers_ok_def)
qed (simp add: headers_ok_def)

lemma merge_in_memory:
  assumes ch: "chain m p (xs @ a # b # ys)" and h: "headers_ok (xs @ a # b # ys)" and S: "block_bytes a \<subseteq> S"
  shows "let m1 = set_blk_size (fst a) (blk_size m (fst a) + blk_size m (fst b)) m;
             m2 = set_blk_next (fst a) (blk_next m1 (fst b)) m1
     in chain m2 p (xs @ (fst a, snd a + snd b) # ys) \<and> same_outside S m m2"
proof -
  have a: "block_ok a" "\<forall>c \<in> set (xs @ b # ys). fst c \<noteq> fst a" "headers_ok (xs @ b # ys)"
    using h headers_ok_middle [of xs a "b # ys"] by auto
  have ob: "block_ok b" "fst a \<noteq> fst b" using a headers_ok_middle [of xs b ys] by auto
  have oxs: "\<forall>c \<in> set xs. block_ok c \<and> fst c \<noteq> fst a" and oys: "\<forall>c \<in> set ys. block_ok c \<and> fst c \<noteq> fst a"
    using h a by (auto simp: headers_ok_def)
  note cs = chain_split [OF ch]
  have cb: "blk_size m (fst b) = snd b" "blk_next m (fst a) = fst b" "chain m (blk_next m (fst b)) ys"
    using cs(4) by auto
  define m1 where "m1 = set_blk_size (fst a) (blk_size m (fst a) + blk_size m (fst b)) m"
  define m2 where "m2 = set_blk_next (fst a) (blk_next m1 (fst b)) m1"
  have n1: "blk_next m1 (fst b) = blk_next m (fst b)" unfolding m1_def by (rule header_store(2) [OF a(1) ob])
  have "reach m2 p xs (fst a)" using cs(1) reach_store [OF a(1) oxs] by (simp add: m2_def m1_def)
  moreover have "chain m2 (blk_next m (fst b)) ys" using cb(3) chain_store [OF a(1) oys] by (simp add: m2_def m1_def)
  moreover have "blk_size m2 (fst a) = snd a + snd b" "blk_next m2 (fst a) = blk_next m (fst b)"
    using header_store_same [OF a(1)] cs(3) cb(1) n1 by (simp_all add: m2_def) (simp add: m1_def)
  ultimately have "chain m2 p (xs @ (fst a, snd a + snd b) # ys)"
    using cs(2) by (intro chain_join) simp_all
  moreover have "same_outside S m m2"
    using same_outside_store [OF a(1) S] unfolding m2_def m1_def by (blast intro: same_outside_trans)
  ultimately show ?thesis unfolding m2_def m1_def Let_def by blast
qed

lemma coalesce_next_refines:
  assumes ch: "chain m p (pre @ b # post)" and h: "headers_ok (pre @ b # post)" and S: "block_bytes b \<subseteq> S"
  shows "chain (coalesce_next (fst b) (head_ptr post) m) p (pre @ join_next b post)
    \<and> same_outside S m (coalesce_next (fst b) (head_ptr post) m)"
proof (cases post)
  case Nil
  then show ?thesis using ch by (simp add: coalesce_next_def head_ptr_def)
next
  case (Cons c cs)
  have sz: "blk_size m (fst b) = snd b" "fst c \<noteq> NULL"
    using ch Cons by (auto simp: chain_append)
  show ?thesis
  proof (cases "fst b + snd b = fst c")
    case True
    then show ?thesis
      using merge_in_memory [OF ch [unfolded Cons] h [unfolded Cons] S] sz Cons
      by (simp add: coalesce_next_def head_ptr_def Let_def)
  next
    case False
    then show ?thesis using ch sz Cons by (simp add: coalesce_next_def head_ptr_def)
  qed
qed

lemma coalesce_prev_refines:
  assumes ch: "chain m p (pre @ bs)" and h: "headers_ok (pre @ bs)" and ne: "bs \<noteq> []" "fst (hd bs) = blk"
    and S: "list_bytes pre \<subseteq> S"
  shows "chain (coalesce_prev (link_after Head pre) blk m) p (join_prev pre bs)
    \<and> same_outside S m (coalesce_prev (link_after Head pre) blk m)"
proof -
  obtain b cs where c: "bs = b # cs" "fst b = blk" using ne by (cases bs) auto
  show ?thesis
  proof (cases pre rule: rev_cases)
    case Nil
    then show ?thesis using ch by (simp add: coalesce_prev_def link_after_def join_prev_def)
  next
    case (snoc xs d)
    have ch': "chain m p (xs @ d # b # cs)" and h': "headers_ok (xs @ d # b # cs)" using ch h snoc c by simp_all
    have sz: "blk_size m (fst d) = snd d" using ch' by (auto simp: chain_append)
    have l: "link_after Head pre = NextOf (fst d)" using snoc by (simp add: link_after_def)
    have S': "block_bytes d \<subseteq> S" using S snoc by simp
    show ?thesis
    proof (cases "fst d + snd d = fst b")
      case True
      then show ?thesis
        using merge_in_memory [OF ch' h' S'] sz snoc c l by (simp add: coalesce_prev_def join_prev_def Let_def)
    next
      case False
      then show ?thesis using ch sz snoc c l by (simp add: coalesce_prev_def join_prev_def)
    qed
  qed
qed

lemma coalesce_prev_keeps:
  assumes "\<forall>c \<in> set pre. block_ok c \<and> fst c \<noteq> fst b" and "block_ok b"
  shows "blk_next (coalesce_prev (link_after Head pre) blk m) (fst b) = blk_next m (fst b)"
    "blk_size (coalesce_prev (link_after Head pre) blk m) (fst b) = blk_size m (fst b)"
proof -
  have "last pre \<in> set pre" if "pre \<noteq> []" using that by simp
  then show "blk_next (coalesce_prev (link_after Head pre) blk m) (fst b) = blk_next m (fst b)"
    "blk_size (coalesce_prev (link_after Head pre) blk m) (fst b) = blk_size m (fst b)"
    using assms header_store [of "last pre" b]
    by (auto simp: coalesce_prev_def link_after_def Let_def split: link.split)
qed

lemma insert_block_refines:
  assumes ch: "chain m p bs" and ok: "blocks_ok lo bs" and b: "block_ok b" "apart b bs" "lo < unat (fst b)"
    and sz: "blk_size m (fst b) = snd b"
  shows "\<exists>m' p'. insert_block (fst b) (m, p) = Some (m', p') \<and> chain m' p' (insert_list b bs)
    \<and> same_outside (list_bytes bs \<union> block_bytes b) m m'
    \<and> unat (blk_next m' (fst b)) \<le> 2 ^ 52 \<and> unat (blk_size m' (fst b)) \<le> 2 ^ 52"
proof -
  let ?S = "list_bytes bs \<union> block_bytes b"
  define pre post where "pre = takeWhile (\<lambda>c. fst c < fst b) bs" and "post = dropWhile (\<lambda>c. fst c < fst b) bs"
  note pos = insert_position [OF ok b, folded pre_def post_def]
  have find: "find_pos m (fst b) Head p = Some (link_after Head pre, head_ptr post)"
    using find_pos_spec [OF ch] by (simp add: pre_def post_def)
  obtain q where q: "reach m p pre q" "chain m q post" using ch unfolding pos(1) chain_append by blast
  have hq: "head_ptr post = q" using chain_head [OF q(2)] by simp
  have okpre: "blocks_ok lo pre" using ok pos(1) by (simp add: blocks_ok_append)
  have hbs: "headers_ok (pre @ post)" using blocks_ok_headers [OF ok] pos(1) by simp
  have h: "headers_ok (pre @ b # post)"
    using hbs b(1) pos(1,4) by (auto simp: headers_ok_middle)
  have opre: "\<forall>c \<in> set pre. block_ok c \<and> fst c \<noteq> fst b" and opost: "\<forall>c \<in> set post. block_ok c \<and> fst c \<noteq> fst b"
    using hbs pos(1,4) by (auto simp: headers_ok_def)
  have subs: "list_bytes pre \<subseteq> ?S" "block_bytes b \<subseteq> ?S" by (auto simp: pos(1))
  define m1 where "m1 = set_blk_next (fst b) q m"
  have m1: "reach m1 p pre q" "chain m1 q post" "blk_next m1 (fst b) = q" "blk_size m1 (fst b) = snd b"
    using q reach_store(2) [OF b(1) opre] chain_store(2) [OF b(1) opost] header_store_same [OF b(1)] sz
    by (auto simp: m1_def)
  have "\<forall>x \<in> set (b # post). block_ok x \<and> (\<forall>c \<in> set pre. fst c \<noteq> fst x)"
    using b(1) opre opost blocks_ok_apart [of lo pre post] ok pos(1) by auto
  then obtain m2 p2 where l: "set_link (link_after Head pre) (fst b) (m1, p) = (m2, p2)" "reach m2 p2 pre (fst b)"
    "same_outside ?S m1 m2"
    "\<And>x. x \<in> set (b # post) \<Longrightarrow> blk_size m2 (fst x) = blk_size m1 (fst x) \<and> blk_next m2 (fst x) = blk_next m1 (fst x)"
    by (rule reach_set_link' [OF m1(1) okpre subs(1)]) (rule that)
  have "chain m2 q post" using l(4) m1(2) by (subst chain_cong [of post m2 m1]) auto
  moreover have "fst b \<noteq> NULL" using b(3) by auto
  ultimately have c2: "chain m2 p2 (pre @ b # post)"
    using l(2) l(4) [of b] m1(3,4) by (intro chain_join) simp_all
  define m3 where "m3 = coalesce_next (fst b) q m2"
  have c3: "chain m3 p2 (pre @ join_next b post)" "same_outside ?S m2 m3"
    using coalesce_next_refines [OF c2 h subs(2)] hq by (simp_all add: m3_def)
  have lpost: "blocks_ok (if pre = [] then lo else blk_end (last pre)) post"
    using ok pos(1) blocks_ok_append [of lo pre post] by simp
  have jn: "join_next b post \<noteq> []" "fst (hd (join_next b post)) = fst b" "blocks_ok lo (join_next b post)"
    using join_next_ok [OF b(1) lpost pos(3) b(3)] by simp_all
  have hj: "headers_ok (pre @ join_next b post)"
  proof -
    have "fst ` set (join_next b post) \<subseteq> insert (fst b) (fst ` set post)" "distinct (map fst (join_next b post))"
      "\<forall>x \<in> set (join_next b post). block_ok x"
      using blocks_ok_headers [OF jn(3)] by (cases post; auto simp: headers_ok_def)+
    moreover have "fst ` set pre \<inter> insert (fst b) (fst ` set post) = {}" "distinct (map fst pre)" "\<forall>x \<in> set pre. block_ok x"
      using h by (simp_all add: headers_ok_def)
    moreover from calculation have "fst ` set pre \<inter> fst ` set (join_next b post) = {}" by blast
    ultimately show ?thesis by (simp add: headers_ok_def ball_Un)
  qed
  define m4 where "m4 = coalesce_prev (link_after Head pre) (fst b) m3"
  have c4: "chain m4 p2 (insert_list b bs)" "same_outside ?S m3 m4"
    using coalesce_prev_refines [OF c3(1) hj jn(1,2) subs(1)]
    by (simp_all add: m4_def insert_list_def pre_def post_def)
  obtain t cs where t: "join_next b post = (fst b, t) # cs"
    using jn(1,2) by (cases "join_next b post") auto
  have "blk_next m3 (fst b) = head_ptr cs" "blk_size m3 (fst b) = t"
    using c3(1) chain_head by (auto simp: t chain_append)
  moreover have "blk_next m4 (fst b) = blk_next m3 (fst b)" "blk_size m4 (fst b) = blk_size m3 (fst b)"
    using coalesce_prev_keeps [of pre b "fst b" m3] opre b(1) by (simp_all add: m4_def)
  moreover have "unat (head_ptr cs) \<le> 2 ^ 52" "unat t \<le> 2 ^ 52"
    using hj by (auto simp: t headers_ok_def head_ptr_def block_ok_def split: list.split)
  ultimately have fresh: "unat (blk_next m4 (fst b)) \<le> 2 ^ 52" "unat (blk_size m4 (fst b)) \<le> 2 ^ 52" by simp_all
  have "same_outside ?S m m1" using same_outside_store(2) [OF b(1) subs(2)] by (simp add: m1_def)
  then have "same_outside ?S m m4" using l(3) c3(2) c4(2) by (meson same_outside_trans)
  moreover have "insert_block (fst b) (m, p) = Some (m4, p2)"
    using find hq l(1) by (simp add: insert_block_def m4_def m3_def m1_def)
  ultimately show ?thesis using c4(1) fresh by blast
qed

section \<open>The heap invariant\<close>

text \<open>
  \<open>heap_rep s bs\<close>: the page allocator is in order, the heap lock is free, \<open>bs\<close> is the free
  list, and no page of a free block is free in the page allocator as well.
\<close>

definition heap_rep :: "'a heap_scheme \<Rightarrow> block list \<Rightarrow> bool" where [inv_defs]:
  "heap_rep s bs \<longleftrightarrow> pmm_inv s \<and> lock (heap_lock s) = 0 \<and> chain (memory s) (free_list s) bs \<and> blocks_ok 0 bs
     \<and> (\<forall>x \<in> list_bytes bs. x div 4096 \<notin> free_set s)"

text \<open>The bytes of the pages that are free in the page allocator.\<close>

definition pmm_bytes :: "'a pmm_scheme \<Rightarrow> nat set" where
  "pmm_bytes s = {x. x div 4096 \<in> free_set s}"

lemma heap_more:
  assumes "pmm.more s' = pmm.more (s :: 'a heap_scheme)"
  shows "memory s' = memory s" "heap_lock s' = heap_lock s" "free_list s' = free_list s"
    "heap_start s' = heap_start s" "heap_end s' = heap_end s"
  using assms by (cases s; cases s'; simp)+

lemma page_in_block: 
  assumes "aligned 4096 b" "x \<in> {unat b..<unat b + n * 4096}"
  shows "x div 4096 \<in> {page_of b..<page_of b + n}"
proof -
  obtain k where "unat b = k * 4096" using assms(1) by (auto simp: aligned_def mult.commute)
  then show ?thesis using assms(2) by (auto simp: page_of_def div_less_iff_less_mult less_eq_div_iff_mult_less_eq)
qed

lemma grow_loop_spec:
  assumes inv: "pmm_inv s" and b: "aligned 4096 b" "unat b + unat got * 4096 \<le> 2 ^ 33"
  shows "\<exists>got' s'. grow_loop n b got s = Some (got', s') \<and> pmm_inv s' \<and> unat got \<le> unat got'
    \<and> unat b + unat got' * 4096 \<le> 2 ^ 33 \<and> pmm.more s' = pmm.more s \<and> rflags s' = rflags s
    \<and> free_set s' = free_set s - {page_of b + unat got..<page_of b + unat got'}
    \<and> {page_of b + unat got..<page_of b + unat got'} \<subseteq> free_set s"
  using inv b(2)
proof (induction n arbitrary: s got)
  case 0
  then show ?case by auto
next
  case (Suc n)
  show ?case
  proof (rule pmm_alloc_page_cases [OF Suc.prems(1)])
    assume "pmm_alloc_page s = Some (NULL, unlocked s)" "pmm_inv (unlocked s)"
    then show ?thesis using Suc.prems(2) by (auto simp: free_set_def)
  next
    fix p s1
    assume 1: "pmm_alloc_page s = Some (p, s1)" "pmm_inv s1" "p \<noteq> NULL" "aligned 4096 p" "page_of p \<in> allocatable s"
      "free_set s1 = free_set s - {page_of p}" "rflags s1 = rflags s" "total_pages s1 = total_pages s"
      "pmm.more s1 = pmm.more s" "unat p < 2 ^ 32"
    have pf: "page_of p \<in> free_set s" using 1(5) by (simp add: allocatable_def free_set_def)
    then have pr: "page_of p \<noteq> 0" "page_of p < unat (total_pages s1)"
      using Suc.prems(1) 1(8) by (auto simp: pmm_inv_def free_set_def)
    show ?thesis
    proof (cases "p = b + got * PAGE_SIZE")
      case False
      obtain s2 where "pmm_free_page p s1 = Some s2" "pmm_inv s2" "free_set s2 = insert (page_of p) (free_set s1)"
        "rflags s2 = rflags s1" "pmm.more s2 = pmm.more s1"
        using pmm_free_page_spec [OF 1(2) pr] by blast
      then show ?thesis using False 1 pf Suc.prems(2) by (auto simp: insert_absorb)
    next
      case True
      have g: "unat (got * PAGE_SIZE) = unat got * 4096" "unat (got + 1) = unat got + 1"
        using Suc.prems(2) by (simp_all add: unat_word_ariths)
      then have up: "unat p = unat b + unat got * 4096"
        using True Suc.prems(2) by (simp add: unat_word_ariths)
      then have pp: "page_of p = page_of b + unat got" by (simp add: page_of_def)
      have "unat b + unat (got + 1) * 4096 \<le> 2 ^ 33" using up g(2) 1(10) by simp
      from Suc.IH [OF 1(2) this] obtain got' s' where 2: "grow_loop n b (got + 1) s1 = Some (got', s')" "pmm_inv s'"
        "unat (got + 1) \<le> unat got'" "unat b + unat got' * 4096 \<le> 2 ^ 33" "pmm.more s' = pmm.more s1" "rflags s' = rflags s1"
        "free_set s' = free_set s1 - {page_of b + unat (got + 1)..<page_of b + unat got'}"
        "{page_of b + unat (got + 1)..<page_of b + unat got'} \<subseteq> free_set s1" by blast
      have "{page_of b + unat got..<page_of b + unat got'} = insert (page_of p) {page_of b + unat (got + 1)..<page_of b + unat got'}"
        using 2(3) g(2) pp by auto
      then have "free_set s' = free_set s - {page_of b + unat got..<page_of b + unat got'}"
        "{page_of b + unat got..<page_of b + unat got'} \<subseteq> free_set s"
        using 2(7,8) 1(6) pf by auto
      then show ?thesis using True 1 2 g(2) by auto
    qed
  qed
qed

lemma needed_bytes_ok:
  assumes "0 < unat sz" "unat sz \<le> 2 ^ 62"
  shows "16 dvd unat (needed_bytes sz)" "0 < unat (needed_bytes sz)" "unat (needed_bytes sz) \<le> 2 ^ 63"
    "unat sz + 16 \<le> unat (needed_bytes sz)"
proof -
  have "unat (sz + 15) = unat sz + 15" using assms(2) by (simp add: unat_word_ariths)
  then have a: "unat ((sz + 15) AND - 16) = (unat sz + 15) div 16 * 16"
    using unat_align_down(2) [of "sz + 15"] by simp
  then have n: "unat (((sz + 15) AND - 16) + 16) = (unat sz + 15) div 16 * 16 + 16"
    using assms(2) by (simp add: unat_word_ariths)
  have "\<not> ((sz + 15) AND - 16) + 16 < 16" using n by (simp add: word_less_nat_alt)
  then have "unat (needed_bytes sz) = (unat sz + 15) div 16 * 16 + 16"
    using n by (simp add: needed_bytes_def)
  then show "16 dvd unat (needed_bytes sz)" "0 < unat (needed_bytes sz)" "unat (needed_bytes sz) \<le> 2 ^ 63"
    "unat sz + 16 \<le> unat (needed_bytes sz)"
    using assms(2) by auto
qed

text \<open>What a caller of \<open>kmalloc\<close> gets: a block that belonged to no one.\<close>

definition owns :: "'a heap_scheme \<Rightarrow> block list \<Rightarrow> block \<Rightarrow> bool" where
  "owns s bs b \<longleftrightarrow> block_ok b \<and> 0 < unat (fst b) \<and> apart b bs
     \<and> load64 (memory s) (fst b) = snd b \<and> load64 (memory s) (fst b + 8) = HEAP_CANARY (snd b)
     \<and> (\<forall>x \<in> block_bytes b. x div 4096 \<notin> free_set s)"

lemma heap_acquire_free:
  "lock (heap_lock s) = 0 \<Longrightarrow>
   heap_acquire s = Some (s\<lparr>rflags := cli (rflags s), heap_lock := (heap_lock s)\<lparr>lock := 1, saved_flags := rflags s\<rparr>\<rparr>)"
  by (simp add: heap_acquire_def)

definition heap_unlocked :: "'a heap_scheme \<Rightarrow> 'a heap_scheme" where
  "heap_unlocked s = s\<lparr>heap_lock := (heap_lock s)\<lparr>saved_flags := rflags s, lock := 0\<rparr>\<rparr>"

lemmas heap_critical = heap_acquire_free heap_release_def spin_unlock_def heap_unlocked_def set_heap_def

lemma heap_rep_cong:
  assumes "pmm_inv s'" "free_set s' = free_set s" "lock (heap_lock s') = 0" "memory s' = memory s" "free_list s' = free_list s"
  shows "heap_rep s bs \<Longrightarrow> heap_rep s' bs"
  using assms by (simp add: heap_rep_def)

text \<open>One attempt at the level of the whole state.\<close>

lemma attempt:
  assumes ch: "chain m p bs" and ok: "blocks_ok 0 bs" and n: "16 dvd unat needed" "0 < unat needed" "unat needed \<le> 2 ^ 63"
  obtains (none) "try_alloc needed (m, p) = Some (NULL, m, p)" "\<forall>b \<in> set bs. snd b < needed"
  | (some) b bs' m' p' where "try_alloc needed (m, p) = Some (fst b + HEADER_SIZE, m', p')" "fst b + HEADER_SIZE \<noteq> NULL"
    "chain m' p' bs'" "blocks_ok 0 bs'"
    "block_ok b" "needed \<le> snd b" "0 < unat (fst b)" "list_bytes bs = block_bytes b \<union> list_bytes bs'" "apart b bs'"
    "load64 m' (fst b) = snd b" "load64 m' (fst b + 8) = HEAP_CANARY (snd b)" "same_outside (list_bytes bs) m m'"
proof (cases "alloc_list needed bs")
  case None
  then have "\<forall>b \<in> set bs. snd b < needed"
    using first_fit_None [of needed bs] by (auto simp: alloc_list_def split: option.splits if_splits)
  then show ?thesis using none try_alloc_none [OF ch None] by blast
next
  case (Some r)
  obtain b bs' where r: "r = (b, bs')" by (cases r)
  note al = alloc_list_ok [OF ok Some [unfolded r] n]
  obtain m' p' where t: "try_alloc needed (m, p) = Some (fst b + HEADER_SIZE, m', p')" "chain m' p' bs'"
    "load64 m' (fst b) = snd b" "load64 m' (fst b + 8) = HEAP_CANARY (snd b)" "same_outside (list_bytes bs) m m'"
    using try_alloc_some [OF ch ok Some [unfolded r] n] by blast
  have "unat (fst b) \<le> 2 ^ 52" using al by (simp add: block_ok_def)
  then have "unat (fst b + 16) \<noteq> 0" by (simp add: unat_word_ariths)
  then have "fst b + HEADER_SIZE \<noteq> NULL" by (metis unat_0)
  then show ?thesis using some [OF t(1) _ t(2)] t al by (simp add: apart_def)
qed

lemma new_region_block:
  assumes "aligned 4096 b" "0 < unat b" "0 < unat got" "unat b + unat got * 4096 \<le> 2 ^ 33"
  shows "block_ok (b, got * PAGE_SIZE)" "blk_end (b, got * PAGE_SIZE) = unat b + unat got * 4096"
proof -
  have u: "unat (got * PAGE_SIZE) = unat got * 4096" using assms(4) by (simp add: unat_word_ariths)
  have "16 dvd unat b" using assms(1) dvd_trans [of 16 4096 "unat b"] by (simp add: aligned_def)
  then show "block_ok (b, got * PAGE_SIZE)" using u assms by (simp add: block_ok_def)
  show "blk_end (b, got * PAGE_SIZE) = unat b + unat got * 4096" using u by simp
qed

lemma pmm_region_cases:
  assumes inv: "pmm_inv u" and own: "\<forall>x \<in> list_bytes bs. x div 4096 \<notin> free_set u"
  obtains (oom) s1 where "pmm_alloc_page u = Some (NULL, s1)" "pmm_inv s1" "free_set s1 = free_set u"
      "pmm.more s1 = pmm.more u" "rflags s1 = rflags u"
  | (region) b s1 got s2 where "pmm_alloc_page u = Some (b, s1)" "b \<noteq> NULL" "grow_loop k b 1 s1 = Some (got, s2)"
      "pmm_inv s2" "pmm.more s2 = pmm.more u" "rflags s2 = rflags u" "free_set s2 \<subseteq> free_set u" "0 < unat b"
      "block_ok (b, got * PAGE_SIZE)" "apart (b, got * PAGE_SIZE) bs"
      "block_bytes (b, got * PAGE_SIZE) \<subseteq> pmm_bytes u" "\<forall>x \<in> block_bytes (b, got * PAGE_SIZE). x div 4096 \<notin> free_set s2"
proof (rule pmm_alloc_page_cases [OF inv])
  assume "pmm_alloc_page u = Some (NULL, unlocked u)" "pmm_inv (unlocked u)" "free_set (unlocked u) = free_set u"
  then show ?thesis by (rule oom) simp_all
next
  fix b s1
  assume 1: "pmm_alloc_page u = Some (b, s1)" "pmm_inv s1" "b \<noteq> NULL" "aligned 4096 b" "page_of b \<in> allocatable u"
    "free_set s1 = free_set u - {page_of b}" "rflags s1 = rflags u" "pmm.more s1 = pmm.more u" "unat b < 2 ^ 32"
  have b1: "unat b + unat (1 :: u64) * 4096 \<le> 2 ^ 33" using 1(9) by simp
  obtain got s2 where 2: "grow_loop k b 1 s1 = Some (got, s2)" "pmm_inv s2" "1 \<le> unat got"
    "unat b + unat got * 4096 \<le> 2 ^ 33" "pmm.more s2 = pmm.more s1" "rflags s2 = rflags s1"
    "free_set s2 = free_set s1 - {page_of b + 1..<page_of b + unat got}"
    "{page_of b + 1..<page_of b + unat got} \<subseteq> free_set s1"
    using grow_loop_spec [OF 1(2,4) b1, of k] unfolding unat_1 by blast
  have bpos: "0 < unat b" using 1(3) by (simp add: unat_eq_0 [symmetric])
  let ?nb = "(b, got * PAGE_SIZE)"
  have nb: "block_ok ?nb" "blk_end ?nb = unat b + unat got * 4096"
    using new_region_block [OF 1(4) bpos _ 2(4)] 2(3) by auto
  have pgs: "{page_of b..<page_of b + unat got} = insert (page_of b) {page_of b + 1..<page_of b + unat got}"
    using 2(3) by auto
  have "page_of b \<in> free_set u" using 1(5) by (simp add: allocatable_def free_set_def)
  then have fs: "{page_of b..<page_of b + unat got} \<subseteq> free_set u" "free_set s2 = free_set u - {page_of b..<page_of b + unat got}"
    using 2(7,8) 1(6) pgs by auto
  have pin: "x div 4096 \<in> {page_of b..<page_of b + unat got}" if "x \<in> block_bytes ?nb" for x
    using page_in_block [OF 1(4), of x "unat got"] that nb(2) by (simp add: block_bytes_def)
  have nbS: "block_bytes ?nb \<subseteq> pmm_bytes u" using pin fs(1) by (auto simp: pmm_bytes_def)
  show ?thesis
  proof (rule region [OF 1(1,3) 2(1,2) _ _ _ bpos nb(1) _ nbS])
    show "apart ?nb bs" using nbS own by (auto simp: apart_def pmm_bytes_def)
    show "\<forall>x \<in> block_bytes ?nb. x div 4096 \<notin> free_set s2" using pin fs(2) by blast
  qed (use 2(5,6) 1(7,8) fs(2) in auto)
qed

text \<open>
  \<open>malloc_post s bs sz p s' bs'\<close>: what \<open>kmalloc\<close> with result \<open>p\<close> has done between \<open>s\<close> and
  \<open>s'\<close>.  It wrote only to bytes that were free, in the heap or in the page allocator, and
  either found nothing (\<open>NULL\<close>, and no free block was large enough) or hands out a block
  that is large enough, carries a valid header and overlaps nothing that is still free.
\<close>

definition malloc_post :: "'a heap_scheme \<Rightarrow> block list \<Rightarrow> u64 \<Rightarrow> ptr \<Rightarrow> 'a heap_scheme \<Rightarrow> block list \<Rightarrow> bool" where
  "malloc_post s bs sz p s' bs' \<longleftrightarrow> heap_rep s' bs' \<and> rflags s' = rflags s
    \<and> same_outside (list_bytes bs \<union> pmm_bytes s) (memory s) (memory s')
    \<and> list_bytes bs' \<subseteq> list_bytes bs \<union> pmm_bytes s
    \<and> (if p = NULL then \<forall>b \<in> set bs. snd b < needed_bytes sz
       else \<exists>b. p = fst b + HEADER_SIZE \<and> owns s' bs' b \<and> unat sz + 16 \<le> unat (snd b)
              \<and> block_bytes b \<subseteq> list_bytes bs \<union> pmm_bytes s)"

lemma malloc_post_block:
  assumes "heap_rep s' bs'" "rflags s' = rflags s" "same_outside (list_bytes bs \<union> pmm_bytes s) (memory s) (memory s')"
    "list_bytes bs' \<subseteq> list_bytes bs \<union> pmm_bytes s" "owns s' bs' b" "unat sz + 16 \<le> unat (snd b)"
    "block_bytes b \<subseteq> list_bytes bs \<union> pmm_bytes s" "fst b + HEADER_SIZE \<noteq> NULL"
  shows "malloc_post s bs sz (fst b + HEADER_SIZE) s' bs'"
  using assms unfolding malloc_post_def by (simp only: if_False) blast

lemma heap_unlocked_rep:
  assumes "heap_rep s bs" "chain m' p' bs'" "blocks_ok 0 bs'" "list_bytes bs' \<subseteq> list_bytes bs"
  shows "heap_rep (heap_unlocked (s\<lparr>memory := m', free_list := p'\<rparr>)) bs'"
  using assms by (auto simp: heap_rep_def heap_unlocked_def pmm_inv_def free_set_def)

lemma kmalloc_hit:
  assumes rep: "heap_rep s bs" and sz: "0 < unat sz" "unat sz \<le> 2 ^ 62"
    and t: "try_alloc (needed_bytes sz) (memory s, free_list s) = Some (fst b + HEADER_SIZE, m', p')" "fst b + HEADER_SIZE \<noteq> NULL"
      "chain m' p' bs'" "blocks_ok 0 bs'" "block_ok b" "needed_bytes sz \<le> snd b" "0 < unat (fst b)"
      "list_bytes bs = block_bytes b \<union> list_bytes bs'" "apart b bs'"
      "load64 m' (fst b) = snd b" "load64 m' (fst b + 8) = HEAP_CANARY (snd b)" "same_outside (list_bytes bs) (memory s) m'"
  shows "\<exists>p s' bs'. kmalloc sz s = Some (p, s') \<and> malloc_post s bs sz p s' bs'"
proof -
  let ?s = "heap_unlocked (s\<lparr>memory := m', free_list := p'\<rparr>)"
  have "sz \<noteq> 0" using sz(1) by auto
  then have run: "kmalloc sz s = Some (fst b + HEADER_SIZE, ?s)"
    using t(1,2) rep by (simp add: kmalloc_def heap_rep_def heap_critical)
  have "heap_rep ?s bs'" using heap_unlocked_rep [OF rep t(3,4)] t(8) by simp
  moreover have "owns ?s bs' b"
    using rep t by (auto simp: heap_rep_def owns_def heap_unlocked_def free_set_def)
  moreover have "unat sz + 16 \<le> unat (snd b)" using needed_bytes_ok(4) [OF sz] t(6) by (simp add: word_le_nat_alt)
  moreover have "same_outside (list_bytes bs \<union> pmm_bytes s) (memory s) m'" using t(12) by (rule same_outside_mono) simp
  ultimately have "malloc_post s bs sz (fst b + HEADER_SIZE) ?s bs'"
    using t(2,8) by (intro malloc_post_block) (auto simp: heap_unlocked_def)
  then show ?thesis using run by blast
qed

text \<open>After growth: the new region is in the list, and the second attempt runs.\<close>

lemma kmalloc_grown:
  assumes rep: "heap_rep s bs" and sz: "0 < unat sz" "unat sz \<le> 2 ^ 62" and small: "\<forall>b \<in> set bs. snd b < needed_bytes sz"
    and run: "kmalloc sz s = try_alloc (needed_bytes sz) (m1, p1) \<bind> (\<lambda>(p, h). Some (p, heap_release (set_heap h s3)))"
    and new: "chain m1 p1 bs1" "blocks_ok 0 bs1" "list_bytes bs1 \<subseteq> list_bytes bs \<union> pmm_bytes s"
      "same_outside (list_bytes bs \<union> pmm_bytes s) (memory s) m1" "\<forall>x \<in> list_bytes bs1. x div 4096 \<notin> free_set s3"
    and s3: "pmm_inv s3" "saved_flags (heap_lock s3) = rflags s"
  shows "\<exists>p s' bs'. kmalloc sz s = Some (p, s') \<and> malloc_post s bs sz p s' bs'"
proof -
  let ?S = "list_bytes bs \<union> pmm_bytes s"
  let ?r = "\<lambda>h. heap_release (set_heap h s3)"
  have r: "memory (?r (m', p')) = m'" "rflags (?r (m', p')) = rflags s" "free_set (?r (m', p')) = free_set s3" for m' p'
    using s3(2) by (simp_all add: heap_release_def set_heap_def spin_unlock_def free_set_def)
  have rep': "heap_rep (?r (m', p')) bs'" if "chain m' p' bs'" "blocks_ok 0 bs'" "list_bytes bs' \<subseteq> list_bytes bs1" for m' p' bs'
    using that s3(1) new(5)
    by (auto simp: heap_rep_def heap_release_def set_heap_def spin_unlock_def pmm_inv_def free_set_def)
  show ?thesis
  proof (rule attempt [OF new(1,2) needed_bytes_ok(1,2,3) [OF sz]])
    assume "try_alloc (needed_bytes sz) (m1, p1) = Some (NULL, m1, p1)"
    then have "kmalloc sz s = Some (NULL, ?r (m1, p1))" using run by simp
    moreover have "malloc_post s bs sz NULL (?r (m1, p1)) bs1"
      unfolding malloc_post_def r using rep' [OF new(1,2)] new(3,4) small by simp
    ultimately show ?thesis by blast
  next
    fix c bs' m' p'
    assume t: "try_alloc (needed_bytes sz) (m1, p1) = Some (fst c + HEADER_SIZE, m', p')" "fst c + HEADER_SIZE \<noteq> NULL"
      "chain m' p' bs'" "blocks_ok 0 bs'" "block_ok c" "needed_bytes sz \<le> snd c" "0 < unat (fst c)"
      "list_bytes bs1 = block_bytes c \<union> list_bytes bs'" "apart c bs'"
      "load64 m' (fst c) = snd c" "load64 m' (fst c + 8) = HEAP_CANARY (snd c)" "same_outside (list_bytes bs1) m1 m'"
    have "owns (?r (m', p')) bs' c"
      unfolding owns_def r using t(5,7,8,9,10,11) new(5) by simp
    moreover have "unat sz + 16 \<le> unat (snd c)" using needed_bytes_ok(4) [OF sz] t(6) by (simp add: word_le_nat_alt)
    moreover have "same_outside ?S (memory s) m'"
      using new(4) same_outside_mono [OF t(12) new(3)] by (rule same_outside_trans)
    ultimately have "malloc_post s bs sz (fst c + HEADER_SIZE) (?r (m', p')) bs'"
      using rep' [OF t(3,4)] t(2,8) new(3) by (intro malloc_post_block) (auto simp: r)
    moreover have "kmalloc sz s = Some (fst c + HEADER_SIZE, ?r (m', p'))" using run t(1) by simp
    ultimately show ?thesis by blast
  qed
qed

lemma kmalloc_spec:
  assumes rep: "heap_rep s bs" and sz: "0 < unat sz" "unat sz \<le> 2 ^ 62"
  shows "\<exists>p s' bs'. kmalloc sz s = Some (p, s') \<and> malloc_post s bs sz p s' bs'"
proof -
  have nz: "sz \<noteq> 0" using sz(1) by auto
  have r: "pmm_inv s" "lock (heap_lock s) = 0" "chain (memory s) (free_list s) bs" "blocks_ok 0 bs"
    "\<forall>x \<in> list_bytes bs. x div 4096 \<notin> free_set s" using rep by (auto simp: heap_rep_def)
  let ?k = "let k = (needed_bytes sz + PAGE_SIZE - 1) div PAGE_SIZE in if k < 4 then 4 else k"
  show ?thesis
  proof (rule attempt [OF r(3,4) needed_bytes_ok(1,2,3) [OF sz]])
    assume none: "try_alloc (needed_bytes sz) (memory s, free_list s) = Some (NULL, memory s, free_list s)"
      "\<forall>b \<in> set bs. snd b < needed_bytes sz"
    let ?u = "heap_unlocked s"
    have u: "pmm_inv ?u" "free_set ?u = free_set s" "pmm_bytes ?u = pmm_bytes s" "rflags ?u = rflags s"
      using r(1) by (simp_all add: pmm_inv_def heap_unlocked_def free_set_def pmm_bytes_def)
    show ?thesis
    proof (rule pmm_region_cases [OF u(1) r(5) [folded u(2)], where k = "unat ?k - 1"])
      fix s1 assume oom: "pmm_alloc_page ?u = Some (NULL, s1)" "pmm_inv s1" "free_set s1 = free_set ?u"
        "pmm.more s1 = pmm.more ?u" "rflags s1 = rflags ?u"
      have "kmalloc sz s = Some (NULL, s1)"
        using none(1) nz r(2) oom(1) by (simp add: kmalloc_def heap_critical Let_def)
      moreover have "malloc_post s bs sz NULL s1 bs"
        using oom u r none(2) heap_more [OF oom(4)] by (simp add: malloc_post_def heap_rep_def heap_unlocked_def)
      ultimately show ?thesis by blast
    next
      fix b s1 got s2
      let ?nb = "(b, got * PAGE_SIZE)" and ?m0 = "set_blk_size b (got * PAGE_SIZE) (memory s)"
      assume 1: "pmm_alloc_page ?u = Some (b, s1)" "b \<noteq> NULL" "grow_loop (unat ?k - 1) b 1 s1 = Some (got, s2)"
        "pmm_inv s2" "pmm.more s2 = pmm.more ?u" "rflags s2 = rflags ?u" "free_set s2 \<subseteq> free_set ?u" "0 < unat b"
        "block_ok ?nb" "apart ?nb bs" "block_bytes ?nb \<subseteq> pmm_bytes ?u" "\<forall>x \<in> block_bytes ?nb. x div 4096 \<notin> free_set s2"
      have mem2: "memory s2 = memory s" "free_list s2 = free_list s" "lock (heap_lock s2) = 0"
        using heap_more [OF 1(5)] r(2) by (simp_all add: heap_unlocked_def)
      have hd: "\<forall>c \<in> set bs. block_ok c \<and> fst c \<noteq> fst ?nb"
        using insert_position(4) [OF r(4) 1(9,10)] 1(8) blocks_ok_mem [OF r(4)] by auto
      have c0: "chain ?m0 (free_list s) bs" using chain_store(1) [OF 1(9) hd] r(3) by simp
      have "blk_size ?m0 (fst ?nb) = snd ?nb" using header_store_same(1) [OF 1(9)] by simp
      from insert_block_refines [OF c0 r(4) 1(9,10) _ this] 1(8) obtain m1 p1 where
        i: "insert_block b (?m0, free_list s) = Some (m1, p1)" "chain m1 p1 (insert_list ?nb bs)"
          "same_outside (list_bytes bs \<union> block_bytes ?nb) ?m0 m1" by auto
      have il: "blocks_ok 0 (insert_list ?nb bs)" "list_bytes (insert_list ?nb bs) = list_bytes bs \<union> block_bytes ?nb"
        using insert_list_ok [OF r(4) 1(9,10)] 1(8) by auto
      have sub: "list_bytes bs \<union> block_bytes ?nb \<subseteq> list_bytes bs \<union> pmm_bytes s" using 1(11) u(3) by auto
      have so: "same_outside (list_bytes bs \<union> pmm_bytes s) (memory s) m1"
        using same_outside_store(1) [OF 1(9)] same_outside_mono [OF i(3) sub] sub by (auto intro: same_outside_trans)
      define s3 where "s3 = (let s' = s2\<lparr>rflags := cli (rflags s2), heap_lock := (heap_lock s2)\<lparr>lock := 1, saved_flags := rflags s2\<rparr>\<rparr>;
            s' = (if heap_end s' < b + got * PAGE_SIZE then s'\<lparr>heap_end := b + got * PAGE_SIZE\<rparr> else s')
          in (if b < heap_start s' then s'\<lparr>heap_start := b\<rparr> else s'))"
      have s3: "pmm_inv s3" "free_set s3 = free_set s2" "saved_flags (heap_lock s3) = rflags s"
        using 1(4,6) u(4) by (auto simp: s3_def Let_def pmm_inv_def free_set_def)
      have k: "kmalloc sz s = try_alloc (needed_bytes sz) (m1, p1) \<bind> (\<lambda>(p, h). Some (p, heap_release (set_heap h s3)))"
        using none(1) nz r(2) 1(1,2,3) mem2 i(1) by (simp add: kmalloc_def heap_critical Let_def s3_def)
      have "\<forall>x \<in> list_bytes (insert_list ?nb bs). x div 4096 \<notin> free_set s3"
        using 1(7,12) u(2) r(5) il(2) s3(2) by blast
      then show ?thesis using kmalloc_grown [OF rep sz none(2) k i(2) il(1) _ so _ s3(1,3)] il(2) sub by simp
    qed
  qed (rule kmalloc_hit [OF rep sz])
qed

lemma not_canary:
  assumes "unat (x :: u64) \<le> 2 ^ 52" "unat v \<le> 2 ^ 52"
  shows "v \<noteq> HEAP_CANARY x"
proof
  assume "v = HEAP_CANARY x"
  then have "x + v = - 1" by (simp add: HEAP_CANARY_def not_eq_complement)
  then have "unat (x + v) = 2 ^ 64 - 1" by (simp add: unat_eq_nat_uint uint_word_ariths)
  then show False using assms by (simp add: unat_word_ariths)
qed

lemma kfree_spec:
  assumes rep: "heap_rep s bs" and own: "owns s bs b"
    and rng: "heap_start s \<le> fst b" "blk_end b \<le> unat (heap_end s)"
  shows "\<exists>s' bs'. kfree (fst b + HEADER_SIZE) s = Some s' \<and> heap_rep s' bs' \<and> rflags s' = rflags s
    \<and> list_bytes bs' = list_bytes bs \<union> block_bytes b \<and> kfree (fst b + HEADER_SIZE) s' = Some s'
    \<and> same_outside (list_bytes bs \<union> block_bytes b) (memory s) (memory s')"
proof -
  let ?S = "list_bytes bs \<union> block_bytes b"
  have r: "pmm_inv s" "lock (heap_lock s) = 0" "chain (memory s) (free_list s) bs" "blocks_ok 0 bs"
    "\<forall>x \<in> list_bytes bs. x div 4096 \<notin> free_set s" using rep by (auto simp: heap_rep_def)
  have o: "block_ok b" "0 < unat (fst b)" "apart b bs" "load64 (memory s) (fst b) = snd b"
    "load64 (memory s) (fst b + 8) = HEAP_CANARY (snd b)" "\<forall>x \<in> block_bytes b. x div 4096 \<notin> free_set s"
    using own by (auto simp: owns_def)
  have nn: "fst b + HEADER_SIZE \<noteq> NULL"
  proof -
    have "unat (fst b) \<le> 2 ^ 52" using o(1) by (simp add: block_ok_def)
    then have "unat (fst b + 16) \<noteq> 0" by (simp add: unat_word_ariths)
    then show ?thesis by (metis unat_0)
  qed
  have in_range: "\<not> fst b < heap_start s" "\<not> heap_end s < fst b + snd b"
    using rng unat_blk_end [OF o(1)] by (auto simp: word_less_nat_alt word_le_nat_alt)
  let ?m0 = "set_blk_size (fst b) (snd b) (memory s)"
  have hd: "\<forall>c \<in> set bs. block_ok c \<and> fst c \<noteq> fst b"
    using insert_position(4) [OF r(4) o(1,3)] o(2) blocks_ok_mem [OF r(4)] by auto
  have c0: "chain ?m0 (free_list s) bs" using chain_store(1) [OF o(1) hd] r(3) by simp
  obtain m1 p1 where i: "insert_block (fst b) (?m0, free_list s) = Some (m1, p1)" "chain m1 p1 (insert_list b bs)"
      "same_outside ?S ?m0 m1" "unat (blk_next m1 (fst b)) \<le> 2 ^ 52" "unat (blk_size m1 (fst b)) \<le> 2 ^ 52"
    using insert_block_refines [OF c0 r(4) o(1,3) o(2)] header_store_same(1) [OF o(1)] by auto
  have il: "blocks_ok 0 (insert_list b bs)" "list_bytes (insert_list b bs) = ?S"
    using insert_list_ok [OF r(4) o(1,3,2)] by auto
  let ?s = "heap_unlocked (s\<lparr>memory := m1, free_list := p1\<rparr>)"
  have run: "kfree (fst b + HEADER_SIZE) s = Some ?s"
    using nn o(4,5) in_range i(1) r(2) by (simp add: kfree_def Let_def heap_critical)
  have "heap_rep ?s (insert_list b bs)"
    using r(1,5) i(2) il o(6) by (auto simp: heap_rep_def heap_unlocked_def pmm_inv_def free_set_def)
  moreover have "kfree (fst b + HEADER_SIZE) ?s = Some ?s"
    using nn not_canary [OF i(5,4)] by (simp add: kfree_def Let_def heap_unlocked_def blk_size_def blk_next_def)
  moreover have "same_outside ?S (memory s) m1"
    using same_outside_store(1) [OF o(1), of ?S] i(3) by (auto intro: same_outside_trans)
  ultimately show ?thesis using run il(2)
    by (intro exI [of _ ?s] exI [of _ "insert_list b bs"]) (simp add: heap_unlocked_def)
qed

text \<open>\<open>heap_init\<close> takes the same pages as the growth loop.\<close>

lemma init_loop_grow:
  assumes "grow_loop n b got s = Some (g, s')" and "\<forall>j \<le> n. b + (got + of_nat j) * PAGE_SIZE \<noteq> NULL"
  shows "\<exists>c. init_loop n b got s = Some (g, c, s') \<and> (c \<longrightarrow> g = got + of_nat n)"
  using assms
proof (induction n arbitrary: got s)
  case (Suc n)
  obtain p s1 where a: "pmm_alloc_page s = Some (p, s1)" using Suc.prems(1) by (auto simp: bind_eq_Some_conv)
  have e0: "b + got * PAGE_SIZE \<noteq> NULL" using Suc.prems(2) [rule_format, of 0] by simp
  show ?case
  proof (cases "p = b + got * PAGE_SIZE")
    case True
    have "\<forall>j \<le> n. b + (got + 1 + of_nat j) * PAGE_SIZE \<noteq> NULL"
    proof (intro allI impI)
      fix j assume "j \<le> n"
      then show "b + (got + 1 + of_nat j) * PAGE_SIZE \<noteq> NULL" using Suc.prems(2) [rule_format, of "Suc j"] by (simp add: add.assoc)
    qed
    moreover have "grow_loop n b (got + 1) s1 = Some (g, s')" using Suc.prems(1) a True e0 by simp
    ultimately obtain c where "init_loop n b (got + 1) s1 = Some (g, c, s')" "c \<longrightarrow> g = got + 1 + of_nat n"
      using Suc.IH by blast
    then show ?thesis using a True by (auto simp: add.assoc)
  next
    case False
    then show ?thesis using Suc.prems(1) a by (auto simp: bind_eq_Some_conv split: if_splits)
  qed
qed (auto intro: exI [of _ True])

lemma heap_init_spec:
  assumes inv: "pmm_inv s" and lk: "lock (heap_lock s) = 0"
  shows "\<exists>s'. heap_init s = Some s' \<and> rflags s' = rflags s \<and>
    (allocatable s = {} \<and> heap_of s' = heap_of s
     \<or> (\<exists>b tot. heap_rep s' [(b, tot)] \<and> block_bytes (b, tot) \<subseteq> pmm_bytes s
          \<and> (heap_start s' = b \<and> heap_end s' = b + tot \<and> tot = 64 * PAGE_SIZE
             \<or> heap_start s' = heap_start s \<and> heap_end s' = heap_end s)))"
proof (rule pmm_alloc_page_cases [OF inv])
  assume "pmm_alloc_page s = Some (NULL, unlocked s)" "allocatable s = {}"
  then show ?thesis by (simp add: heap_init_def unlocked_def)
next
  fix b s1
  assume 1: "pmm_alloc_page s = Some (b, s1)" "b \<noteq> NULL" "unat b < 2 ^ 32"
  show ?thesis
  proof (rule pmm_region_cases [OF inv, of "[]", where k = 63])
    fix s1' assume "pmm_alloc_page s = Some (NULL, s1')"
    then show ?thesis using 1(1,2) by simp
  next
    fix b' s1' got s2
    assume "pmm_alloc_page s = Some (b', s1')" and 2: "grow_loop 63 b' 1 s1' = Some (got, s2)"
      "pmm_inv s2" "pmm.more s2 = pmm.more s" "rflags s2 = rflags s" "free_set s2 \<subseteq> free_set s" "0 < unat b'"
      "block_ok (b', got * PAGE_SIZE)" "block_bytes (b', got * PAGE_SIZE) \<subseteq> pmm_bytes s"
      "\<forall>x \<in> block_bytes (b', got * PAGE_SIZE). x div 4096 \<notin> free_set s2"
    then have e: "b' = b" "s1' = s1" using 1 by simp_all
    have "b + (1 + of_nat j) * PAGE_SIZE \<noteq> NULL" if "j \<le> 63" for j
    proof -
      define w :: u64 where "w = 1 + of_nat j"
      have "unat w = 1 + j" using that by (simp add: w_def unat_word_ariths unat_of_nat_u64)
      then have "unat (b + w * PAGE_SIZE) = unat b + (1 + j) * 4096"
        using that 1(3) by (simp add: unat_word_ariths)
      then have "unat (b + (1 + of_nat j) * PAGE_SIZE) \<noteq> 0" by (simp add: w_def)
      then show ?thesis by (metis unat_0)
    qed
    then have "\<exists>c. init_loop 63 b 1 s1 = Some (got, c, s2) \<and> (c \<longrightarrow> got = 1 + of_nat 63)"
      using init_loop_grow [OF 2(1)] unfolding e by blast
    moreover have "(1 + of_nat 63 :: u64) = 64" by simp
    ultimately obtain c where c: "init_loop 63 b 1 s1 = Some (got, c, s2)" "c \<longrightarrow> got = 64" by metis
    let ?nb = "(b, got * PAGE_SIZE)"
    let ?m = "set_blk_next b NULL (set_blk_size b (got * PAGE_SIZE) (memory s2))"
    let ?s0 = "s2\<lparr>memory := ?m, free_list := b\<rparr>"
    let ?s = "if c then ?s0\<lparr>heap_start := b, heap_end := b + got * PAGE_SIZE\<rparr> else ?s0"
    have run: "heap_init s = Some ?s"
    proof -
      have "HEAP_PAGES - 1 = 63" by simp
      then show ?thesis unfolding heap_init_def using 1(1,2) c(1) by (simp only: bind.bind_lunit case_prod_conv if_False Let_def) (simp add: set_heap_def)
    qed
    have ok: "block_ok ?nb" using 2(7) e by simp
    have "chain ?m b [?nb]" using header_store_same [OF ok] 1(2) by simp
    moreover have "heap_lock s2 = heap_lock s" "heap_start s2 = heap_start s" "heap_end s2 = heap_end s"
      using heap_more [OF 2(3)] by simp_all
    ultimately have "heap_rep ?s [?nb]" "heap_start ?s = b \<and> heap_end ?s = b + got * PAGE_SIZE \<and> got * PAGE_SIZE = 64 * PAGE_SIZE
             \<or> heap_start ?s = heap_start s \<and> heap_end ?s = heap_end s"
      using 2 ok lk e c(2) by (auto simp: heap_rep_def pmm_inv_def free_set_def)
    moreover have "rflags ?s = rflags s" using 2(4) by simp
    ultimately show ?thesis using run 2(8) e by blast
  qed simp
qed

section \<open>The free list is determined by its bytes\<close>

lemma blocks_ok_gap: "blocks_ok lo (b # bs) \<Longrightarrow> blk_end b \<notin> list_bytes (b # bs)"
  using blocks_ok_bytes_above [of "blk_end b" bs] by (auto simp: block_bytes_def)

lemma blocks_ok_first: "blocks_ok lo (b # bs) \<Longrightarrow> unat (fst b) \<in> list_bytes (b # bs) \<and> (\<forall>x \<in> list_bytes (b # bs). unat (fst b) \<le> x)"
  using blocks_ok_bytes_above [of "blk_end b" bs] by (auto simp: block_bytes_def block_ok_def) fastforce

lemma blocks_ok_unique:
  "blocks_ok lo bs \<Longrightarrow> blocks_ok lo' cs \<Longrightarrow> list_bytes bs = list_bytes cs \<Longrightarrow> bs = cs"
proof (induction bs arbitrary: cs lo lo')
  case Nil
  show ?case
  proof (cases cs)
    case (Cons c cs')
    then show ?thesis using blocks_ok_first [of lo' c cs'] Nil by simp
  qed simp
next
  case (Cons b bs)
  obtain c cs' where cs: "cs = c # cs'" using Cons.prems blocks_ok_first [OF Cons.prems(1)] by (cases cs) auto
  have ok: "blocks_ok lo' (c # cs')" and eq: "list_bytes (b # bs) = list_bytes (c # cs')" using Cons.prems cs by simp_all
  have "unat (fst b) = unat (fst c)"
    using blocks_ok_first [OF Cons.prems(1)] blocks_ok_first [OF ok] eq by (metis order_antisym)
  then have f: "fst b = fst c" by (simp only: word_unat_eq_iff)
  have "blk_end b \<notin> list_bytes (c # cs')" using blocks_ok_gap [OF Cons.prems(1)] unfolding eq .
  moreover have "blk_end c \<notin> list_bytes (b # bs)" using blocks_ok_gap [OF ok] unfolding eq [symmetric] .
  ultimately have "blk_end b = blk_end c"
    using f by (auto simp: block_bytes_def)
  then have s: "b = c" using f by (simp add: prod_eq_iff word_unat_eq_iff)
  have "list_bytes bs = list_bytes (b # bs) - block_bytes b" "list_bytes cs' = list_bytes (c # cs') - block_bytes c"
    using blocks_ok_bytes_above [of "blk_end b" bs] blocks_ok_bytes_above [of "blk_end c" cs'] Cons.prems(1) ok
    by (fastforce simp: block_bytes_def)+
  then have "list_bytes bs = list_bytes cs'" using eq s by simp
  moreover have "blocks_ok (blk_end b) bs" "blocks_ok (blk_end c) cs'" using Cons.prems(1) ok by simp_all
  ultimately show ?case using Cons.IH cs s by simp
qed

lemma kmalloc_hit_exact:
  assumes rep: "heap_rep s bs" and sz: "0 < unat sz" "unat sz \<le> 2 ^ 62" and fits: "\<exists>b \<in> set bs. needed_bytes sz \<le> snd b"
  shows "\<exists>b bs' s'. kmalloc sz s = Some (fst b + HEADER_SIZE, s') \<and> heap_rep s' bs' \<and> owns s' bs' b
    \<and> list_bytes bs = block_bytes b \<union> list_bytes bs' \<and> heap_start s' = heap_start s \<and> heap_end s' = heap_end s"
proof -
  have r: "lock (heap_lock s) = 0" "chain (memory s) (free_list s) bs" "blocks_ok 0 bs" using rep by (auto simp: heap_rep_def)
  show ?thesis
  proof (rule attempt [OF r(2,3) needed_bytes_ok(1,2,3) [OF sz]])
    assume "\<forall>b \<in> set bs. snd b < needed_bytes sz"
    then show ?thesis using fits by (auto simp: not_less)
  next
    fix b bs' m' p'
    assume t: "try_alloc (needed_bytes sz) (memory s, free_list s) = Some (fst b + HEADER_SIZE, m', p')" "fst b + HEADER_SIZE \<noteq> NULL"
      "chain m' p' bs'" "blocks_ok 0 bs'" "block_ok b" "0 < unat (fst b)"
      "list_bytes bs = block_bytes b \<union> list_bytes bs'" "apart b bs'"
      "load64 m' (fst b) = snd b" "load64 m' (fst b + 8) = HEAP_CANARY (snd b)"
    let ?s = "heap_unlocked (s\<lparr>memory := m', free_list := p'\<rparr>)"
    have "sz \<noteq> 0" using sz(1) by auto
    then have "kmalloc sz s = Some (fst b + HEADER_SIZE, ?s)"
      using t(1,2) rep by (simp add: kmalloc_def heap_rep_def heap_critical)
    moreover have "heap_rep ?s bs'" using heap_unlocked_rep [OF rep t(3,4)] t(7) by simp
    moreover have "owns ?s bs' b"
      using rep t by (auto simp: heap_rep_def owns_def heap_unlocked_def free_set_def)
    moreover have "heap_start ?s = heap_start s" "heap_end ?s = heap_end s" by (simp_all add: heap_unlocked_def)
    ultimately show ?thesis using t(7) by blast
  qed
qed

section \<open>Clients write to their own blocks\<close>

lemma load64_outside:
  assumes "unat a + 8 \<le> 2 ^ 64" "\<forall>x. unat a \<le> unat x \<and> unat x < unat a + 8 \<longrightarrow> m' x = m x"
  shows "load64 m' a = load64 m a"
proof (rule load64_cong)
  fix i :: nat assume "i < 8"
  then have "within a 8 (a + of_nat i)" by (simp add: within_offset)
  then have "unat a \<le> unat (a + of_nat i) \<and> unat (a + of_nat i) < unat a + 8"
    using within_iff [of a 8 "a + of_nat i"] assms(1) by auto
  then show "m' (a + of_nat i) = m (a + of_nat i)" using assms(2) by blast
qed

lemma block_header_outside:
  assumes "block_ok b" "\<forall>x. unat x \<in> block_bytes b \<longrightarrow> m' x = m x"
  shows "load64 m' (fst b) = load64 m (fst b)" "load64 m' (fst b + 8) = load64 m (fst b + 8)"
proof -
  have b: "unat (fst b) \<le> 2 ^ 52" "16 \<le> unat (snd b)" using assms(1) by (auto simp: block_ok_def dvd_imp_le)
  have u: "unat (fst b + 8) = unat (fst b) + 8" using b(1) by (simp add: unat_word_ariths)
  show "load64 m' (fst b) = load64 m (fst b)"
    using b assms(2) by (intro load64_outside) (auto simp: block_bytes_def)
  show "load64 m' (fst b + 8) = load64 m (fst b + 8)"
    using b u assms(2) by (intro load64_outside) (auto simp: block_bytes_def)
qed

lemma chain_outside:
  assumes "blocks_ok lo bs" "\<forall>x. unat x \<in> list_bytes bs \<longrightarrow> m' x = m x"
  shows "chain m' p bs \<longleftrightarrow> chain m p bs"
proof (rule chain_cong)
  fix b assume b: "b \<in> set bs"
  have "block_ok b" using blocks_ok_mem [OF assms(1) b] by simp
  moreover have "\<forall>x. unat x \<in> block_bytes b \<longrightarrow> m' x = m x" using list_bytes_mem [OF b] assms(2) by blast
  ultimately show "blk_size m' (fst b) = blk_size m (fst b) \<and> blk_next m' (fst b) = blk_next m (fst b)"
    using block_header_outside by (simp add: blk_size_def blk_next_def)
qed

lemma heap_rep_write:
  assumes "heap_rep s bs" "same_outside S (memory s) m'" "S \<inter> list_bytes bs = {}"
  shows "heap_rep (s\<lparr>memory := m'\<rparr>) bs"
proof -
  have "\<forall>x. unat x \<in> list_bytes bs \<longrightarrow> m' x = memory s x" using assms(2,3) by (auto simp: same_outside_def)
  then show ?thesis using assms(1) chain_outside [of 0 bs m' "memory s"]
    by (auto simp: heap_rep_def pmm_inv_def free_set_def)
qed

section \<open>Aligned allocation\<close>

lemma unat_power_lower_u64: "k < 64 \<Longrightarrow> unat (2 ^ k :: u64) = 2 ^ k"
proof -
  assume "k < 64"
  then have "(2 :: nat) ^ k < 2 ^ 64" by (rule power_strict_increasing) simp
  moreover have "(2 ^ k :: u64) = of_nat (2 ^ k)" by simp
  ultimately show ?thesis by (metis unat_of_nat_u64)
qed

lemma unat_align_up:
  assumes "k \<le> 40" "unat r \<le> 2 ^ 53"
  defines "al \<equiv> 2 ^ k :: u64"
  shows "\<exists>d < 2 ^ k. unat ((r + 8 + al - 1) AND NOT (al - 1)) = unat r + 8 + d
    \<and> 2 ^ k dvd unat ((r + 8 + al - 1) AND NOT (al - 1))"
proof -
  have ual: "unat al = 2 ^ k" using assms(1) by (simp add: al_def unat_power_lower_u64)
  have kl: "(2 :: nat) ^ k \<le> 2 ^ 40" using assms(1) by (intro power_increasing) simp_all
  define x where "x = r + 8 + (al - 1)"
  have "unat (al - 1) = 2 ^ k - 1" using ual by (subst unat_minus_one_lt) (auto simp: unat_eq_0 [symmetric])
  then have ux: "unat x = unat r + 8 + (2 ^ k - 1)" using assms(2) kl ual by (simp add: x_def unat_word_ariths)
  have "al - 1 = mask k" by (simp add: al_def mask_eq_exp_minus_1)
  then have "x AND NOT (al - 1) = x div al * al" using and_not_mask [of x k] by (simp add: al_def)
  then have r: "unat (x AND NOT (al - 1)) = unat x div 2 ^ k * 2 ^ k" using unat_div_mult [of x al] ual by simp
  let ?q = "unat x div 2 ^ k * 2 ^ k"
  have "?q \<le> unat x" "unat x < ?q + 2 ^ k"
  proof -
    have "unat x mod 2 ^ k < 2 ^ k" by simp
    then show "?q \<le> unat x" "unat x < ?q + 2 ^ k" using div_mult_mod_eq [of "unat x" "2 ^ k"] by linarith+
  qed
  then have "?q = unat r + 8 + (?q - (unat r + 8))" "?q - (unat r + 8) < 2 ^ k" using ux by linarith+
  moreover have "r + 8 + al - 1 = x" by (simp add: x_def)
  ultimately show ?thesis using r by (intro exI [of _ "?q - (unat r + 8)"]) simp
qed

lemma kmalloc_aligned_spec:
  assumes rep: "heap_rep s bs" and sz: "0 < unat sz" "unat sz \<le> 2 ^ 50" and k: "k \<le> 40"
  shows "\<exists>p s' bs'. kmalloc_aligned sz (2 ^ k) s = Some (p, s') \<and> heap_rep s' bs' \<and>
    (p = NULL \<or> (\<exists>b. 2 ^ k dvd unat p \<and> owns s' bs' b \<and> load64 (memory s') (p - 8) = fst b + HEADER_SIZE
       \<and> unat (fst b) + 24 \<le> unat p \<and> unat p + unat sz \<le> blk_end b))"
proof -
  have u2: "unat (2 ^ k :: u64) = 2 ^ k" using k by (simp add: unat_power_lower_u64)
  have kl: "(2 :: nat) ^ k \<le> 2 ^ 40" using k by (intro power_increasing) simp_all
  have req: "unat (sz + 2 ^ k + 8) = unat sz + 2 ^ k + 8" using sz kl u2 by (simp add: unat_word_ariths)
  obtain raw s1 bs1 where 1: "kmalloc (sz + 2 ^ k + 8) s = Some (raw, s1)" "malloc_post s bs (sz + 2 ^ k + 8) raw s1 bs1"
    using kmalloc_spec [OF rep, of "sz + 2 ^ k + 8"] req sz kl by auto
  have rep1: "heap_rep s1 bs1" using 1(2) by (simp add: malloc_post_def)
  have g1: "\<not> (sz = 0 \<or> (2 ^ k :: u64) = 0 \<or> 2 ^ k AND (2 ^ k - 1 :: u64) \<noteq> 0)"
  proof -
    have "(2 ^ k :: u64) AND (2 ^ k - 1) = 2 ^ k AND mask k" by (simp add: mask_eq_exp_minus_1)
    also have "\<dots> = 0" by (rule bit_eqI) (auto simp: bit_simps)
    finally show ?thesis using sz(1) u2 by (auto simp: unat_eq_0 [symmetric])
  qed
  have g2: "\<not> NOT 0 - 2 ^ k - 8 < sz"
  proof -
    have "unat (NOT 0 - 2 ^ k - 8 :: u64) + (2 ^ k + 8) = 2 ^ 64 - 1"
    proof -
      have m: "unat (- 1 :: u64) = 2 ^ 64 - 1" by (simp add: unat_eq_nat_uint uint_word_ariths)
      have "unat (- 1 - (2 ^ k + 8) :: u64) = 2 ^ 64 - 1 - (2 ^ k + 8)"
        using m u2 kl by (subst unat_sub) (simp_all add: word_le_nat_alt unat_word_ariths)
      then show ?thesis using kl by (simp add: algebra_simps)
    qed
    then show ?thesis using sz kl by (simp add: word_less_nat_alt)
  qed
  show ?thesis
  proof (cases "raw = NULL")
    case True
    then have "kmalloc_aligned sz (2 ^ k) s = Some (NULL, s1)" using 1(1) g1 g2 by (simp only: kmalloc_aligned_def if_False) simp
    then show ?thesis using rep1 by blast
  next
    case False
    then obtain b where b: "raw = fst b + HEADER_SIZE" "owns s1 bs1 b" "unat (sz + 2 ^ k + 8) + 16 \<le> unat (snd b)"
      using 1(2) by (auto simp: malloc_post_def)
    have okb: "block_ok b" "apart b bs1" using b(2) by (simp_all add: owns_def)
    have ur: "unat raw = unat (fst b) + 16" "unat raw \<le> 2 ^ 53"
      using okb(1) b(1) by (simp_all add: block_ok_def unat_word_ariths)
    define p where "p = (raw + 8 + 2 ^ k - 1) AND NOT (2 ^ k - 1)"
    obtain d where d: "d < 2 ^ k" "unat p = unat raw + 8 + d" "2 ^ k dvd unat p"
      using unat_align_up [OF k ur(2)] by (auto simp: p_def)
    have p8: "unat (p - 8) = unat raw + d" using d(2) by (simp add: unat_sub word_le_nat_alt)
    define m where "m = store64 (memory s1) (p - 8) raw"
    define a where "a = p - 8"
    have below: "unat a + 8 \<le> 2 ^ 64" using p8 ur d(1) kl by (simp add: a_def)
    have out: "m x = memory s1 x" if "unat x < unat raw \<or> unat raw + 8 + d \<le> unat x" for x
      using that within_iff [OF below, of x] p8 by (auto simp: m_def store64_def a_def)
    have fit: "unat raw + 8 + d + unat sz \<le> blk_end b" using b(3) req d(1) ur(1) by simp
    have same: "same_outside (block_bytes b) (memory s1) m"
      unfolding same_outside_def using out fit ur(1) by (fastforce simp: block_bytes_def)
    then have r2: "heap_rep (s1\<lparr>memory := m\<rparr>) bs1"
      using heap_rep_write [OF rep1] okb(2) by (simp add: apart_def)
    have "load64 m (fst b) = load64 (memory s1) (fst b)" "load64 m (fst b + 8) = load64 (memory s1) (fst b + 8)"
      using ur okb(1) out by (auto intro!: load64_outside simp: block_ok_def unat_word_ariths)
    then have "owns (s1\<lparr>memory := m\<rparr>) bs1 b" using b(2) by (simp add: owns_def free_set_def)
    moreover have "load64 m (p - 8) = fst b + HEADER_SIZE" by (simp add: m_def load64_store64 b(1))
    moreover have "kmalloc_aligned sz (2 ^ k) s = Some (p, s1\<lparr>memory := m\<rparr>)"
      using 1(1) g1 g2 False unfolding m_def p_def by (simp only: kmalloc_aligned_def if_False) (simp add: Let_def)
    moreover have "unat (fst b) + 24 \<le> unat p" "unat p + unat sz \<le> blk_end b" using d(2) ur(1) fit by simp_all
    moreover have "memory (s1\<lparr>memory := m\<rparr>) = m" by simp
    ultimately show ?thesis using r2 d(3) by metis
  qed
qed

section \<open>The properties of the heap\<close>

text \<open>
  C1: allocation is correct.  From a heap that satisfies the invariant, \<open>kmalloc\<close> of any
  non-zero size up to \<open>2 ^ 62\<close> returns with the invariant kept and the flags restored.
  It writes only to bytes that were free.  The block it hands out, if any, has the size
  asked for plus the header, a valid size and canary, and shares no byte with what is
  still free in the heap or the page allocator; \<open>NULL\<close> means that no free block was
  large enough.  The proof covers the splitting of a block and the growth of the heap.
\<close>

theorem kmalloc_correct:
  assumes "heap_rep s bs" and "0 < unat sz" "unat sz \<le> 2 ^ 62"
  shows "\<exists>p s' bs'. kmalloc sz s = Some (p, s') \<and> malloc_post s bs sz p s' bs'"
  by (rule kmalloc_spec [OF assms])

text \<open>A heap with one free block, and one with an allocated block behind it.\<close>

definition sample_heap :: heap where
  "sample_heap = pmm.extend sample_pmm \<lparr>memory = set_blk_next 0x10000 NULL (set_blk_size 0x10000 4096
       (store64 (store64 (\<lambda>_. 0) 0x12000 64) 0x12008 (HEAP_CANARY 64))),
     heap_lock = SPINLOCK_INIT, heap_start = 0x10000, heap_end = 0x14000, free_list = 0x10000\<rparr>"

definition sample_blocks :: "block list" where
  "sample_blocks = [(0x10000, 4096)]"

lemma sample_heap_pmm: "pmm.truncate sample_heap = sample_pmm" "bitmap sample_heap = bitmap sample_pmm"
  "total_pages sample_heap = 64" "free_count sample_heap = 2" "lock (pmm_lock sample_heap) = 0"
  by (simp_all add: sample_heap_def pmm.defs sample_pmm_def SPINLOCK_INIT_def)

lemma sample_heap_rep: "heap_rep sample_heap sample_blocks"
proof -
  let ?b = "(0x10000, 4096) :: block"
  have ok: "block_ok ?b" by (simp add: block_ok_def)
  have "chain (memory sample_heap) (free_list sample_heap) [?b]"
    using header_store_same [OF ok] by (simp add: sample_heap_def pmm.defs)
  moreover have "pmm_inv sample_heap"
    unfolding pmm_inv_def sample_heap_pmm sample_pmm_bits by (simp add: sample_pmm_def)
  moreover have "x div 4096 = 16" if "x \<in> block_bytes ?b" for x
    using that by (simp add: block_bytes_def div_nat_eqI)
  ultimately show ?thesis
    using ok by (auto simp: heap_rep_def sample_blocks_def free_set_def sample_heap_pmm sample_pmm_bits)
       (simp_all add: sample_heap_def pmm.defs SPINLOCK_INIT_def)
qed

theorem kmalloc_correct_witness:
  "\<exists>p s' bs'. kmalloc 100 sample_heap = Some (p, s') \<and> malloc_post sample_heap sample_blocks 100 p s' bs'"
  using kmalloc_correct [OF sample_heap_rep, of 100] by simp

text \<open>
  C2: release is correct, and a double free is harmless.  Freeing a block its caller owns,
  inside the bounds of the heap, puts exactly its bytes back into the free list, keeps the
  list sorted and coalesced, and changes no other byte.  Freeing it a second time changes
  nothing: the canary no longer matches.
\<close>

theorem kfree_correct:
  assumes "heap_rep s bs" and "owns s bs b" and "heap_start s \<le> fst b" "blk_end b \<le> unat (heap_end s)"
  shows "\<exists>s' bs'. kfree (fst b + HEADER_SIZE) s = Some s' \<and> heap_rep s' bs' \<and> rflags s' = rflags s
    \<and> list_bytes bs' = list_bytes bs \<union> block_bytes b \<and> kfree (fst b + HEADER_SIZE) s' = Some s'
    \<and> same_outside (list_bytes bs \<union> block_bytes b) (memory s) (memory s')"
  by (rule kfree_spec [OF assms])

lemma sample_owns: "owns sample_heap sample_blocks (0x12000, 64)"
proof -
  let ?c = "(0x12000, 64) :: block" and ?b = "(0x10000, 4096) :: block"
  have ok: "block_ok ?c" "block_ok ?b" by (simp_all add: block_ok_def)
  have m: "memory sample_heap = set_blk_next (fst ?b) NULL (set_blk_size (fst ?b) 4096
      (set_blk_next (fst ?c) (HEAP_CANARY 64) (set_blk_size (fst ?c) 64 (\<lambda>_. 0))))"
    by (simp add: sample_heap_def pmm.defs set_blk_size_def set_blk_next_def)
  have "blk_size (memory sample_heap) (fst ?c) = 64" "blk_next (memory sample_heap) (fst ?c) = HEAP_CANARY 64"
    unfolding m using header_store [OF ok(2,1)] header_store_same [OF ok(1)] by simp_all
  moreover have "apart ?c sample_blocks" by (auto simp: apart_def sample_blocks_def block_bytes_def)
  moreover have "x div 4096 = 18" if "x \<in> block_bytes ?c" for x
    using that by (simp add: block_bytes_def div_nat_eqI)
  ultimately show ?thesis
    using ok by (auto simp: owns_def blk_size_def blk_next_def free_set_def sample_heap_pmm sample_pmm_bits)
qed

theorem kfree_correct_witness:
  "\<exists>s' bs'. kfree 0x12010 sample_heap = Some s' \<and> heap_rep s' bs'
    \<and> list_bytes bs' = list_bytes sample_blocks \<union> block_bytes (0x12000, 64) \<and> kfree 0x12010 s' = Some s'"
  using kfree_correct [OF sample_heap_rep sample_owns] by (auto simp: sample_heap_def pmm.defs)



text \<open>
  initialisation is correct.  With the page allocator in order, \<open>heap_init\<close> returns;
  unless no page is free, the heap is one block of pages taken from the page allocator, and
  the bounds \<open>kfree\<close> checks are set if and only if all 64 pages were contiguous: otherwise
  they keep their old value.
\<close>

theorem heap_init_correct:
  assumes "pmm_inv s" and "lock (heap_lock s) = 0"
  shows "\<exists>s'. heap_init s = Some s' \<and> rflags s' = rflags s \<and>
    (allocatable s = {} \<and> heap_of s' = heap_of s
     \<or> (\<exists>b tot. heap_rep s' [(b, tot)] \<and> block_bytes (b, tot) \<subseteq> pmm_bytes s
          \<and> (heap_start s' = b \<and> heap_end s' = b + tot \<and> tot = 64 * PAGE_SIZE
             \<or> heap_start s' = heap_start s \<and> heap_end s' = heap_end s)))"
  by (rule heap_init_spec [OF assms])

theorem heap_init_correct_witness:
  "\<exists>s'. heap_init sample_heap = Some s' \<and>
    (allocatable sample_heap = {} \<or> (\<exists>b tot. heap_rep s' [(b, tot)] \<and> block_bytes (b, tot) \<subseteq> pmm_bytes sample_heap))"
proof -
  have "pmm_inv sample_heap" "lock (heap_lock sample_heap) = 0" using sample_heap_rep by (simp_all add: heap_rep_def)
  from heap_init_correct [OF this] show ?thesis by blast
qed

text \<open>
  aligned allocation.  For a power of two up to \<open>2 ^ 40\<close> the pointer
  \<open>kmalloc_aligned\<close> returns is a multiple of it, the buffer lies inside the block that
  was allocated behind the header, the word below it holds the pointer to free, and the
  heap invariant is kept.
\<close>

theorem kmalloc_aligned_correct:
  assumes "heap_rep s bs" and "0 < unat sz" "unat sz \<le> 2 ^ 50" and "k \<le> 40"
  shows "\<exists>p s' bs'. kmalloc_aligned sz (2 ^ k) s = Some (p, s') \<and> heap_rep s' bs' \<and>
    (p = NULL \<or> (\<exists>b. 2 ^ k dvd unat p \<and> owns s' bs' b \<and> load64 (memory s') (p - 8) = fst b + HEADER_SIZE
       \<and> unat (fst b) + 24 \<le> unat p \<and> unat p + unat sz \<le> blk_end b))"
  by (rule kmalloc_aligned_spec [OF assms])

theorem kmalloc_aligned_correct_witness:
  "\<exists>p s' bs'. kmalloc_aligned 100 64 sample_heap = Some (p, s') \<and> heap_rep s' bs' \<and> (p = NULL \<or> 64 dvd unat p)"
  using kmalloc_aligned_correct [OF sample_heap_rep, of 100 6] by auto

text \<open>
  A request close to the largest size wraps around.  For the fifteen largest sizes
  rounding up to 16 bytes overflows to zero, so \<open>kmalloc\<close> looks for a block of 16 bytes,
  the header alone, instead of failing.
\<close>

theorem kmalloc_size_wraps:
  assumes "2 ^ 64 - 15 \<le> unat sz"
  shows "needed_bytes sz = HEADER_SIZE"
proof -
  have "unat sz < 2 ^ 64" by (rule unat_lt_u64)
  then have "unat (sz + 15) < 15" using assms unat_plus_if' [of sz 15] by simp
  then have "unat ((sz + 15) AND - 16) = 0" using unat_align_down(2) [of "sz + 15"] by simp
  then have "(sz + 15) AND - 16 = 0" by (simp only: unat_eq_0)
  then show ?thesis by (simp add: needed_bytes_def)
qed

theorem kmalloc_size_wraps_witness: "needed_bytes (- 1) = HEADER_SIZE"
proof -
  have "unat (- 1 :: u64) = 2 ^ 64 - 1" by (simp add: unat_eq_nat_uint uint_word_ariths)
  then show ?thesis using kmalloc_size_wraps [of "- 1"] by simp
qed

end
