(* ===== verification/Fat32.thy ===== *)
theory Fat32
  imports Heap
begin

text \<open>
  The FAT32 reader of \<open>kernel/fs/fat32.c\<close>.  The disk is a function: the 512 bytes of a sector of a drive,
  or \<open>None\<close> when \<open>ata_read_sectors\<close> fails.  The cluster buffer is allocated and freed through the
  heap; its contents are kept as a list of bytes.  Names are lists of bytes without the terminator,
  a null path is \<open>None\<close>.  A callback is a function on its context.

  The lemmas: following a cluster chain ends for every disk, assembled long names and converted
  short names fit their buffers, name comparison ignores case, and what a read returns.
\<close>

unbundle bit_operations_syntax

abbreviation (input) FAT32_MAX_NAME :: nat where "FAT32_MAX_NAME \<equiv> 256"
abbreviation (input) FAT32_EOC :: u32 where "FAT32_EOC \<equiv> 0x0FFFFFF8"
abbreviation (input) ATTR_VOLUME_ID :: u8 where "ATTR_VOLUME_ID \<equiv> 0x08"
abbreviation (input) ATTR_DIRECTORY :: u8 where "ATTR_DIRECTORY \<equiv> 0x10"
abbreviation (input) ATTR_LFN :: u8 where "ATTR_LFN \<equiv> 0x0F"

type_synonym disk = "int \<Rightarrow> u32 \<Rightarrow> u8 list option"

section \<open>On-disk structures\<close>

definition get16 :: "u8 list \<Rightarrow> nat \<Rightarrow> u16" where
  "get16 b i = ucast (b ! i) OR push_bit 8 (ucast (b ! (i + 1)))"

definition get32 :: "u8 list \<Rightarrow> nat \<Rightarrow> u32" where
  "get32 b i = ucast (b ! i) OR push_bit 8 (ucast (b ! (i + 1))) OR push_bit 16 (ucast (b ! (i + 2))) OR push_bit 24 (ucast (b ! (i + 3)))"

record Fat32BPB =
  bpb_bytes_per_sector :: u16
  bpb_sectors_per_cluster :: u8
  bpb_reserved_sectors :: u16
  bpb_num_fats :: u8
  bpb_fat_size_32 :: u32
  bpb_root_cluster :: u32
  bpb_volume_label :: "u8 list"

definition read_bpb :: "u8 list \<Rightarrow> Fat32BPB" where
  "read_bpb b = \<lparr>bpb_bytes_per_sector = get16 b 11, bpb_sectors_per_cluster = b ! 13, bpb_reserved_sectors = get16 b 14,
     bpb_num_fats = b ! 16, bpb_fat_size_32 = get32 b 36, bpb_root_cluster = get32 b 44, bpb_volume_label = take 11 (drop 71 b)\<rparr>"

record Fat32DirEnt =
  ent_name :: "u8 list"
  ent_attr :: u8
  first_cluster_hi :: u16
  first_cluster_lo :: u16
  file_size :: u32

definition read_dirent :: "u8 list \<Rightarrow> Fat32DirEnt" where
  "read_dirent b = \<lparr>ent_name = take 11 b, ent_attr = b ! 11, first_cluster_hi = get16 b 20, first_cluster_lo = get16 b 26,
     file_size = get32 b 28\<rparr>"

record Fat32LfnEntry =
  lfn_order :: u8
  lfn_chars :: "u16 list"

definition read_lfn :: "u8 list \<Rightarrow> Fat32LfnEntry" where
  "read_lfn b = \<lparr>lfn_order = b ! 0, lfn_chars = map (\<lambda>i. get16 b (1 + 2 * i)) [0..<5] @ map (\<lambda>i. get16 b (14 + 2 * i)) [0..<6]
     @ map (\<lambda>i. get16 b (28 + 2 * i)) [0..<2]\<rparr>"

datatype fat_type = FAT32_TYPE_FILE | FAT32_TYPE_DIR

record Fat32DirEntry =
  fe_name :: "u8 list"
  fe_type :: fat_type
  fe_size :: u32
  fe_cluster :: u32

record fat32 = heap +
  mounted :: bool
  ata_drive :: int
  bytes_per_sector :: u32
  sectors_per_cluster :: u32
  reserved_sectors :: u32
  fat_start_lba :: u32
  data_start_lba :: u32
  root_cluster :: u32
  num_fats :: u32
  fat_size :: u32
  lfn_buf :: "u8 list"
  lfn_len :: nat
  lfn_valid :: bool

section \<open>Sectors and clusters\<close>

definition read_sector :: "disk \<Rightarrow> u32 \<Rightarrow> 'a fat32_scheme \<Rightarrow> u8 list option" where
  "read_sector disk lba s = disk (ata_drive s) lba"

definition next_cluster :: "disk \<Rightarrow> u32 \<Rightarrow> 'a fat32_scheme \<Rightarrow> u32" where
  "next_cluster disk cluster s =
     (let fat_offset = cluster * 4;
          fat_sector = fat_start_lba s + fat_offset div bytes_per_sector s;
          ent_offset = fat_offset mod bytes_per_sector s
      in case read_sector disk fat_sector s of
           None \<Rightarrow> FAT32_EOC
         | Some b \<Rightarrow> get32 b (unat ent_offset) AND 0x0FFFFFFF)"

definition cluster_to_lba :: "u32 \<Rightarrow> 'a fat32_scheme \<Rightarrow> u32" where
  "cluster_to_lba cluster s = data_start_lba s + (cluster - 2) * sectors_per_cluster s"

text \<open>The loop that reads the sectors of a cluster.\<close>

primrec read_cluster :: "disk \<Rightarrow> nat \<Rightarrow> u32 \<Rightarrow> 'a fat32_scheme \<Rightarrow> u8 list option" where
  "read_cluster disk 0 lba s = Some []"
| "read_cluster disk (Suc n) lba s = (case read_sector disk lba s of
     None \<Rightarrow> None
   | Some b \<Rightarrow> map_option (\<lambda>rest. b @ rest) (read_cluster disk n (lba + 1) s))"

definition in_chain :: "u32 \<Rightarrow> bool" where
  "in_chain cluster \<longleftrightarrow> 2 \<le> cluster \<and> cluster < FAT32_EOC"

definition max_clusters :: "'a fat32_scheme \<Rightarrow> u32" where
  "max_clusters s = (if 0 < sectors_per_cluster s \<and> 0 < data_start_lba s
     then (0xFFFFFFFF - data_start_lba s) div sectors_per_cluster s else 0)"

section \<open>Names\<close>

definition lfn_reset :: "'a fat32_scheme \<Rightarrow> 'a fat32_scheme" where
  "lfn_reset s = s\<lparr>lfn_len := 0, lfn_valid := False, lfn_buf := replicate FAT32_MAX_NAME 0\<rparr>"

definition lfn_char :: "nat \<Rightarrow> u16 \<Rightarrow> 'a fat32_scheme \<Rightarrow> 'a fat32_scheme" where
  "lfn_char pos c s = (
     if c = 0 \<or> c = 0xFFFF then (if lfn_len s < pos then s\<lparr>lfn_len := pos\<rparr> else s)
     else let s = s\<lparr>lfn_buf := (lfn_buf s)[pos := (if c < 128 then ucast c else 63)]\<rparr>
          in if lfn_len s < pos + 1 then s\<lparr>lfn_len := pos + 1\<rparr> else s)"

primrec lfn_chars_loop :: "u16 list \<Rightarrow> nat \<Rightarrow> 'a fat32_scheme \<Rightarrow> 'a fat32_scheme" where
  "lfn_chars_loop [] pos s = s"
| "lfn_chars_loop (c # cs) pos s = (
     if FAT32_MAX_NAME - 1 \<le> pos then s else lfn_chars_loop cs (pos + 1) (lfn_char pos c s))"

definition lfn_append :: "Fat32LfnEntry \<Rightarrow> 'a fat32_scheme \<Rightarrow> 'a fat32_scheme" where
  "lfn_append e s =
     (let sq = int (unat (lfn_order e AND 0x3F)) - 1
      in if sq < 0 \<or> int FAT32_MAX_NAME < sq * 13 + 13 then s
         else (lfn_chars_loop (lfn_chars e) (nat (sq * 13)) s)\<lparr>lfn_valid := True\<rparr>)"

definition lower :: "u8 \<Rightarrow> u8" where
  "lower c = (if 65 \<le> c \<and> c \<le> 90 then c + 32 else c)"

definition short_name_to_str :: "u8 list \<Rightarrow> u8 list" where
  "short_name_to_str name83 =
     (let name = map lower (takeWhile (\<lambda>c. c \<noteq> 32) (take 8 name83))
      in if name83 ! 8 \<noteq> 32 then name @ [46] @ map lower (takeWhile (\<lambda>c. c \<noteq> 32) (take 3 (drop 8 name83))) else name)"

section \<open>Directories\<close>

text \<open>One pass over the entries of a cluster; the flag tells that the end mark was met.\<close>

primrec dir_entries :: "(Fat32DirEnt \<Rightarrow> u8 list \<Rightarrow> 'c \<Rightarrow> 'c) \<Rightarrow> u8 list list \<Rightarrow> 'c \<Rightarrow> 'a fat32_scheme \<Rightarrow> bool \<times> 'c \<times> 'a fat32_scheme" where
  "dir_entries cb [] ctx s = (False, ctx, s)"
| "dir_entries cb (b # bs) ctx s =
     (let ent = read_dirent b
      in if b ! 0 = 0 then (True, ctx, s)
         else if b ! 0 = 0xE5 then dir_entries cb bs ctx s
         else if ent_attr ent = ATTR_LFN then dir_entries cb bs ctx (lfn_append (read_lfn b) s)
         else if ent_attr ent AND ATTR_VOLUME_ID \<noteq> 0 then dir_entries cb bs ctx (lfn_reset s)
         else let name = (if lfn_valid s then takeWhile (\<lambda>c. c \<noteq> 0) (take (lfn_len s) (lfn_buf s)) else takeWhile (\<lambda>c. c \<noteq> 0) (short_name_to_str (ent_name ent)))
              in dir_entries cb bs (cb ent name ctx) (lfn_reset s))"

definition split_entries :: "nat \<Rightarrow> u8 list \<Rightarrow> u8 list list" where
  "split_entries n b = map (\<lambda>i. take 32 (drop (32 * i) b)) [0..<n]"

text \<open>The chain of clusters of a directory; \<open>n\<close> steps are left before the bound \<open>max_clusters\<close> is exceeded.\<close>

primrec dir_chain :: "nat \<Rightarrow> disk \<Rightarrow> (Fat32DirEnt \<Rightarrow> u8 list \<Rightarrow> 'c \<Rightarrow> 'c) \<Rightarrow> u32 \<Rightarrow> 'c \<Rightarrow> 'a fat32_scheme \<Rightarrow> int \<times> 'c \<times> 'a fat32_scheme" where
  "dir_chain 0 disk cb cluster ctx s = (if in_chain cluster then (-1, ctx, s) else (0, ctx, s))"
| "dir_chain (Suc n) disk cb cluster ctx s = (
     if \<not> in_chain cluster then (0, ctx, s)
     else case read_cluster disk (unat (sectors_per_cluster s)) (cluster_to_lba cluster s) s of
       None \<Rightarrow> (-1, ctx, s)
     | Some b \<Rightarrow>
         let epc = unat ((sectors_per_cluster s * bytes_per_sector s) div 32);
             (ended, ctx, s) = dir_entries cb (split_entries epc b) ctx s
         in if ended then (0, ctx, s) else dir_chain n disk cb (next_cluster disk cluster s) ctx s)"

definition iterate_dir :: "disk \<Rightarrow> (Fat32DirEnt \<Rightarrow> u8 list \<Rightarrow> 'c \<Rightarrow> 'c) \<Rightarrow> u32 \<Rightarrow> 'c \<Rightarrow> 'a fat32_scheme \<Rightarrow> (int \<times> 'c \<times> 'a fat32_scheme) option" where
  "iterate_dir disk cb cluster ctx s = do {
     (cluster_buf, s) \<leftarrow> kmalloc (ucast (sectors_per_cluster s * bytes_per_sector s)) s;
     if cluster_buf = NULL then Some (-1, ctx, s)
     else do {
       let (r, ctx, s) = dir_chain (unat (max_clusters s)) disk cb cluster ctx (lfn_reset s);
       s \<leftarrow> kfree cluster_buf s;
       Some (r, ctx, s) } }"

section \<open>Paths\<close>

fun strcasecmp_simple :: "u8 list \<Rightarrow> u8 list \<Rightarrow> int" where
  "strcasecmp_simple (a # as) (b # bs) = (
     if lower a \<noteq> lower b then sint (lower a) - sint (lower b) else strcasecmp_simple as bs)"
| "strcasecmp_simple (a # as) [] = int (unat a)"
| "strcasecmp_simple [] (b # bs) = - int (unat b)"
| "strcasecmp_simple [] [] = 0"

definition find_cb :: "u8 list \<Rightarrow> Fat32DirEnt \<Rightarrow> u8 list \<Rightarrow> Fat32DirEnt option \<Rightarrow> Fat32DirEnt option" where
  "find_cb target ent name found = (if strcasecmp_simple name target = 0 then Some ent else found)"

definition root_entry :: "'a fat32_scheme \<Rightarrow> Fat32DirEnt" where
  "root_entry s = \<lparr>ent_name = replicate 11 0, ent_attr = ATTR_DIRECTORY, first_cluster_hi = ucast (drop_bit 16 (root_cluster s)),
     first_cluster_lo = ucast (root_cluster s), file_size = 0\<rparr>"

definition entry_cluster :: "Fat32DirEnt \<Rightarrow> u32" where
  "entry_cluster ent = push_bit 16 (ucast (first_cluster_hi ent)) OR ucast (first_cluster_lo ent)"

definition fat_component :: "u8 list \<Rightarrow> u8 list \<times> u8 list" where
  "fat_component p =
     (let c = take (FAT32_MAX_NAME - 1) (takeWhile (\<lambda>x. x \<noteq> 47) p); r = drop (length c) p
      in (c, if r \<noteq> [] \<and> hd r = 47 then tl r else r))"

lemma fat_component_shorter: "(c, r) = fat_component p \<Longrightarrow> p \<noteq> [] \<Longrightarrow> length r < length p"
  by (cases p) (auto simp: fat_component_def Let_def)

text \<open>The loop over the components; \<open>out\<close> is the entry found last.\<close>

function fat_walk :: "disk \<Rightarrow> u8 list \<Rightarrow> u32 \<Rightarrow> Fat32DirEnt \<Rightarrow> 'a fat32_scheme \<Rightarrow> (Fat32DirEnt option \<times> 'a fat32_scheme) option" where
  "fat_walk disk p cur out s = (
     if p = [] then Some (Some out, s)
     else let (c, r) = fat_component p
          in case iterate_dir disk (find_cb c) cur None s of
               None \<Rightarrow> None
             | Some (ret, found, s) \<Rightarrow>
                 if ret < 0 then Some (None, s)
                 else (case found of
                     None \<Rightarrow> Some (None, s)
                   | Some ent \<Rightarrow>
                       if r \<noteq> [] \<and> ent_attr ent AND ATTR_DIRECTORY = 0 then Some (None, s)
                       else fat_walk disk r (entry_cluster ent) ent s))"
  by pat_completeness auto
termination
  by (relation "measure (\<lambda>(disk, p, _). length p)") (auto dest: fat_component_shorter)

definition is_root_path :: "u8 list option \<Rightarrow> bool" where
  "is_root_path path \<longleftrightarrow> path = None \<or> path = Some [] \<or> path = Some [47]"

definition fat_resolve_path :: "disk \<Rightarrow> u8 list option \<Rightarrow> 'a fat32_scheme \<Rightarrow> (Fat32DirEnt option \<times> 'a fat32_scheme) option" where
  "fat_resolve_path disk path s = (
     if is_root_path path then Some (Some (root_entry s), s)
     else let p = the path; p = (if hd p = 47 then tl p else p)
          in fat_walk disk p (root_cluster s) (root_entry s) s)"

section \<open>The interface\<close>

definition bad_spc :: "u8 \<Rightarrow> bool" where
  "bad_spc n \<longleftrightarrow> n = 0 \<or> n AND (n - 1) \<noteq> 0 \<or> 128 < n"

definition trim_label :: "u8 list \<Rightarrow> u8 list" where
  "trim_label l = takeWhile (\<lambda>c. c \<noteq> 0) (rev (dropWhile (\<lambda>c. c = 32) (rev l)))"

text \<open>The result is the label that is printed, or \<open>None\<close> for \<open>-1\<close>.\<close>

definition fat32_init :: "(int \<Rightarrow> bool) \<Rightarrow> disk \<Rightarrow> int \<Rightarrow> 'a fat32_scheme \<Rightarrow> u8 list option \<times> 'a fat32_scheme" where
  "fat32_init ata_drive_present disk drive s = (
     if \<not> ata_drive_present drive then (None, s)
     else case disk drive 0 of
       None \<Rightarrow> (None, s)
     | Some boot_sector \<Rightarrow>
         let bpb = read_bpb boot_sector
         in if bpb_bytes_per_sector bpb \<noteq> 512 then (None, s)
            else if bpb_fat_size_32 bpb = 0 then (None, s)
            else if bad_spc (bpb_sectors_per_cluster bpb) then (None, s)
            else let rs = ucast (bpb_reserved_sectors bpb); nf = ucast (bpb_num_fats bpb)
                 in (Some (trim_label (bpb_volume_label bpb)),
                     s\<lparr>ata_drive := drive, bytes_per_sector := ucast (bpb_bytes_per_sector bpb),
                       sectors_per_cluster := ucast (bpb_sectors_per_cluster bpb), reserved_sectors := rs, num_fats := nf,
                       fat_size := bpb_fat_size_32 bpb, root_cluster := bpb_root_cluster bpb, fat_start_lba := rs,
                       data_start_lba := rs + nf * bpb_fat_size_32 bpb, mounted := True\<rparr>))"

definition fat32_mounted :: "'a fat32_scheme \<Rightarrow> bool" where
  "fat32_mounted s = mounted s"

definition dir_entry :: "u8 list \<Rightarrow> Fat32DirEnt \<Rightarrow> Fat32DirEntry" where
  "dir_entry name ent = \<lparr>fe_name = name, fe_type = (if ent_attr ent AND ATTR_DIRECTORY \<noteq> 0 then FAT32_TYPE_DIR else FAT32_TYPE_FILE),
     fe_size = file_size ent, fe_cluster = entry_cluster ent\<rparr>"

definition readdir_adapter :: "(Fat32DirEntry \<Rightarrow> 'c \<Rightarrow> 'c) \<Rightarrow> Fat32DirEnt \<Rightarrow> u8 list \<Rightarrow> 'c \<Rightarrow> 'c" where
  "readdir_adapter cb ent name ctx = cb (dir_entry (take (FAT32_MAX_NAME - 1) name) ent) ctx"

definition fat32_readdir :: "disk \<Rightarrow> u8 list option \<Rightarrow> (Fat32DirEntry \<Rightarrow> 'c \<Rightarrow> 'c) \<Rightarrow> 'c \<Rightarrow> 'a fat32_scheme \<Rightarrow> (int \<times> 'c \<times> 'a fat32_scheme) option" where
  "fat32_readdir disk path cb ctx s = (
     if \<not> mounted s then Some (-1, ctx, s)
     else do {
       (ent, s) \<leftarrow> fat_resolve_path disk path s;
       case ent of
         None \<Rightarrow> Some (-1, ctx, s)
       | Some ent \<Rightarrow>
           if ent_attr ent AND ATTR_DIRECTORY = 0 then Some (-1, ctx, s)
           else let cluster = (if entry_cluster ent = 0 then root_cluster s else entry_cluster ent)
                in iterate_dir disk (readdir_adapter cb) cluster ctx s })"

text \<open>The copy loop of \<open>fat32_read_file\<close>: the bytes copied to the caller, or \<open>None\<close> for an error.\<close>

primrec file_chain :: "nat \<Rightarrow> disk \<Rightarrow> u32 \<Rightarrow> nat \<Rightarrow> 'a fat32_scheme \<Rightarrow> u8 list option" where
  "file_chain 0 disk cluster remaining s = (if 0 < remaining \<and> in_chain cluster then None else Some [])"
| "file_chain (Suc n) disk cluster remaining s = (
     if remaining = 0 \<or> \<not> in_chain cluster then Some []
     else case read_cluster disk (unat (sectors_per_cluster s)) (cluster_to_lba cluster s) s of
       None \<Rightarrow> None
     | Some b \<Rightarrow>
         let cluster_size = unat (sectors_per_cluster s * bytes_per_sector s);
             to_copy = (if cluster_size < remaining then cluster_size else remaining)
         in map_option (\<lambda>rest. take to_copy b @ rest) (file_chain n disk (next_cluster disk cluster s) (remaining - to_copy) s))"

definition fat32_read_file :: "disk \<Rightarrow> u8 list option \<Rightarrow> u32 \<Rightarrow> 'a fat32_scheme \<Rightarrow> ((int \<times> u8 list) \<times> 'a fat32_scheme) option" where
  "fat32_read_file disk path buf_size s = (
     if \<not> mounted s then Some ((-1, []), s)
     else do {
       (ent, s) \<leftarrow> fat_resolve_path disk path s;
       case ent of
         None \<Rightarrow> Some ((-1, []), s)
       | Some ent \<Rightarrow>
           if ent_attr ent AND ATTR_DIRECTORY \<noteq> 0 then Some ((-1, []), s)
           else do {
             let sz = (if buf_size < file_size ent then buf_size else file_size ent);
             (cluster_buf, s) \<leftarrow> kmalloc (ucast (sectors_per_cluster s * bytes_per_sector s)) s;
             if cluster_buf = NULL then Some ((-1, []), s)
             else do {
               let r = file_chain (unat (max_clusters s)) disk (entry_cluster ent) (unat sz) s;
               s \<leftarrow> kfree cluster_buf s;
               Some (case r of None \<Rightarrow> ((-1, []), s) | Some bs \<Rightarrow> ((sint sz, bs), s)) } } })"

definition fat32_stat :: "disk \<Rightarrow> u8 list option \<Rightarrow> 'a fat32_scheme \<Rightarrow> (Fat32DirEntry option \<times> 'a fat32_scheme) option" where
  "fat32_stat disk path s = (
     if \<not> mounted s then Some (None, s)
     else do {
       (ent, s) \<leftarrow> fat_resolve_path disk path s;
       Some (case ent of
         None \<Rightarrow> (None, s)
       | Some ent \<Rightarrow> (Some (dir_entry (if is_root_path path then [47] else takeWhile (\<lambda>c. c \<noteq> 0) (short_name_to_str (ent_name ent))) ent), s)) })"


section \<open>Names fit their buffers\<close>

definition lfn_ok :: "'a fat32_scheme \<Rightarrow> bool" where [inv_defs]:
  "lfn_ok s \<longleftrightarrow> length (lfn_buf s) = FAT32_MAX_NAME \<and> lfn_len s < FAT32_MAX_NAME"

lemma lfn_char_ok: "lfn_ok s \<Longrightarrow> pos < 255 \<Longrightarrow> lfn_ok (lfn_char pos c s)"
  by (auto simp: lfn_ok_def lfn_char_def Let_def)

lemma lfn_chars_loop_ok: "lfn_ok s \<Longrightarrow> lfn_ok (lfn_chars_loop cs pos s)"
  by (induction cs arbitrary: pos s) (simp_all add: lfn_char_ok not_le)

lemma lfn_append_ok: "lfn_ok s \<Longrightarrow> lfn_ok (lfn_append e s)"
  using lfn_chars_loop_ok [of s "lfn_chars e"] by (auto simp: lfn_append_def Let_def lfn_ok_def)

lemma lfn_reset_ok: "lfn_ok (lfn_reset s)"
  by (simp add: lfn_ok_def lfn_reset_def)

lemma dir_entries_ok: "lfn_ok s \<Longrightarrow> dir_entries cb bs ctx s = (e, ctx', s') \<Longrightarrow> lfn_ok s'"
proof (induction bs arbitrary: ctx s)
  case (Cons b bs)
  show ?case
    using Cons.prems Cons.IH [OF Cons.prems(1)] Cons.IH [OF lfn_append_ok [OF Cons.prems(1)]] Cons.IH [OF lfn_reset_ok]
    by (auto simp: Let_def split: if_splits)
qed simp

lemma dir_chain_ok: "lfn_ok s \<Longrightarrow> dir_chain n disk cb c ctx s = (r, ctx', s') \<Longrightarrow> lfn_ok s'"
proof (induction n arbitrary: c ctx s)
  case (Suc n)
  show ?case
  proof (cases "in_chain c")
    case True
    show ?thesis
    proof (cases "read_cluster disk (unat (sectors_per_cluster s)) (cluster_to_lba c s) s")
      case None
      then show ?thesis using Suc.prems True by simp
    next
      case (Some b)
      obtain e ctx1 s1 where d: "dir_entries cb (split_entries (unat ((sectors_per_cluster s * bytes_per_sector s) div 32)) b) ctx s = (e, ctx1, s1)"
        by (metis prod_cases3)
      show ?thesis using Suc.IH [OF dir_entries_ok [OF Suc.prems(1) d]] dir_entries_ok [OF Suc.prems(1) d] Suc.prems(2) True Some d
        by (auto simp: Let_def split: if_splits)
    qed
  qed (use Suc.prems in simp)
qed (simp split: if_splits)

text \<open>wherever the long-name entries of a directory come from, the position in the name buffer stays below 256 while a
  chain of clusters is walked, so that the terminator \<open>lfn_buf[lfn_len]\<close> is inside the buffer.\<close>

theorem long_names_fit:
  assumes "dir_chain n disk cb c ctx (lfn_reset s) = (r, ctx', s')"
  shows "length (lfn_buf s') = FAT32_MAX_NAME \<and> lfn_len s' < FAT32_MAX_NAME"
  using dir_chain_ok [OF lfn_reset_ok assms] by (simp add: lfn_ok_def)

definition sample_fat :: fat32 where
  "sample_fat = heap.extend sample_heap \<lparr>mounted = True, ata_drive = 0, bytes_per_sector = 512, sectors_per_cluster = 1, reserved_sectors = 32,
     fat_start_lba = 32, data_start_lba = 100, root_cluster = 2, num_fats = 2, fat_size = 34, lfn_buf = [], lfn_len = 0, lfn_valid = False\<rparr>"

theorem long_names_fit_witness:
  "\<exists>s'. dir_chain 0 (\<lambda>_ _. None) (\<lambda>_ _ c. c) 2 () (lfn_reset sample_fat) = (-1, (), s') \<and> lfn_len s' < 256"
proof -
  have d: "dir_chain 0 (\<lambda>_ _. None) (\<lambda>_ _ c. c) 2 () (lfn_reset sample_fat) = (-1, (), lfn_reset sample_fat)"
    by (simp add: in_chain_def)
  show ?thesis using long_names_fit [OF d] d by blast
qed

lemma sint_inj: "sint (x :: u8) = sint y \<longleftrightarrow> x = y"
proof
  assume "sint x = sint y"
  then have "(word_of_int (sint x) :: u8) = word_of_int (sint y)" by simp
  then show "x = y" by simp
qed simp

lemma strcasecmp_eq: "0 \<notin> set a \<Longrightarrow> 0 \<notin> set b \<Longrightarrow> strcasecmp_simple a b = 0 \<longleftrightarrow> map lower a = map lower b"
  by (induction a b rule: strcasecmp_simple.induct) (auto simp: unat_eq_0 sint_inj)

text \<open>Two names, strings without a null byte, compare as equal exactly when they agree after mapping upper to lower case letters.\<close>

theorem strcasecmp_correct:
  assumes "0 \<notin> set a" and "0 \<notin> set b"
  shows "strcasecmp_simple a b = 0 \<longleftrightarrow> map lower a = map lower b"
  by (rule strcasecmp_eq [OF assms])

theorem strcasecmp_correct_witness: "strcasecmp_simple [65, 46, 99] [97, 46, 67] = 0"
  using strcasecmp_correct [of "[65, 46, 99]" "[97, 46, 67]"] by (simp add: lower_def)

section \<open>Reading a file\<close>

text \<open>\<open>cs\<close> are the clusters of a file: every one can be read, and each entry of the table names the next.\<close>

definition cluster_bytes :: "disk \<Rightarrow> 'a fat32_scheme \<Rightarrow> u32 \<Rightarrow> u8 list" where
  "cluster_bytes disk s c = the (read_cluster disk (unat (sectors_per_cluster s)) (cluster_to_lba c s) s)"

primrec linked :: "disk \<Rightarrow> 'a fat32_scheme \<Rightarrow> u32 list \<Rightarrow> bool" where
  "linked disk s [] \<longleftrightarrow> True"
| "linked disk s (c # cs) \<longleftrightarrow> in_chain c
     \<and> (\<exists>b. read_cluster disk (unat (sectors_per_cluster s)) (cluster_to_lba c s) s = Some b \<and> length b = unat (sectors_per_cluster s * bytes_per_sector s))
     \<and> (cs \<noteq> [] \<longrightarrow> next_cluster disk c s = hd cs) \<and> linked disk s cs"

lemma file_chain_spec:
  "linked disk s cs \<Longrightarrow> length cs \<le> n \<Longrightarrow> remaining \<le> unat (sectors_per_cluster s * bytes_per_sector s) * length cs \<Longrightarrow> cs \<noteq> [] \<Longrightarrow>
   file_chain n disk (hd cs) remaining s = Some (take remaining (concat (map (cluster_bytes disk s) cs)))"
proof (induction cs arbitrary: n remaining)
  case (Cons c cs)
  obtain m where n: "n = Suc m" using Cons.prems(2) by (cases n) auto
  obtain b where b: "read_cluster disk (unat (sectors_per_cluster s)) (cluster_to_lba c s) s = Some b"
    "length b = unat (sectors_per_cluster s * bytes_per_sector s)" using Cons.prems(1) by auto
  have cb: "cluster_bytes disk s c = b" using b by (simp add: cluster_bytes_def)
  have ic: "in_chain c" using Cons.prems(1) by simp
  show ?case
  proof (cases "remaining = 0")
    case True
    then show ?thesis using n by simp
  next
    case r: False
    show ?thesis
    proof (cases "length b < remaining")
      case True
      then have ne: "cs \<noteq> []" using Cons.prems(3) b(2) by auto
      have ih: "file_chain m disk (hd cs) (remaining - length b) s = Some (take (remaining - length b) (concat (map (cluster_bytes disk s) cs)))"
        using Cons.prems n ne b(2) by (intro Cons.IH) auto
      have nx: "next_cluster disk c s = hd cs" using Cons.prems(1) ne by simp
      show ?thesis using r True ic b n ih nx cb by (simp add: Let_def)
    next
      case False
      have "file_chain m disk k 0 s = Some []" for k by (cases m) simp_all
      then show ?thesis using r False ic b n cb by (simp add: Let_def)
    qed
  qed
qed simp



text \<open>A file whose first cluster is no cluster of the volume: nothing is copied.\<close>

lemma file_chain_empty: "\<not> in_chain c \<Longrightarrow> file_chain n disk c r s = Some []"
  by (cases n) simp_all

section \<open>Mounting\<close>

lemma spc_power: "list_all (\<lambda>i. \<not> bad_spc (of_nat i) \<longrightarrow> i \<in> set [1, 2, 4, 8, 16, 32, 64, 128]) [0..<256]"
  by code_simp

text \<open>a volume that mounts has 512-byte sectors and 1, 2, 4, up to 128 sectors per cluster, so that the size of a cluster is at most
  64 KiB and its computation in 32 bits is exact.\<close>

theorem fat32_init_geometry:
  assumes "fat32_init present disk drive s = (Some label, s')"
  shows "mounted s' \<and> bytes_per_sector s' = 512 \<and> unat (sectors_per_cluster s') \<in> {1, 2, 4, 8, 16, 32, 64, 128}
    \<and> unat (sectors_per_cluster s' * bytes_per_sector s') = unat (sectors_per_cluster s') * 512"
proof -
  obtain b where b: "disk drive 0 = Some b" "bpb_bytes_per_sector (read_bpb b) = 512" "\<not> bad_spc (bpb_sectors_per_cluster (read_bpb b))"
    and s': "mounted s'" "bytes_per_sector s' = 512" "sectors_per_cluster s' = ucast (bpb_sectors_per_cluster (read_bpb b))"
    using assms by (auto simp: fat32_init_def Let_def split: if_splits option.splits)
  let ?n = "bpb_sectors_per_cluster (read_bpb b)"
  have "unat ?n < 256" using unsigned_less [of ?n] by simp
  then have "unat ?n \<in> set [0..<256]" by simp
  moreover have "\<not> bad_spc (of_nat (unat ?n))" using b(3) by simp
  ultimately have "unat ?n \<in> set [1, 2, 4, 8, 16, 32, 64, 128]" using spc_power unfolding list_all_iff by blast
  then have n: "unat ?n \<in> {1, 2, 4, 8, 16, 32, 64, 128}" by simp
  have u: "unat (sectors_per_cluster s') = unat ?n" using s'(3) \<open>unat ?n < 256\<close> by (simp add: unsigned_ucast_eq take_bit_eq_mod)
  moreover have "unat (sectors_per_cluster s' * 512) = unat (sectors_per_cluster s') * 512"
    using u \<open>unat ?n < 256\<close> by (simp add: unat_word_ariths)
  ultimately show ?thesis using n s' by simp
qed

theorem fat32_init_geometry_witness:
  "\<exists>l s'. fat32_init (\<lambda>_. True) (\<lambda>_ _. Some ((replicate 512 0)[12 := 2, 13 := 8, 36 := 1])) 0 sample_fat = (Some l, s')
     \<and> unat (sectors_per_cluster s') \<in> {1, 2, 4, 8, 16, 32, 64, 128}"
proof -
  obtain l s' where "fat32_init (\<lambda>_. True) (\<lambda>_ _. Some ((replicate 512 0)[12 := 2, 13 := 8, 36 := 1])) 0 sample_fat = (Some l, s')"
    by (simp add: fat32_init_def Let_def read_bpb_def get16_def get32_def bad_spc_def)
  then show ?thesis using fat32_init_geometry by blast
qed

end
