(* ===== verification/Sched.thy ===== *)
theory Sched
  imports Heap
begin

text \<open>
  The scheduler of \<open>kernel/sched/task.c\<close>.  The table \<open>tasks\<close> is a list of 64 records, a
  \<open>Task *\<close> is an index into it, task stacks come from the heap.  \<open>timer_ticks ()\<close> is the
  argument \<open>now\<close>.  \<open>context_switch\<close> itself is assembly outside the sources: a yield is
  modelled up to the point where the processor runs the task it picked, with the kernel
  stack pointer in the TSS and the page table base the switch leaves behind.

  The lemmas: every operation keeps the table well formed and leaves no task but the
  current one RUNNING, the task picked has the best priority and is the next in
  round-robin order, and a task that waits is woken with the exit code it waits for.
\<close>

section \<open>Data\<close>

datatype TaskState = TASK_READY | TASK_RUNNING | TASK_SLEEPING | TASK_BLOCKED | TASK_DEAD

record TaskContext =
  rsp :: u64
  rip :: u64
  rbx :: u64
  rbp :: u64
  r12 :: u64
  r13 :: u64
  r14 :: u64
  r15 :: u64
  ctx_rflags :: u64

record Task =
  ctx :: TaskContext
  tid :: u64
  state :: TaskState
  wake_tick :: u64
  stack_base :: ptr
  tname :: string
  priority :: int
  exit_code :: int
  parent_id :: u64
  wait_for_id :: u64
  is_user :: bool
  sig_pending :: u32
  sig_handlers :: "u64 list"
  pml4 :: ptr
  pending_slot :: int

abbreviation (input) MAX_TASKS :: nat where "MAX_TASKS \<equiv> 64"
abbreviation (input) TASK_STACK_SIZE :: u64 where "TASK_STACK_SIZE \<equiv> 16384"
abbreviation (input) SIG_MAX_TASK :: nat where "SIG_MAX_TASK \<equiv> 20"
abbreviation (input) PRIORITY_HIGH :: int where "PRIORITY_HIGH \<equiv> 0"
abbreviation (input) PRIORITY_NORMAL :: int where "PRIORITY_NORMAL \<equiv> 1"
abbreviation (input) PRIORITY_IDLE :: int where "PRIORITY_IDLE \<equiv> 3"
abbreviation (input) NUM_PRIORITIES :: int where "NUM_PRIORITIES \<equiv> 4"

text \<open>A task of all zero bytes, as \<open>memset\<close> leaves it: \<open>TASK_READY\<close> is zero.\<close>

definition blank_task :: Task where
  "blank_task = \<lparr>ctx = \<lparr>rsp = 0, rip = 0, rbx = 0, rbp = 0, r12 = 0, r13 = 0, r14 = 0, r15 = 0, ctx_rflags = 0\<rparr>,
     tid = 0, state = TASK_READY, wake_tick = 0, stack_base = NULL, tname = '''', priority = 0, exit_code = 0,
     parent_id = 0, wait_for_id = 0, is_user = False, sig_pending = 0, sig_handlers = replicate SIG_MAX_TASK 0,
     pml4 = NULL, pending_slot = 0\<rparr>"

record sched = heap +
  tasks :: "Task list"
  task_count :: nat
  current_task :: nat
  next_id :: u64
  tss_rsp0 :: u64
  cr3 :: ptr
  kernel_pml4 :: ptr

abbreviation task :: "'a sched_scheme \<Rightarrow> nat \<Rightarrow> Task" where
  "task s i \<equiv> tasks s ! i"

definition set_task :: "nat \<Rightarrow> (Task \<Rightarrow> Task) \<Rightarrow> 'a sched_scheme \<Rightarrow> 'a sched_scheme" where
  "set_task i f s = s\<lparr>tasks := (tasks s)[i := f (tasks s ! i)]\<rparr>"

section \<open>Initialisation and creation\<close>

definition sched_init :: "'a sched_scheme \<Rightarrow> 'a sched_scheme" where
  "sched_init s = s\<lparr>tasks := (replicate MAX_TASKS blank_task)[0 := blank_task
       \<lparr>tid := 0, state := TASK_RUNNING, tname := ''idle'', priority := PRIORITY_IDLE, stack_base := NULL\<rparr>],
     task_count := 1, current_task := 0\<rparr>"

text \<open>A slot to use: a dead one that was cleaned up, else the next one, if there is any.\<close>

definition find_slot :: "'a sched_scheme \<Rightarrow> nat option" where
  "find_slot s = (case filter (\<lambda>i. state (task s i) = TASK_DEAD \<and> stack_base (task s i) = NULL) [1..<task_count s] of
     i # _ \<Rightarrow> Some i
   | [] \<Rightarrow> if MAX_TASKS \<le> task_count s then None else Some (task_count s))"

text \<open>The initial stack: trampoline, entry point, and the seven registers \<open>context_switch\<close> pops.\<close>

definition init_stack :: "ptr \<Rightarrow> u64 \<Rightarrow> u64 \<Rightarrow> mem \<Rightarrow> mem \<times> u64" where
  "init_stack base trampoline entry m =
     (let top = (base + TASK_STACK_SIZE) AND NOT 15;
          m = store64 m (top - 8) trampoline;
          m = store64 m (top - 16) entry;
          sp = top - 16 - 7 * 8;
          m = store64 m sp 0; m = store64 m (sp + 8) 0; m = store64 m (sp + 16) 0;
          m = store64 m (sp + 24) 0; m = store64 m (sp + 32) 0; m = store64 m (sp + 40) 0;
          m = store64 m (sp + 48) 0x202
      in (m, sp))"

definition do_task_create ::
  "u64 \<Rightarrow> string \<Rightarrow> u64 \<Rightarrow> int \<Rightarrow> 'a sched_scheme \<Rightarrow> (nat option \<times> 'a sched_scheme) option" where
  "do_task_create trampoline nm entry prio s = (case find_slot s of
     None \<Rightarrow> Some (None, s)
   | Some slot \<Rightarrow> do {
       (base, s) \<leftarrow> kmalloc TASK_STACK_SIZE s;
       let s = set_task slot (stack_base_update (\<lambda>_. base)) s;
       if base = NULL then Some (None, set_task slot (\<lambda>_. blank_task) s)
       else do {
         let s = s\<lparr>task_count := (if task_count s \<le> slot then slot + 1 else task_count s)\<rparr>;
         let parent = tid (task s (current_task s));
         let (m, sp) = init_stack base trampoline entry (memory s);
         let s = s\<lparr>memory := m\<rparr>;
         let nid = next_id s;
         let s = set_task slot (\<lambda>t. t\<lparr>tid := nid, state := TASK_READY, tname := nm, priority := prio,
             exit_code := 0, parent_id := parent, wait_for_id := 0, pending_slot := -1,
             ctx := \<lparr>rsp = sp, rip = entry, rbx = 0, rbp = 0, r12 = 0, r13 = 0, r14 = 0, r15 = 0,
                     ctx_rflags = 0x202\<rparr>\<rparr>) s;
         Some (Some slot, s\<lparr>next_id := nid + 1\<rparr>) } })"

definition task_create ::
  "u64 \<Rightarrow> string \<Rightarrow> u64 \<Rightarrow> 'a sched_scheme \<Rightarrow> (nat option \<times> 'a sched_scheme) option" where
  "task_create trampoline nm entry s = do_task_create trampoline nm entry PRIORITY_NORMAL s"

definition task_create_prio ::
  "u64 \<Rightarrow> string \<Rightarrow> u64 \<Rightarrow> int \<Rightarrow> 'a sched_scheme \<Rightarrow> (nat option \<times> 'a sched_scheme) option" where
  "task_create_prio trampoline nm entry prio s =
     (let p = (if prio < 0 then 0 else prio);
          p = (if NUM_PRIORITIES \<le> p then NUM_PRIORITIES - 1 else p)
      in do_task_create trampoline nm entry p s)"

section \<open>Cleaning up after dead tasks\<close>

text \<open>The inner loop: every task that waits for \<open>i\<close> becomes ready with its exit code.\<close>

definition wake_waiters :: "nat \<Rightarrow> 'a sched_scheme \<Rightarrow> 'a sched_scheme" where
  "wake_waiters i s =
     (let d = task s i;
          wake = (\<lambda>t. if state t = TASK_BLOCKED \<and> wait_for_id t = tid d
                      then t\<lparr>state := TASK_READY, exit_code := exit_code d, wait_for_id := 0\<rparr> else t)
      in s\<lparr>tasks := map wake (take (task_count s) (tasks s)) @ drop (task_count s) (tasks s)\<rparr>)"

definition cleanup_one :: "nat \<Rightarrow> 'a sched_scheme \<Rightarrow> 'a sched_scheme option" where
  "cleanup_one i s = (
     if state (task s i) \<noteq> TASK_DEAD \<or> i = current_task s then Some s
     else do {
       let s = wake_waiters i s;
       if stack_base (task s i) = NULL then Some s
       else do {
         s \<leftarrow> kfree (stack_base (task s i)) s;
         Some (set_task i (stack_base_update (\<lambda>_. NULL)) s) } })"

primrec cleanup_loop :: "nat list \<Rightarrow> 'a sched_scheme \<Rightarrow> 'a sched_scheme option" where
  "cleanup_loop [] s = Some s"
| "cleanup_loop (i # is) s = do { s \<leftarrow> cleanup_one i s; cleanup_loop is s }"

definition cleanup_dead_tasks :: "'a sched_scheme \<Rightarrow> 'a sched_scheme option" where
  "cleanup_dead_tasks s = cleanup_loop [1..<task_count s] s"

section \<open>Scheduling\<close>

definition wake_sleepers :: "u64 \<Rightarrow> 'a sched_scheme \<Rightarrow> 'a sched_scheme" where
  "wake_sleepers now s = s\<lparr>tasks :=
     map (\<lambda>t. if state t = TASK_SLEEPING \<and> wake_tick t \<le> now then t\<lparr>state := TASK_READY\<rparr> else t)
       (take (task_count s) (tasks s)) @ drop (task_count s) (tasks s)\<rparr>"

text \<open>The two nested loops: priorities from high to idle, for each the tasks after the current one.\<close>

definition candidates :: "'a sched_scheme \<Rightarrow> nat list" where
  "candidates s = map (\<lambda>i. (current_task s + i) mod task_count s) [1..<task_count s + 1]"

definition find_ready :: "'a sched_scheme \<Rightarrow> nat option" where
  "find_ready s = List.find (\<lambda>_. True) (concat (map (\<lambda>prio.
     filter (\<lambda>idx. state (task s idx) = TASK_READY \<and> priority (task s idx) = prio) (candidates s)) [0, 1, 2, 3]))"

definition pick_next :: "u64 \<Rightarrow> 'a sched_scheme \<Rightarrow> (nat \<times> 'a sched_scheme) option" where
  "pick_next now s = do {
     s \<leftarrow> cleanup_dead_tasks (wake_sleepers now s);
     Some (case find_ready s of Some idx \<Rightarrow> (idx, s) | None \<Rightarrow> (0, s)) }"

definition sti :: "u64 \<Rightarrow> u64" where
  "sti f = f OR push_bit 9 1"

definition switch_to :: "nat \<Rightarrow> 'a sched_scheme \<Rightarrow> 'a sched_scheme" where
  "switch_to nxt s =
     (let prev = current_task s;
          s = (if state (task s prev) = TASK_RUNNING then set_task prev (state_update (\<lambda>_. TASK_READY)) s else s);
          s = set_task nxt (state_update (\<lambda>_. TASK_RUNNING)) (s\<lparr>current_task := nxt\<rparr>);
          s = (if is_user (task s nxt) \<and> stack_base (task s nxt) \<noteq> NULL
               then s\<lparr>tss_rsp0 := stack_base (task s nxt) + TASK_STACK_SIZE\<rparr> else s)
      in if pml4 (task s nxt) \<noteq> NULL then s\<lparr>cr3 := pml4 (task s nxt)\<rparr>
         else if pml4 (task s prev) \<noteq> NULL then s\<lparr>cr3 := kernel_pml4 s\<rparr>
         else s)"

definition sched_yield :: "u64 \<Rightarrow> 'a sched_scheme \<Rightarrow> 'a sched_scheme option" where
  "sched_yield now s = do {
     (nxt, s) \<leftarrow> pick_next now (s\<lparr>rflags := cli (rflags s)\<rparr>);
     let s = (if nxt = current_task s then s else switch_to nxt s);
     Some (s\<lparr>rflags := sti (rflags s)\<rparr>) }"

definition sched_schedule :: "u64 \<Rightarrow> 'a sched_scheme \<Rightarrow> 'a sched_scheme option" where
  "sched_schedule now s = sched_yield now s"

definition sched_sleep :: "u64 \<Rightarrow> u64 \<Rightarrow> 'a sched_scheme \<Rightarrow> 'a sched_scheme option" where
  "sched_sleep now ticks s =
     sched_yield now (set_task (current_task s) (\<lambda>t. t\<lparr>state := TASK_SLEEPING, wake_tick := now + ticks\<rparr>) s)"

definition sched_current :: "'a sched_scheme \<Rightarrow> nat" where
  "sched_current s = current_task s"

definition sched_find_task :: "u64 \<Rightarrow> 'a sched_scheme \<Rightarrow> nat option" where
  "sched_find_task i s = List.find (\<lambda>k. tid (task s k) = i) [0..<task_count s]"

text \<open>
  \<open>sched_wait\<close>: either the answer is there at once, or the caller blocks; the exit code it
  then reads from its own slot is there once it runs again.
\<close>

datatype wait_result = Exited int | Waiting | NoTask

definition sched_wait :: "u64 \<Rightarrow> u64 \<Rightarrow> 'a sched_scheme \<Rightarrow> (wait_result \<times> 'a sched_scheme) option" where
  "sched_wait now task_id s = (case sched_find_task task_id s of
     None \<Rightarrow> Some (NoTask, s)
   | Some i \<Rightarrow>
       if state (task s i) = TASK_DEAD then Some (Exited (exit_code (task s i)), s)
       else do {
         s \<leftarrow> sched_yield now (set_task (current_task s) (\<lambda>t. t\<lparr>state := TASK_BLOCKED, wait_for_id := task_id\<rparr>) s);
         Some (Waiting, s) })"

definition sched_exit :: "u64 \<Rightarrow> int \<Rightarrow> 'a sched_scheme \<Rightarrow> 'a sched_scheme option" where
  "sched_exit now code s =
     sched_yield now (set_task (current_task s) (\<lambda>t. t\<lparr>exit_code := code, state := TASK_DEAD\<rparr>) s)"

definition task_exit_trampoline :: "u64 \<Rightarrow> 'a sched_scheme \<Rightarrow> 'a sched_scheme option" where
  "task_exit_trampoline now s =
     sched_yield now (set_task (current_task s) (\<lambda>t. t\<lparr>state := TASK_DEAD, exit_code := 0\<rparr>) s)"

definition sched_any_priority :: "int \<Rightarrow> 'a sched_scheme \<Rightarrow> bool" where
  "sched_any_priority prio s =
     list_ex (\<lambda>i. priority (task s i) = prio \<and> state (task s i) \<noteq> TASK_DEAD) [1..<task_count s]"

text \<open>The rows \<open>ps\<close> prints.\<close>

definition state_str :: "TaskState \<Rightarrow> string" where
  "state_str st = (case st of TASK_READY \<Rightarrow> ''ready'' | TASK_RUNNING \<Rightarrow> ''running'' | TASK_SLEEPING \<Rightarrow> ''sleeping''
     | TASK_BLOCKED \<Rightarrow> ''blocked'' | TASK_DEAD \<Rightarrow> ''dead'')"

definition prio_str :: "int \<Rightarrow> string" where
  "prio_str p = (if p < NUM_PRIORITIES then [''high'', ''normal'', ''low'', ''idle''] ! nat p else ''?'')"

definition sched_list_tasks :: "'a sched_scheme \<Rightarrow> (u64 \<times> string \<times> string \<times> string) list" where
  "sched_list_tasks s = map (\<lambda>i. let t = task s i in (tid t, tname t, state_str (state t), prio_str (priority t)))
     (filter (\<lambda>i. \<not> (state (task s i) = TASK_DEAD \<and> stack_base (task s i) = NULL)) [0..<task_count s])"

section \<open>Signals\<close>

definition sched_send_signal :: "u64 \<Rightarrow> int \<Rightarrow> 'a sched_scheme \<Rightarrow> int \<times> 'a sched_scheme" where
  "sched_send_signal task_id sig s = (
     if sig < 1 \<or> int SIG_MAX_TASK \<le> sig then (-1, s)
     else case sched_find_task task_id s of
       None \<Rightarrow> (-1, s)
     | Some i \<Rightarrow>
         if state (task s i) = TASK_DEAD then (-2, s)
         else if sig = 9 then (0, set_task i (\<lambda>t. t\<lparr>exit_code := 128 + sig, state := TASK_DEAD\<rparr>) s)
         else if sig = 19 then (0, set_task i (\<lambda>t. t\<lparr>state := TASK_BLOCKED\<rparr>) s)
         else if sig_handlers (task s i) ! nat sig = 1 then (0, s)
         else if sig_handlers (task s i) ! nat sig = 0 then
           (if sig = 17 then (0, s)
            else (0, set_task i (\<lambda>t. t\<lparr>exit_code := 128 + sig, state := TASK_DEAD\<rparr>) s))
         else (0, set_task i (\<lambda>t. t\<lparr>sig_pending := sig_pending t OR push_bit (nat sig) 1,
                state := (if state t = TASK_SLEEPING \<or> state t = TASK_BLOCKED then TASK_READY else state t)\<rparr>) s))"

section \<open>What the heap leaves alone\<close>

lemma pmm_release_more [simp]: "pmm.more (pmm_release s) = pmm.more s"
  by (simp add: pmm_release_def split: prod.split)

lemma heap_release_more [simp]: "heap.more (heap_release s) = heap.more s"
  by (simp add: heap_release_def split: prod.split)

lemma pmm_alloc_page_more: "pmm_alloc_page s = Some (p, s') \<Longrightarrow> pmm.more s' = pmm.more s"
  by (auto simp: pmm_alloc_page_def bind_eq_Some_conv pmm_acquire_def Let_def
      split: prod.splits option.splits if_splits)

lemma pmm_free_page_more: "pmm_free_page p s = Some s' \<Longrightarrow> pmm.more s' = pmm.more s"
  by (auto simp: pmm_free_page_def bind_eq_Some_conv pmm_acquire_def Let_def
      split: prod.splits option.splits if_splits)

lemma heap_more_pmm: "pmm.more s' = pmm.more (s :: 'a heap_scheme) \<Longrightarrow> heap.more s' = heap.more s"
  by (cases s; cases s'; simp)

lemma grow_loop_more: "grow_loop n b got s = Some (g, s') \<Longrightarrow> heap.more s' = heap.more s"
proof (induction n arbitrary: got s)
  case (Suc n)
  then show ?case
    by (auto simp: bind_eq_Some_conv split: if_splits
        dest!: pmm_alloc_page_more pmm_free_page_more heap_more_pmm Suc.IH) 
qed simp

lemma heap_acquire_more: "heap_acquire s = Some s' \<Longrightarrow> heap.more s' = heap.more s"
  by (auto simp: heap_acquire_def bind_eq_Some_conv)

lemma set_heap_more [simp]: "heap.more (set_heap h s) = heap.more s"
  by (simp add: set_heap_def)

lemma pred_option_bindI: "(\<And>x. f = Some x \<Longrightarrow> pred_option P (g x)) \<Longrightarrow> pred_option P (f \<bind> g)"
  by (cases f) auto

lemma pred_option_ifI: "(b \<Longrightarrow> pred_option P x) \<Longrightarrow> (\<not> b \<Longrightarrow> pred_option P y) \<Longrightarrow> pred_option P (if b then x else y)"
  by simp

lemma pred_option_prodI: "(\<And>a b. x = (a, b) \<Longrightarrow> pred_option P (f a b)) \<Longrightarrow> pred_option P (case x of (a, b) \<Rightarrow> f a b)"
  by (cases x) simp

lemma pred_option_SomeI: "P x \<Longrightarrow> pred_option P (Some x)"
  by simp

lemmas pred_option_intros = pred_option_bindI pred_option_ifI pred_option_prodI pred_option_SomeI

lemma pred_option_Some: "pred_option P f \<Longrightarrow> f = Some x \<Longrightarrow> P x"
  by simp

lemma kmalloc_more: "kmalloc sz s = Some (p, s') \<Longrightarrow> heap.more s' = heap.more s"
proof -
  have "pred_option (\<lambda>(p, s'). heap.more s' = heap.more s) (kmalloc sz s)"
    unfolding kmalloc_def Let_def
    by (intro pred_option_intros)
      (auto dest!: heap_acquire_more grow_loop_more pmm_alloc_page_more [THEN heap_more_pmm])
  then show "kmalloc sz s = Some (p, s') \<Longrightarrow> heap.more s' = heap.more s" by simp
qed

lemma kfree_more: "kfree p s = Some s' \<Longrightarrow> heap.more s' = heap.more s"
proof -
  have "pred_option (\<lambda>s'. heap.more s' = heap.more s) (kfree p s)"
    unfolding kfree_def Let_def
    by (intro pred_option_intros) (auto dest!: heap_acquire_more)
  then show "kfree p s = Some s' \<Longrightarrow> heap.more s' = heap.more s" by simp
qed

lemma sched_fields:
  assumes "heap.more s' = heap.more (s :: 'a sched_scheme)"
  shows "tasks s' = tasks s" "task_count s' = task_count s" "current_task s' = current_task s"
    "next_id s' = next_id s" "tss_rsp0 s' = tss_rsp0 s" "cr3 s' = cr3 s" "kernel_pml4 s' = kernel_pml4 s"
  using assms by (cases s; cases s'; simp)+

section \<open>The invariant of the task table\<close>

definition sched_inv :: "'a sched_scheme \<Rightarrow> bool" where [inv_defs]:
  "sched_inv s \<longleftrightarrow> length (tasks s) = MAX_TASKS \<and> 0 < task_count s \<and> task_count s \<le> MAX_TASKS
     \<and> current_task s < task_count s
     \<and> (\<forall>i < task_count s. 0 \<le> priority (task s i) \<and> priority (task s i) \<le> 3)
     \<and> (\<forall>i < MAX_TASKS. state (task s i) = TASK_RUNNING \<longrightarrow> i = current_task s)"

lemma sched_inv_set_task:
  assumes "sched_inv s" and "i < MAX_TASKS"
    and "\<And>t. state (f t) = TASK_RUNNING \<Longrightarrow> i = current_task s"
    and "i < task_count s \<Longrightarrow> 0 \<le> priority (f (task s i)) \<and> priority (f (task s i)) \<le> 3"
  shows "sched_inv (set_task i f s)"
  using assms by (auto simp: sched_inv_def set_task_def nth_list_update split: if_splits)

lemma sched_inv_cong:
  assumes "tasks s' = tasks s" "task_count s' = task_count s" "current_task s' = current_task s"
  shows "sched_inv s' = sched_inv s"
  using assms by (simp add: sched_inv_def)

lemma nth_map_front: "i < length xs \<Longrightarrow> (map f (take n xs) @ drop n xs) ! i = (if i < n then f (xs ! i) else xs ! i)"
  by (auto simp: nth_append)

lemma sched_inv_map_front:
  assumes "sched_inv s" and "\<And>t. priority (f t) = priority t" and "\<And>t. state (f t) = TASK_RUNNING \<Longrightarrow> state t = TASK_RUNNING"
  shows "sched_inv (s\<lparr>tasks := map f (take (task_count s) (tasks s)) @ drop (task_count s) (tasks s)\<rparr>)"
proof -
  have l: "length (tasks s) = 64" using assms(1) by (simp add: sched_inv_def)
  have n: "(map f (take (task_count s) (tasks s)) @ drop (task_count s) (tasks s)) ! i
      = (if i < task_count s then f (task s i) else task s i)" if "i < 64" for i
    using nth_map_front [of i "tasks s"] that l by simp
  show ?thesis using assms l n unfolding sched_inv_def by (auto split: if_splits)
qed

lemma wake_sleepers_inv: "sched_inv s \<Longrightarrow> sched_inv (wake_sleepers now s)"
  unfolding wake_sleepers_def by (rule sched_inv_map_front) (auto split: if_splits)

lemma wake_waiters_inv: "sched_inv s \<Longrightarrow> sched_inv (wake_waiters i s)"
  unfolding wake_waiters_def Let_def by (rule sched_inv_map_front) (auto split: if_splits)

lemma cleanup_one_frame:
  assumes "cleanup_one i s = Some s'"
  shows "task_count s' = task_count s \<and> current_task s' = current_task s \<and> kernel_pml4 s' = kernel_pml4 s"
  using assms
  by (auto simp: cleanup_one_def wake_waiters_def set_task_def Let_def bind_eq_Some_conv sched_fields(2,3,7) [OF kfree_more]
      split: if_splits)

lemma cleanup_one_inv: "sched_inv s \<Longrightarrow> i < MAX_TASKS \<Longrightarrow> cleanup_one i s = Some s' \<Longrightarrow> sched_inv s'"
proof -
  assume inv: "sched_inv s" and i: "i < MAX_TASKS" and c: "cleanup_one i s = Some s'"
  show ?thesis
  proof (cases "state (task s i) \<noteq> TASK_DEAD \<or> i = current_task s")
    case True
    then show ?thesis using c inv by (simp add: cleanup_one_def)
  next
    case False
    let ?w = "wake_waiters i s"
    have w: "sched_inv ?w" by (rule wake_waiters_inv [OF inv])
    show ?thesis
    proof (cases "stack_base (task ?w i) = NULL")
      case True
      then show ?thesis using c False w by (simp add: cleanup_one_def Let_def)
    next
      case nn: False
      obtain s1 where k: "kfree (stack_base (task ?w i)) ?w = Some s1" "s' = set_task i (stack_base_update (\<lambda>_. NULL)) s1"
        using c False nn by (auto simp: cleanup_one_def Let_def bind_eq_Some_conv)
      note f = sched_fields [OF kfree_more [OF k(1)]]
      have s1: "sched_inv s1" using w sched_inv_cong [OF f(1-3)] by simp
      then show ?thesis using i unfolding k(2)
        by (auto simp: sched_inv_def set_task_def nth_list_update)
    qed
  qed
qed

lemma cleanup_loop_inv:
  "sched_inv s \<Longrightarrow> \<forall>i \<in> set is. i < MAX_TASKS \<Longrightarrow> cleanup_loop is s = Some s' \<Longrightarrow>
   sched_inv s' \<and> task_count s' = task_count s \<and> current_task s' = current_task s \<and> kernel_pml4 s' = kernel_pml4 s"
proof (induction "is" arbitrary: s)
  case (Cons i "is")
  obtain s1 where 1: "cleanup_one i s = Some s1" "cleanup_loop is s1 = Some s'"
    using Cons.prems(3) by (auto simp: bind_eq_Some_conv)
  have "sched_inv s1" using cleanup_one_inv [OF Cons.prems(1) _ 1(1)] Cons.prems(2) by simp
  then show ?case using Cons.IH [OF _ _ 1(2)] Cons.prems(2) cleanup_one_frame [OF 1(1)] by simp
qed simp

section \<open>Which task is picked\<close>

lemma candidates_set: "0 < task_count s \<Longrightarrow> set (candidates s) = {..<task_count s}"
proof
  assume n: "0 < task_count s"
  show "set (candidates s) \<subseteq> {..<task_count s}" using n by (auto simp: candidates_def)
  show "{..<task_count s} \<subseteq> set (candidates s)"
  proof
    fix k assume "k \<in> {..<task_count s}"
    then have k: "k < task_count s" by simp
    define c where "c = current_task s mod task_count s"
    define i where "i = (if c < k then k - c else k + task_count s - c)"
    have c: "c < task_count s" using n by (simp add: c_def)
    then have i: "1 \<le> i" "i \<le> task_count s" using k by (auto simp: i_def)
    have "(c + i) mod task_count s = k"
    proof (cases "c < k")
      case True
      then show ?thesis using k by (simp add: i_def)
    next
      case False
      then have "c + i = k + task_count s" using c by (simp add: i_def)
      then show ?thesis using k by simp
    qed
    then have "(current_task s + i) mod task_count s = k" by (simp add: c_def mod_add_left_eq)
    then show "k \<in> set (candidates s)" using i unfolding candidates_def
      by (auto simp del: upt_Suc intro!: image_eqI [of _ _ i])
  qed
qed

definition ready_at :: "'a sched_scheme \<Rightarrow> int \<Rightarrow> nat \<Rightarrow> bool" where
  "ready_at s p i \<longleftrightarrow> state (task s i) = TASK_READY \<and> priority (task s i) = p"

lemma find_ready_cases:
  "find_ready s = (case filter (ready_at s 0) (candidates s) of i # _ \<Rightarrow> Some i | [] \<Rightarrow>
     (case filter (ready_at s 1) (candidates s) of i # _ \<Rightarrow> Some i | [] \<Rightarrow>
     (case filter (ready_at s 2) (candidates s) of i # _ \<Rightarrow> Some i | [] \<Rightarrow>
     (case filter (ready_at s 3) (candidates s) of i # _ \<Rightarrow> Some i | [] \<Rightarrow> None))))"
  unfolding find_ready_def ready_at_def by (simp split: list.split)

text \<open>The result of the search: the best priority, and the first in cyclic order after the current task.\<close>

lemma find_ready_Some:
  assumes "find_ready s = Some k" and "0 < task_count s" and "\<forall>i < task_count s. 0 \<le> priority (task s i) \<and> priority (task s i) \<le> 3"
  shows "k < task_count s \<and> state (task s k) = TASK_READY
    \<and> (\<forall>i < task_count s. state (task s i) = TASK_READY \<longrightarrow> priority (task s k) \<le> priority (task s i))
    \<and> (\<exists>j. 1 \<le> j \<and> j \<le> task_count s \<and> k = (current_task s + j) mod task_count s
        \<and> (\<forall>i. 1 \<le> i \<and> i < j \<longrightarrow> \<not> ready_at s (priority (task s k)) ((current_task s + i) mod task_count s)))"
proof -
  have none: "filter (ready_at s p) (candidates s) = [] \<longleftrightarrow> (\<forall>i < task_count s. \<not> ready_at s p i)" for p
    using candidates_set [OF assms(2)] by (auto simp: filter_empty_conv)
  obtain p rest where p: "filter (ready_at s p) (candidates s) = k # rest" "\<forall>q. 0 \<le> q \<and> q < p \<longrightarrow> (\<forall>i < task_count s. \<not> ready_at s q i)"
  proof -
    note found = that
    have c: "thesis" if "filter (ready_at s p) (candidates s) = k # r"
      "\<And>q. q \<in> {0..<p} \<Longrightarrow> filter (ready_at s q) (candidates s) = []" for p r
      using found [OF that(1)] that(2) none by auto
    have i1: "{0..<1} = {0::int}" and i2: "{0..<2} = {0::int, 1}" and i3: "{0..<3} = {0::int, 1, 2}" by auto
    show ?thesis
    proof (cases "filter (ready_at s 0) (candidates s)")
      case (Cons a r)
      then show ?thesis using c [of 0 r] assms(1) by (simp add: find_ready_cases)
    next
      case 0: Nil
      show ?thesis
      proof (cases "filter (ready_at s 1) (candidates s)")
        case (Cons a r)
        then show ?thesis using c [of 1 r] assms(1) 0 by (simp add: find_ready_cases i1)
      next
        case 1: Nil
        show ?thesis
        proof (cases "filter (ready_at s 2) (candidates s)")
          case (Cons a r)
          then show ?thesis using c [of 2 r] assms(1) 0 1 by (auto simp: find_ready_cases i2)
        next
          case 2: Nil
          then show ?thesis using c [of 3] assms(1) 0 1
            by (cases "filter (ready_at s 3) (candidates s)") (auto simp: find_ready_cases i3)
        qed
      qed
    qed
  qed
  obtain us vs where uv: "candidates s = us @ k # vs" "\<forall>u \<in> set us. \<not> ready_at s p u" "ready_at s p k"
    using p(1) unfolding filter_eq_Cons_iff by blast
  have k: "k < task_count s" using candidates_set [OF assms(2)] uv(1) by (metis in_set_conv_decomp lessThan_iff)
  have pr: "priority (task s k) = p" "state (task s k) = TASK_READY" using uv(3) by (auto simp: ready_at_def)
  have best: "p \<le> priority (task s i)" if i: "i < task_count s" "state (task s i) = TASK_READY" for i
  proof (rule ccontr)
    assume "\<not> p \<le> priority (task s i)"
    then have "\<not> ready_at s (priority (task s i)) i" using p(2) assms(3) i by auto
    then show False using i by (simp add: ready_at_def)
  qed
  have len: "length (candidates s) = task_count s" by (simp add: candidates_def)
  let ?j = "Suc (length us)"
  have nth: "candidates s ! i = (current_task s + Suc i) mod task_count s" if "i < task_count s" for i
    using that by (simp add: candidates_def del: upt_Suc)
  have "length us < task_count s" using uv(1) len by (metis add_Suc_right length_append length_Cons less_add_Suc1)
  moreover have "k = (current_task s + ?j) mod task_count s"
    using nth [of "length us"] calculation uv(1) by simp
  moreover have "\<not> ready_at s p ((current_task s + i) mod task_count s)" if "1 \<le> i" "i < ?j" for i
  proof -
    have "candidates s ! (i - 1) = us ! (i - 1)" "us ! (i - 1) \<in> set us"
      using that uv(1) by (auto simp: nth_append)
    moreover have "candidates s ! (i - 1) = (current_task s + i) mod task_count s"
      using nth [of "i - 1"] that \<open>length us < task_count s\<close> by simp
    ultimately show ?thesis using uv(2) by metis
  qed
  ultimately show ?thesis using k pr best by (intro conjI exI [of _ ?j]) auto
qed

lemma find_ready_None:
  assumes "find_ready s = None" and "0 < task_count s" and "\<forall>i < task_count s. 0 \<le> priority (task s i) \<and> priority (task s i) \<le> 3"
  shows "\<forall>i < task_count s. state (task s i) \<noteq> TASK_READY"
proof (intro allI impI notI)
  fix i assume i: "i < task_count s" "state (task s i) = TASK_READY"
  have "ready_at s (priority (task s i)) i" using i by (simp add: ready_at_def)
  moreover have "priority (task s i) = 0 \<or> priority (task s i) = 1 \<or> priority (task s i) = 2 \<or> priority (task s i) = 3"
    using assms(3) i(1) by (smt (verit))
  moreover have "filter (ready_at s p) (candidates s) = []" if "p = 0 \<or> p = 1 \<or> p = 2 \<or> p = 3" for p
    using assms(1) that unfolding find_ready_cases by (auto split: list.splits)
  ultimately have "filter (ready_at s (priority (task s i))) (candidates s) = []" by blast
  moreover have "i \<in> set (candidates s)" using candidates_set [OF assms(2)] i(1) by simp
  ultimately have "\<not> ready_at s (priority (task s i)) i" by (simp add: filter_empty_conv)
  then show False using i by (simp add: ready_at_def)
qed


section \<open>Every operation keeps the invariant\<close>

lemma cleanup_dead_tasks_inv:
  assumes "sched_inv s" and "cleanup_dead_tasks s = Some s'"
  shows "sched_inv s' \<and> task_count s' = task_count s \<and> current_task s' = current_task s \<and> kernel_pml4 s' = kernel_pml4 s"
  using assms(2) unfolding cleanup_dead_tasks_def
  by (rule cleanup_loop_inv [OF assms(1), rotated]) (use assms(1) in \<open>auto simp: sched_inv_def\<close>)

lemma wake_sleepers_frame [simp]:
  "task_count (wake_sleepers now s) = task_count s" "current_task (wake_sleepers now s) = current_task s"
  by (simp_all add: wake_sleepers_def)

text \<open>What \<open>pick_next\<close> hands back: a ready task of the best priority, or the idle task if there is none.\<close>

lemma pick_next_spec:
  assumes "sched_inv s" and "pick_next now s = Some (k, s')"
  shows "sched_inv s' \<and> task_count s' = task_count s \<and> current_task s' = current_task s \<and> k < task_count s
    \<and> find_ready s' = (if (\<exists>i < task_count s'. state (task s' i) = TASK_READY) then Some k else None)
    \<and> (find_ready s' = None \<longrightarrow> k = 0)"
proof -
  obtain s1 where s1: "cleanup_dead_tasks (wake_sleepers now s) = Some s1"
    "(case find_ready s1 of Some idx \<Rightarrow> (idx, s1) | None \<Rightarrow> (0, s1)) = (k, s')"
    using assms(2) by (auto simp: pick_next_def bind_eq_Some_conv)
  have inv: "sched_inv s1" "task_count s1 = task_count s" "current_task s1 = current_task s"
    using cleanup_dead_tasks_inv [OF wake_sleepers_inv [OF assms(1)] s1(1)] by auto
  have s': "s' = s1" using s1(2) by (auto split: option.splits)
  have n: "0 < task_count s1" "\<forall>i < task_count s1. 0 \<le> priority (task s1 i) \<and> priority (task s1 i) \<le> 3"
    using inv(1) by (auto simp: sched_inv_def)
  show ?thesis
  proof (cases "find_ready s1")
    case None
    then show ?thesis using find_ready_None [OF None n] s1(2) inv n(1) by (auto simp: s')
  next
    case (Some a)
    then show ?thesis using find_ready_Some [OF Some n] s1(2) inv by (auto simp: s')
  qed
qed

lemma switch_to_inv:
  assumes "sched_inv s" and "k < task_count s"
  shows "sched_inv (switch_to k s) \<and> current_task (switch_to k s) = k \<and> state (task (switch_to k s) k) = TASK_RUNNING"
proof -
  let ?p = "current_task s"
  let ?s1 = "if state (task s ?p) = TASK_RUNNING then set_task ?p (state_update (\<lambda>_. TASK_READY)) s else s"
  let ?s2 = "set_task k (state_update (\<lambda>_. TASK_RUNNING)) (?s1\<lparr>current_task := k\<rparr>)"
  have k: "k < length (tasks s)" using assms by (simp add: sched_inv_def)
  have "sched_inv ?s2 \<and> current_task ?s2 = k \<and> state (task ?s2 k) = TASK_RUNNING"
    using assms k by (auto simp: sched_inv_def set_task_def nth_list_update)
  moreover have "tasks (switch_to k s) = tasks ?s2 \<and> task_count (switch_to k s) = task_count ?s2 \<and> current_task (switch_to k s) = current_task ?s2"
    by (simp add: switch_to_def Let_def)
  ultimately show ?thesis using sched_inv_cong [of "switch_to k s" ?s2] by simp
qed

lemma sched_inv_rflags [simp]: "sched_inv (s\<lparr>rflags := f\<rparr>) = sched_inv s"
  by (simp add: sched_inv_def)

text \<open>A yield ends with the task \<open>pick_next\<close> chose as the current one, and interrupts on.\<close>

lemma sched_yield_spec:
  assumes "sched_inv s" and "sched_yield now s = Some s'"
  obtains k s1 where "pick_next now (s\<lparr>rflags := cli (rflags s)\<rparr>) = Some (k, s1)"
    "sched_inv s'" "current_task s' = k" "k \<noteq> current_task s \<Longrightarrow> state (task s' k) = TASK_RUNNING" "bit (rflags s') 9"
proof -
  obtain k s1 where p: "pick_next now (s\<lparr>rflags := cli (rflags s)\<rparr>) = Some (k, s1)"
    and s': "s' = (let s = (if k = current_task s1 then s1 else switch_to k s1) in s\<lparr>rflags := sti (rflags s)\<rparr>)"
    using assms(2) unfolding sched_yield_def bind_eq_Some_conv Let_def by auto
  have q: "sched_inv s1" "current_task s1 = current_task s" "k < task_count s1"
    using pick_next_spec [OF _ p] assms(1) by auto
  note w = switch_to_inv [OF q(1,3)]
  show ?thesis
  proof (rule that [OF p])
    show "sched_inv s'" "current_task s' = k" "k \<noteq> current_task s \<Longrightarrow> state (task s' k) = TASK_RUNNING"
      using q w by (auto simp: s' Let_def)
    show "bit (rflags s') 9" by (simp add: s' Let_def sti_def bit_simps)
  qed
qed

lemma sched_yield_inv: "sched_inv s \<Longrightarrow> sched_yield now s = Some s' \<Longrightarrow> sched_inv s'"
  by (erule (1) sched_yield_spec)

lemma sched_inv_current:
  assumes "sched_inv s" and "\<And>t. priority (f t) = priority t"
  shows "sched_inv (set_task (current_task s) f s)"
  using assms by (auto simp: sched_inv_def set_task_def nth_list_update split: if_splits)

lemma sched_inv_other:
  assumes "sched_inv s" and "\<And>t. priority (f t) = priority t" and "\<And>t. state (f t) = TASK_RUNNING \<Longrightarrow> state t = TASK_RUNNING"
  shows "sched_inv (set_task i f s)"
  using assms by (cases "i < 64") (auto simp: sched_inv_def set_task_def nth_list_update split: if_splits)

lemma find_slot_lt: "sched_inv s \<Longrightarrow> find_slot s = Some i \<Longrightarrow> 0 < i \<and> i \<le> task_count s \<and> i < MAX_TASKS"
proof -
  assume inv: "sched_inv s" and f: "find_slot s = Some i"
  let ?f = "filter (\<lambda>i. state (task s i) = TASK_DEAD \<and> stack_base (task s i) = NULL) [1..<task_count s]"
  show ?thesis
  proof (cases ?f)
    case Nil
    then show ?thesis using f inv by (auto simp: find_slot_def sched_inv_def split: if_splits)
  next
    case (Cons a r)
    then have "a \<in> set ?f" by simp
    then have "1 \<le> a" "a < task_count s" by auto
    then show ?thesis using f inv Cons by (auto simp: find_slot_def sched_inv_def)
  qed
qed

lemma sched_inv_fill_slot:
  assumes "sched_inv s" and "i \<le> task_count s" and "i < MAX_TASKS" and "0 \<le> priority t" "priority t \<le> 3" "state t = TASK_READY"
  shows "sched_inv (s\<lparr>task_count := (if task_count s \<le> i then i + 1 else task_count s), tasks := (tasks s)[i := t]\<rparr>)"
  using assms by (auto simp: sched_inv_def nth_list_update)

lemma sched_inv_blank: "sched_inv s \<Longrightarrow> sched_inv (s\<lparr>tasks := (tasks s)[i := blank_task]\<rparr>)"
  by (cases "i < 64") (auto simp: sched_inv_def nth_list_update blank_task_def)

lemma do_task_create_spec:
  assumes "sched_inv s" and "0 \<le> prio" "prio \<le> 3" and "do_task_create tr nm entry prio s = Some (r, s')"
  shows "sched_inv s' \<and> current_task s' = current_task s \<and> (case r of
      None \<Rightarrow> task_count s' = task_count s \<and> next_id s' = next_id s
    | Some i \<Rightarrow> find_slot s = Some i \<and> i < task_count s' \<and> task_count s' = max (task_count s) (i + 1) \<and> next_id s' = next_id s + 1
        \<and> state (task s' i) = TASK_READY \<and> priority (task s' i) = prio \<and> tid (task s' i) = next_id s
        \<and> stack_base (task s' i) \<noteq> NULL \<and> rsp (ctx (task s' i)) = ((stack_base (task s' i) + TASK_STACK_SIZE) AND NOT 15) - 72
        \<and> parent_id (task s' i) = tid (task s (current_task s))
        \<and> (\<forall>j < MAX_TASKS. j \<noteq> i \<longrightarrow> task s' j = task s j))"
proof (cases "find_slot s")
  case None
  then show ?thesis using assms by (auto simp: do_task_create_def)
next
  case (Some slot)
  note sl = find_slot_lt [OF assms(1) Some]
  obtain b s1 where k: "kmalloc TASK_STACK_SIZE s = Some (b, s1)"
    using assms(4) Some by (auto simp: do_task_create_def bind_eq_Some_conv)
  note f = sched_fields [OF kmalloc_more [OF k]]
  have inv1: "sched_inv s1" using sched_inv_cong [OF f(1-3)] assms(1) by simp
  have len: "length (tasks s) = 64" using assms(1) by (simp add: sched_inv_def)
  show ?thesis
  proof (cases "b = NULL")
    case True
    then have s': "r = None" "s' = s1\<lparr>tasks := (tasks s1)[slot := blank_task]\<rparr>"
      using assms(4) Some k by (auto simp: do_task_create_def set_task_def)
    show ?thesis using sched_inv_blank [OF inv1] f by (simp add: s')
  next
    case False
    obtain m sp where m: "init_stack b tr entry (memory s1) = (m, sp)" by (cases "init_stack b tr entry (memory s1)")
    have sp: "sp = ((b + TASK_STACK_SIZE) AND NOT 15) - 72"
      using m by (auto simp: init_stack_def Let_def)
    define t where "t = (task s slot)\<lparr>stack_base := b, tid := next_id s, state := TASK_READY, tname := nm, priority := prio,
             exit_code := 0, parent_id := tid (task s (current_task s)), wait_for_id := 0, pending_slot := -1,
             ctx := \<lparr>rsp = sp, rip = entry, rbx = 0, rbp = 0, r12 = 0, r13 = 0, r14 = 0, r15 = 0,
                     ctx_rflags = 0x202\<rparr>\<rparr>"
    have r: "r = Some slot" and s': "tasks s' = (tasks s)[slot := t]" "current_task s' = current_task s"
      "task_count s' = (if task_count s \<le> slot then slot + 1 else task_count s)" "next_id s' = next_id s + 1"
      using assms(4) Some k False sl f len m by (auto simp: do_task_create_def set_task_def t_def Let_def nth_list_update)
    have "sched_inv (s\<lparr>task_count := (if task_count s \<le> slot then slot + 1 else task_count s), tasks := (tasks s)[slot := t]\<rparr>)"
      using sl assms by (intro sched_inv_fill_slot) (simp_all add: t_def)
    then have "sched_inv s'" using sched_inv_cong [of s' "s\<lparr>task_count := (if task_count s \<le> slot then slot + 1 else task_count s), tasks := (tasks s)[slot := t]\<rparr>"] s'
      by simp
    then show ?thesis using r s' sl len False Some by (auto simp: t_def sp)
  qed
qed

lemma task_create_prio_inv:
  "sched_inv s \<Longrightarrow> task_create_prio tr nm entry prio s = Some (r, s') \<Longrightarrow> sched_inv s'"
  unfolding task_create_prio_def Let_def by (drule do_task_create_spec [rotated 3]) (auto split: if_splits)

lemma task_create_inv:
  "sched_inv s \<Longrightarrow> task_create tr nm entry s = Some (r, s') \<Longrightarrow> sched_inv s'"
  unfolding task_create_def by (drule do_task_create_spec [rotated 3]) auto

lemma sched_init_inv: "sched_inv (sched_init s)"
  by (auto simp: sched_init_def sched_inv_def blank_task_def nth_list_update nth_Cons' split: if_splits)

lemma sched_send_signal_inv: "sched_inv s \<Longrightarrow> sched_inv (snd (sched_send_signal i sig s))"
  unfolding sched_send_signal_def
  by (auto split: option.split intro!: sched_inv_other split: if_splits)

lemma sched_yield_current_inv:
  assumes "sched_yield now (set_task (current_task s) f s) = Some s'" and "sched_inv s" and "\<And>t. priority (f t) = priority t"
  shows "sched_inv s'"
  by (rule sched_yield_inv [OF sched_inv_current [OF assms(2,3)] assms(1)])

lemma sched_wait_inv: "sched_wait now i s = Some (r, s') \<Longrightarrow> sched_inv s \<Longrightarrow> sched_inv s'"
  unfolding sched_wait_def bind_eq_Some_conv
  by (auto simp: bind_eq_Some_conv split: option.splits if_splits dest!: sched_yield_current_inv)

text \<open>The calls that change the task table, and what can be reached by them from the initial state.\<close>

inductive sched_step :: "'a sched_scheme \<Rightarrow> 'a sched_scheme \<Rightarrow> bool" where
  Create: "task_create tr nm entry s = Some (r, s') \<Longrightarrow> sched_step s s'"
| Create_prio: "task_create_prio tr nm entry prio s = Some (r, s') \<Longrightarrow> sched_step s s'"
| Schedule: "sched_schedule now s = Some s' \<Longrightarrow> sched_step s s'"
| Sleep: "sched_sleep now ticks s = Some s' \<Longrightarrow> sched_step s s'"
| Wait: "sched_wait now i s = Some (w, s') \<Longrightarrow> sched_step s s'"
| Exit: "sched_exit now code s = Some s' \<Longrightarrow> sched_step s s'"
| Return: "task_exit_trampoline now s = Some s' \<Longrightarrow> sched_step s s'"
| Signal: "sched_step s (snd (sched_send_signal i sig s))"

lemma sched_step_inv: "sched_step s s' \<Longrightarrow> sched_inv s \<Longrightarrow> sched_inv s'"
proof (induction rule: sched_step.induct)
  case (Sleep now ticks s s')
  then show ?case unfolding sched_sleep_def by (rule sched_yield_current_inv) simp
next
  case (Exit now code s s')
  then show ?case unfolding sched_exit_def by (rule sched_yield_current_inv) simp
next
  case (Return now s s')
  then show ?case unfolding task_exit_trampoline_def by (rule sched_yield_current_inv) simp
qed (auto simp: sched_schedule_def
    intro: task_create_inv task_create_prio_inv sched_yield_inv sched_wait_inv sched_send_signal_inv)

lemma sched_steps_inv: "sched_step\<^sup>*\<^sup>* s s' \<Longrightarrow> sched_inv s \<Longrightarrow> sched_inv s'"
  by (induction rule: rtranclp_induct) (auto intro: sched_step_inv)


section \<open>Waking the waiters of a dead task\<close>

definition woken :: "Task \<Rightarrow> Task \<Rightarrow> Task" where
  "woken d t = (if state t = TASK_BLOCKED \<and> wait_for_id t = tid d
                then t\<lparr>state := TASK_READY, exit_code := exit_code d, wait_for_id := 0\<rparr> else t)"

lemma cleanup_one_effect:
  assumes "cleanup_one k s = Some s'" and "length (tasks s) = MAX_TASKS" and "k < task_count s" "task_count s \<le> MAX_TASKS" and "m < task_count s"
    and "state (task s k) = TASK_DEAD" and "k \<noteq> current_task s"
  shows "task s' m = (if m = k then (woken (task s k) (task s m))\<lparr>stack_base := NULL\<rparr> else woken (task s k) (task s m))"
proof -
  let ?w = "wake_waiters k s"
  have w: "task ?w i = woken (task s k) (task s i)" if "i < task_count s" for i
    using that assms(2,4) nth_map_front [of i "tasks s"] by (simp add: wake_waiters_def Let_def woken_def)
  have len: "length (tasks ?w) = 64" using assms(2,4) by (simp add: wake_waiters_def Let_def)
  show ?thesis
  proof (cases "stack_base (task ?w k) = NULL")
    case True
    then show ?thesis using assms w by (auto simp: cleanup_one_def Let_def)
  next
    case False
    then obtain s1 where s1: "kfree (stack_base (task ?w k)) ?w = Some s1" "s' = set_task k (stack_base_update (\<lambda>_. NULL)) s1"
      using assms by (auto simp: cleanup_one_def Let_def bind_eq_Some_conv)
    show ?thesis using sched_fields(1) [OF kfree_more [OF s1(1)]] w len assms by (auto simp: s1(2) set_task_def nth_list_update)
  qed
qed

lemma cleanup_one_tid:
  assumes "cleanup_one k s = Some s'" and "length (tasks s) = MAX_TASKS" and "k < task_count s" "task_count s \<le> MAX_TASKS" and "m < task_count s"
  shows "tid (task s' m) = tid (task s m)"
proof (cases "state (task s k) = TASK_DEAD \<and> k \<noteq> current_task s")
  case True
  then show ?thesis using cleanup_one_effect [OF assms] by (simp add: woken_def)
next
  case False
  then show ?thesis using assms(1) by (auto simp: cleanup_one_def)
qed

lemma cleanup_one_skip:
  assumes "cleanup_one k s = Some s'" and "length (tasks s) = MAX_TASKS" and "k < task_count s" "task_count s \<le> MAX_TASKS" and "m < task_count s"
    and "m = k \<Longrightarrow> state (task s m) \<noteq> TASK_DEAD" and "state (task s m) = TASK_BLOCKED \<Longrightarrow> wait_for_id (task s m) \<noteq> tid (task s k)"
  shows "task s' m = task s m"
proof (cases "state (task s k) = TASK_DEAD \<and> k \<noteq> current_task s")
  case True
  then show ?thesis using cleanup_one_effect [OF assms(1-5)] assms(6,7) by (auto simp: woken_def)
next
  case False
  then show ?thesis using assms(1) by (auto simp: cleanup_one_def)
qed

lemma cleanup_loop_ready:
  assumes "cleanup_loop is s = Some s'" and "sched_inv s" and "\<forall>k \<in> set is. k < task_count s" and "m < task_count s"
    and "state (task s m) = TASK_READY"
  shows "task s' m = task s m"
  using assms
proof (induction "is" arbitrary: s)
  case (Cons k "is")
  obtain s1 where 1: "cleanup_one k s = Some s1" "cleanup_loop is s1 = Some s'"
    using Cons.prems(1) by (auto simp: bind_eq_Some_conv)
  have l: "length (tasks s) = MAX_TASKS" "task_count s \<le> MAX_TASKS" using Cons.prems(2) by (auto simp: sched_inv_def)
  have i1: "sched_inv s1" using cleanup_one_inv [OF Cons.prems(2) _ 1(1)] Cons.prems(3) l by simp
  have "task s1 m = task s m"
    using cleanup_one_skip [OF 1(1) l(1) _ l(2) Cons.prems(4)] Cons.prems(3,5) by fastforce
  then show ?case using Cons.IH [OF 1(2) i1] cleanup_one_frame [OF 1(1)] Cons.prems by simp
qed simp

lemma cleanup_loop_wakes:
  assumes "cleanup_loop is s = Some s'" and "sched_inv s" and "\<forall>k \<in> set is. k < task_count s" and "i \<in> set is" and "distinct is"
    and "i \<noteq> current_task s" and "state (task s i) = TASK_DEAD" and "j < task_count s" and "state (task s j) = TASK_BLOCKED"
    and "wait_for_id (task s j) = tid (task s i)" and "\<forall>k < task_count s. tid (task s k) = tid (task s i) \<longrightarrow> k = i"
  shows "state (task s' j) = TASK_READY \<and> exit_code (task s' j) = exit_code (task s i)"
  using assms
proof (induction "is" arbitrary: s)
  case (Cons k "is")
  obtain s1 where 1: "cleanup_one k s = Some s1" "cleanup_loop is s1 = Some s'"
    using Cons.prems(1) by (auto simp: bind_eq_Some_conv)
  have l: "length (tasks s) = MAX_TASKS" "task_count s \<le> MAX_TASKS" using Cons.prems(2) by (auto simp: sched_inv_def)
  have k: "k < task_count s" and i: "i < task_count s" using Cons.prems(3,4) by auto
  have i1: "sched_inv s1" using cleanup_one_inv [OF Cons.prems(2) _ 1(1)] k l by simp
  note fr = cleanup_one_frame [OF 1(1)]
  show ?case
  proof (cases "k = i")
    case True
    have "task s1 j = woken (task s i) (task s j)"
      using cleanup_one_effect [OF 1(1) l(1) k l(2) Cons.prems(8)] Cons.prems(6,7,9) True by auto
    then have j1: "state (task s1 j) = TASK_READY" "exit_code (task s1 j) = exit_code (task s i)"
      using Cons.prems(9,10) by (simp_all add: woken_def)
    show ?thesis using cleanup_loop_ready [OF 1(2) i1 _ _ j1(1)] Cons.prems(3,8) fr j1 by simp
  next
    case False
    have ne: "tid (task s k) \<noteq> tid (task s i)" using Cons.prems(11) k False by auto
    have ti: "task s1 i = task s i"
      using cleanup_one_skip [OF 1(1) l(1) k l(2) i] Cons.prems(7) False by simp
    have tj: "task s1 j = task s j"
      using cleanup_one_skip [OF 1(1) l(1) k l(2) Cons.prems(8)] Cons.prems(9,10) ne by fastforce
    have tt: "tid (task s1 m) = tid (task s m)" if "m < task_count s" for m
      using cleanup_one_tid [OF 1(1) l(1) k l(2) that] .
    have "state (task s' j) = TASK_READY \<and> exit_code (task s' j) = exit_code (task s1 i)"
      using Cons.prems(3-11) fr ti tj tt False by (intro Cons.IH [OF 1(2) i1]) auto
    then show ?thesis using ti by simp
  qed
qed simp

lemma cleanup_dead_tasks_wakes:
  assumes "sched_inv s" and "1 \<le> i" "i < task_count s" "i \<noteq> current_task s" and "state (task s i) = TASK_DEAD"
    and "j < task_count s" "state (task s j) = TASK_BLOCKED" "wait_for_id (task s j) = tid (task s i)"
    and "\<forall>k < task_count s. tid (task s k) = tid (task s i) \<longrightarrow> k = i" and "cleanup_dead_tasks s = Some s'"
  shows "state (task s' j) = TASK_READY \<and> exit_code (task s' j) = exit_code (task s i)"
  using assms(10) unfolding cleanup_dead_tasks_def
  by (rule cleanup_loop_wakes) (use assms in auto)

section \<open>Properties\<close>

definition sample_sched :: "Task list \<Rightarrow> nat \<Rightarrow> nat \<Rightarrow> sched" where
  "sample_sched ts n c = heap.extend sample_heap \<lparr>tasks = ts @ replicate (MAX_TASKS - length ts) blank_task,
     task_count = n, current_task = c, next_id = 10, tss_rsp0 = 0, cr3 = 0, kernel_pml4 = 0\<rparr>"

definition idle_task :: "TaskState \<Rightarrow> Task" where
  "idle_task st = blank_task\<lparr>state := st, priority := PRIORITY_IDLE\<rparr>"

definition sample_task :: "u64 \<Rightarrow> TaskState \<Rightarrow> int \<Rightarrow> Task" where
  "sample_task i st p = blank_task\<lparr>tid := i, state := st, priority := p\<rparr>"

lemmas sample_sched_simps = sample_sched_def heap.defs idle_task_def sample_task_def blank_task_def

text \<open>C8: from \<open>sched_init\<close> on, whatever tasks are created, yield, sleep, wait, exit or are signalled, the task
  table keeps its invariant: at most 64 slots, a valid current task, priorities between 0 and 3, and no
  task but the current one in state RUNNING.\<close>

theorem sched_reachable_inv:
  assumes "sched_step\<^sup>*\<^sup>* (sched_init s) s'"
  shows "length (tasks s') = MAX_TASKS \<and> 0 < task_count s' \<and> task_count s' \<le> MAX_TASKS \<and> current_task s' < task_count s'
     \<and> (\<forall>i < task_count s'. 0 \<le> priority (task s' i) \<and> priority (task s' i) \<le> 3)
     \<and> (\<forall>i < MAX_TASKS. state (task s' i) = TASK_RUNNING \<longrightarrow> i = current_task s')"
  using sched_steps_inv [OF assms sched_init_inv] by (simp add: sched_inv_def)

theorem sched_reachable_inv_witness:
  "\<exists>s'. sched_step\<^sup>*\<^sup>* (sched_init (sample_sched [] 0 0)) s' \<and> current_task s' < task_count s' \<and> state (task s' 0) = TASK_BLOCKED"
proof -
  let ?s = "sched_init (sample_sched [] 0 0)"
  let ?s' = "snd (sched_send_signal 0 19 ?s)"
  have "sched_step\<^sup>*\<^sup>* ?s ?s'" by (rule r_into_rtranclp) (rule sched_step.Signal)
  moreover have "state (task ?s' 0) = TASK_BLOCKED"
  proof -
    have "task_count ?s = 1" "tid (task ?s 0) = 0" "state (task ?s 0) = TASK_RUNNING" "length (tasks ?s) = 64"
      by (simp_all add: sched_init_def blank_task_def)
    then show ?thesis by (simp add: sched_send_signal_def sched_find_task_def set_task_def)
  qed
  ultimately show ?thesis using sched_reachable_inv [of "sample_sched [] 0 0" ?s'] by blast
qed

text \<open>C9: \<open>pick_next\<close> wakes the sleepers and cleans up, and then returns a ready task with the best
  priority of all ready tasks; among those it takes the first one after the current task in cyclic order.
  If no task is ready it returns the idle task 0.\<close>

theorem pick_next_correct:
  assumes "sched_inv s" and "pick_next now s = Some (k, s')"
  shows "if \<exists>i < task_count s'. state (task s' i) = TASK_READY
    then k < task_count s' \<and> state (task s' k) = TASK_READY
      \<and> (\<forall>i < task_count s'. state (task s' i) = TASK_READY \<longrightarrow> priority (task s' k) \<le> priority (task s' i))
      \<and> (\<exists>j. 1 \<le> j \<and> j \<le> task_count s' \<and> k = (current_task s' + j) mod task_count s'
        \<and> (\<forall>i. 1 \<le> i \<and> i < j \<longrightarrow> \<not> ready_at s' (priority (task s' k)) ((current_task s' + i) mod task_count s')))
    else k = 0"
proof -
  note p = pick_next_spec [OF assms]
  have n: "0 < task_count s'" "\<forall>i < task_count s'. 0 \<le> priority (task s' i) \<and> priority (task s' i) \<le> 3"
    using p by (auto simp: sched_inv_def)
  show ?thesis
  proof (cases "\<exists>i < task_count s'. state (task s' i) = TASK_READY")
    case True
    then have f: "find_ready s' = Some k" using p by simp
    show ?thesis unfolding if_P [OF True] by (rule find_ready_Some [OF f n])
  next
    case False
    then show ?thesis using p by auto
  qed
qed

definition pick_sample :: sched where
  "pick_sample = sample_sched [idle_task TASK_READY, sample_task 1 TASK_RUNNING 1, sample_task 2 TASK_READY 1,
     sample_task 3 TASK_READY 0] 4 1"

lemma sample_nth: "i < 64 \<Longrightarrow> length ts \<le> 64 \<Longrightarrow> (ts @ replicate (MAX_TASKS - length ts) t) ! i = (if i < length ts then ts ! i else t)"
  by (simp add: nth_append)

lemma pick_sample_inv: "sched_inv pick_sample"
  by (auto simp: sched_inv_def pick_sample_def sample_sched_simps nth_Cons' nth_append)

lemma pick_sample_facts:
  "task_count pick_sample = 4" "current_task pick_sample = 1"
  "state (task pick_sample 0) = TASK_READY" "state (task pick_sample 1) = TASK_RUNNING"
  "state (task pick_sample 2) = TASK_READY" "state (task pick_sample 3) = TASK_READY"
  "priority (task pick_sample 0) = 3" "priority (task pick_sample 2) = 1" "priority (task pick_sample 3) = 0"
  "\<forall>t \<in> set (take 4 (tasks pick_sample)). state t \<noteq> TASK_SLEEPING"
  by (simp_all add: pick_sample_def sample_sched_simps)

lemma pick_sample_eval: "pick_next 0 pick_sample = Some (3, pick_sample)"
proof -
  have w: "wake_sleepers 0 pick_sample = pick_sample"
    using pick_sample_facts(10) by (simp add: wake_sleepers_def pick_sample_facts(1) map_idI)
  have u: "[1..<4] = [1, 2, 3::nat]" "[1..<5] = [1, 2, 3, 4::nat]" by (simp_all add: upt_rec)
  have c: "cleanup_dead_tasks pick_sample = Some pick_sample"
    unfolding cleanup_dead_tasks_def pick_sample_facts(1) u by (simp add: cleanup_one_def pick_sample_facts)
  have "candidates pick_sample = [2, 3, 0, 1]"
    unfolding candidates_def pick_sample_facts(1,2) by (simp add: u upt_rec)
  then have "find_ready pick_sample = Some 3" by (simp add: find_ready_def pick_sample_facts)
  then show ?thesis by (simp add: pick_next_def w c)
qed

theorem pick_next_witness:
  "pick_next 0 pick_sample = Some (3, pick_sample) \<and> priority (task pick_sample 3) = 0"
  using pick_next_correct [OF pick_sample_inv pick_sample_eval] pick_sample_eval
  by (simp add: pick_sample_facts)

text \<open>C10: when a dead task is cleaned up, a task blocked in \<open>sched_wait\<close> on it becomes ready again and
  finds the dead task's exit code in its own slot.\<close>

theorem waiter_gets_exit_code:
  assumes "sched_inv s" and "1 \<le> i" "i < task_count s" "i \<noteq> current_task s" and "state (task s i) = TASK_DEAD"
    and "j < task_count s" "state (task s j) = TASK_BLOCKED" "wait_for_id (task s j) = tid (task s i)"
    and "\<forall>k < task_count s. tid (task s k) = tid (task s i) \<longrightarrow> k = i" and "cleanup_dead_tasks s = Some s'"
  shows "state (task s' j) = TASK_READY \<and> exit_code (task s' j) = exit_code (task s i)"
  by (rule cleanup_dead_tasks_wakes [OF assms])

definition wait_sample :: sched where
  "wait_sample = sample_sched [idle_task TASK_RUNNING, (sample_task 1 TASK_DEAD 1)\<lparr>exit_code := 7\<rparr>,
     (sample_task 2 TASK_BLOCKED 1)\<lparr>wait_for_id := 1\<rparr>] 3 0"

lemma wait_sample_inv: "sched_inv wait_sample"
  by (auto simp: sched_inv_def wait_sample_def sample_sched_simps nth_Cons' nth_append)

theorem waiter_gets_exit_code_witness:
  "\<exists>s'. cleanup_dead_tasks wait_sample = Some s' \<and> state (task s' 2) = TASK_READY \<and> exit_code (task s' 2) = 7"
proof -
  have ids: "tid (task wait_sample 1) = 1" "tid (task wait_sample 0) = 0" "tid (task wait_sample 2) = 2"
    "task_count wait_sample = 3" "current_task wait_sample = 0" "state (task wait_sample 1) = TASK_DEAD"
    "state (task wait_sample 2) = TASK_BLOCKED" "wait_for_id (task wait_sample 2) = 1" "exit_code (task wait_sample 1) = 7"
    by (simp_all add: wait_sample_def sample_sched_simps)
  have v: "k = 1" if "k < 3" "tid (task wait_sample k) = 1" for k
    using that ids by (auto simp: less_Suc_eq numeral_3_eq_3 numeral_2_eq_2)
  let ?w = "wake_waiters 1 wait_sample"
  have w: "stack_base (task ?w 1) = NULL" "state (task ?w 2) = TASK_READY"
    by (simp_all add: wake_waiters_def Let_def wait_sample_def sample_sched_simps)
  have u: "[1..<3] = [1, 2::nat]" by (simp add: upt_rec)
  obtain s' where s': "cleanup_dead_tasks wait_sample = Some s'"
    unfolding cleanup_dead_tasks_def ids u using ids w by (simp add: cleanup_one_def)
  show ?thesis
    using waiter_gets_exit_code [OF wait_sample_inv, of 1 2 s'] s' ids v by simp
qed

text \<open>when \<open>kmalloc\<close> finds no memory for the stack of a new task, \<open>do_task_create\<close> zeroes the slot. The zero
  of \<open>TaskState\<close> is READY and the zero priority is HIGH, so a dead slot that was to be reused becomes
  a runnable task of the highest priority with a null stack pointer, though the call reports failure.\<close>

theorem failed_create_leaves_ready_slot:
  assumes "find_slot s = Some slot" and "slot < task_count s" and "slot < length (tasks s)" and "kmalloc TASK_STACK_SIZE s = Some (NULL, s1)"
  shows "\<exists>s'. do_task_create tr nm entry prio s = Some (None, s') \<and> task_count s' = task_count s
    \<and> state (task s' slot) = TASK_READY \<and> priority (task s' slot) = PRIORITY_HIGH \<and> rsp (ctx (task s' slot)) = 0"
  using assms sched_fields [OF kmalloc_more [OF assms(4)]]
  by (simp add: do_task_create_def set_task_def blank_task_def)

definition full_sample :: sched where
  "full_sample = (sample_sched [idle_task TASK_RUNNING, sample_task 1 TASK_DEAD 1] 2 0)
     \<lparr>free_list := NULL, bitmap := [0], free_count := 0\<rparr>"

theorem failed_create_witness:
  "\<exists>s'. do_task_create 0 ''t'' 0 2 full_sample = Some (None, s') \<and> state (task s' 1) = TASK_READY \<and> priority (task s' 1) = 0"
proof -
  have f: "find_slot full_sample = Some 1"
    by (simp add: find_slot_def full_sample_def sample_sched_simps upt_rec)
  have sc: "alloc_scan [0] 0 1 = Some None"
    by (simp add: alloc_scan.simps [of "[0]" 0] alloc_scan.simps [of "[0]" 1] word_at_def)
  have fl: "find_fit m n Head 0 = Some (Head, 0)" for m n
    by (simp add: find_fit.simps)
  obtain s1 where k: "kmalloc TASK_STACK_SIZE full_sample = Some (NULL, s1)"
    by (simp add: kmalloc_def full_sample_def sample_sched_def heap.defs sample_heap_def sample_pmm_def pmm.defs
        heap_acquire_def spin_lock_def test_and_set_def SPINLOCK_INIT_def try_alloc_def fl Let_def
        pmm_alloc_page_def pmm_acquire_def heap_release_def spin_unlock_def max_page_def sc cli_def)
  show ?thesis
    using failed_create_leaves_ready_slot [OF f _ _ k, of 0 "''t''" 0 2] by (auto simp: full_sample_def sample_sched_simps)
qed

end
