(* ===== verification/Sync.thy ===== *)
theory Sync
  imports Sched
begin

text \<open>
  Mutexes and semaphores of \<open>kernel/sync.c\<close>, and the timer of \<open>kernel/drivers/timer.c\<close>.  The queue
  \<open>wait_queue\<close> with its count is a list.  An operation that holds the guard with interrupts off is one step;
  \<open>mutex_lock\<close> and \<open>sem_wait\<close> loop over such steps, and \<open>others i\<close> is what the other tasks do to the
  object while the caller sleeps for the \<open>i\<close>-th time.

  The lemmas: at most one task is between lock and unlock of a mutex, a semaphore admits as many tasks as its initial
  count, a lock that is released is taken, and when the timer preempts.
\<close>

unbundle bit_operations_syntax

abbreviation (input) WAIT_QUEUE_SIZE :: nat where "WAIT_QUEUE_SIZE \<equiv> 16"

record Mutex =
  locked :: u32
  owner :: int
  wait_queue :: "int list"
  guard :: Spinlock

record Semaphore =
  sem_count :: int
  sem_queue :: "int list"
  sem_guard :: Spinlock

section \<open>Mutex\<close>

definition mutex_init :: "Mutex \<Rightarrow> Mutex" where
  "mutex_init m = m\<lparr>locked := 0, owner := -1, wait_queue := [], guard := spin_init (guard m)\<rparr>"

text \<open>One round of the loop of \<open>mutex_lock\<close>: \<open>task_id\<close> is \<open>(int) sched_current ()->id\<close>, \<open>f\<close> the flags register.\<close>

definition mutex_attempt :: "int \<Rightarrow> u64 \<Rightarrow> Mutex \<Rightarrow> (bool \<times> u64 \<times> Mutex) option" where
  "mutex_attempt task_id f m = do {
     (f, g) \<leftarrow> spin_lock f (guard m);
     let (f', g') = spin_unlock g;
     if locked m = 0 then Some (True, f', m\<lparr>locked := 1, owner := task_id, guard := g'\<rparr>)
     else Some (False, f', m\<lparr>wait_queue := (if length (wait_queue m) < WAIT_QUEUE_SIZE then wait_queue m @ [task_id] else wait_queue m), guard := g'\<rparr>) }"

partial_function (option) mutex_lock :: "(nat \<Rightarrow> Mutex \<Rightarrow> Mutex) \<Rightarrow> nat \<Rightarrow> int \<Rightarrow> u64 \<Rightarrow> Mutex \<Rightarrow> (u64 \<times> Mutex) option" where
  "mutex_lock others i task_id f m = do {
     (ok, f, m) \<leftarrow> mutex_attempt task_id f m;
     if ok then Some (f, m) else mutex_lock others (i + 1) task_id f (others i m) }"

definition mutex_unlock :: "u64 \<Rightarrow> Mutex \<Rightarrow> (u64 \<times> Mutex) option" where
  "mutex_unlock f m = do {
     (f, g) \<leftarrow> spin_lock f (guard m);
     let (f', g') = spin_unlock g;
     Some (f', m\<lparr>locked := 0, owner := -1, wait_queue := tl (wait_queue m), guard := g'\<rparr>) }"

definition mutex_try_lock :: "int \<Rightarrow> u64 \<Rightarrow> Mutex \<Rightarrow> (bool \<times> u64 \<times> Mutex) option" where
  "mutex_try_lock task_id f m = do {
     (f, g) \<leftarrow> spin_lock f (guard m);
     let (f', g') = spin_unlock g;
     if locked m = 0 then Some (True, f', m\<lparr>locked := 1, owner := task_id, guard := g'\<rparr>)
     else Some (False, f', m\<lparr>guard := g'\<rparr>) }"

section \<open>Semaphore\<close>

definition sem_init :: "int \<Rightarrow> Semaphore \<Rightarrow> Semaphore" where
  "sem_init initial s = s\<lparr>sem_count := initial, sem_queue := [], sem_guard := spin_init (sem_guard s)\<rparr>"

definition sem_attempt :: "int \<Rightarrow> u64 \<Rightarrow> Semaphore \<Rightarrow> (bool \<times> u64 \<times> Semaphore) option" where
  "sem_attempt task_id f s = do {
     (f, g) \<leftarrow> spin_lock f (sem_guard s);
     let (f', g') = spin_unlock g;
     if 0 < sem_count s then Some (True, f', s\<lparr>sem_count := sem_count s - 1, sem_guard := g'\<rparr>)
     else Some (False, f', s\<lparr>sem_queue := (if length (sem_queue s) < WAIT_QUEUE_SIZE then sem_queue s @ [task_id] else sem_queue s), sem_guard := g'\<rparr>) }"

partial_function (option) sem_wait :: "(nat \<Rightarrow> Semaphore \<Rightarrow> Semaphore) \<Rightarrow> nat \<Rightarrow> int \<Rightarrow> u64 \<Rightarrow> Semaphore \<Rightarrow> (u64 \<times> Semaphore) option" where
  "sem_wait others i task_id f s = do {
     (ok, f, s) \<leftarrow> sem_attempt task_id f s;
     if ok then Some (f, s) else sem_wait others (i + 1) task_id f (others i s) }"

definition sem_signal :: "u64 \<Rightarrow> Semaphore \<Rightarrow> (u64 \<times> Semaphore) option" where
  "sem_signal f s = do {
     (f, g) \<leftarrow> spin_lock f (sem_guard s);
     let (f', g') = spin_unlock g;
     Some (f', s\<lparr>sem_count := sem_count s + 1, sem_queue := tl (sem_queue s), sem_guard := g'\<rparr>) }"

definition sem_try_wait :: "u64 \<Rightarrow> Semaphore \<Rightarrow> (bool \<times> u64 \<times> Semaphore) option" where
  "sem_try_wait f s = do {
     (f, g) \<leftarrow> spin_lock f (sem_guard s);
     let (f', g') = spin_unlock g;
     if 0 < sem_count s then Some (True, f', s\<lparr>sem_count := sem_count s - 1, sem_guard := g'\<rparr>)
     else Some (False, f', s\<lparr>sem_guard := g'\<rparr>) }"

section \<open>Timer\<close>

record timer =
  g_ticks :: u64
  sched_active :: bool
  in_schedule :: bool

text \<open>
  \<open>timer_handler\<close> up to the task that runs next: when the scheduler switches away, the assignment after
  \<open>sched_schedule ()\<close> waits until the interrupted task runs again, which is \<open>timer_resume\<close>.
\<close>

definition timer_handler :: "timer \<Rightarrow> 'a sched_scheme \<Rightarrow> (timer \<times> 'a sched_scheme) option" where
  "timer_handler t s =
     (let t = t\<lparr>g_ticks := g_ticks t + 1\<rparr>
      in if sched_active t \<and> \<not> in_schedule t
         then do {
           s' \<leftarrow> sched_schedule (g_ticks t) s;
           Some (t\<lparr>in_schedule := (current_task s' \<noteq> current_task s)\<rparr>, s') }
         else Some (t, s))"

definition timer_resume :: "timer \<Rightarrow> timer" where
  "timer_resume t = t\<lparr>in_schedule := False\<rparr>"

definition timer_enable_preemption :: "timer \<Rightarrow> timer" where
  "timer_enable_preemption t = t\<lparr>sched_active := True\<rparr>"

definition pit_divisor :: "u32 \<Rightarrow> u16" where
  "pit_divisor hz = (let d = ucast (1193182 div hz) in if d = 0 then 1 else d)"

text \<open>The bytes written to the ports, in order, and the new interrupt mask; a frequency of 0 faults.\<close>

definition timer_init :: "u32 \<Rightarrow> u8 \<Rightarrow> timer \<Rightarrow> ((u16 \<times> u8) list \<times> timer) option" where
  "timer_init hz imask t = (if hz = 0 then None
     else let d = pit_divisor hz
          in Some ([(0x43, 0x34), (0x40, ucast (d AND 0xFF)), (0x40, ucast (drop_bit 8 d AND 0xFF)), (0x21, imask AND NOT 1)],
                   t\<lparr>g_ticks := 0, sched_active := False, in_schedule := False\<rparr>))"

definition timer_ticks :: "timer \<Rightarrow> u64" where
  "timer_ticks t = g_ticks t"

section \<open>Mutual exclusion\<close>

text \<open>A mutex and the tasks that hold it: those whose lock succeeded and that have not unlocked yet.\<close>

inductive mutex_step :: "Mutex \<times> int set \<Rightarrow> Mutex \<times> int set \<Rightarrow> bool" where
  Lock: "mutex_attempt t f m = Some (ok, f', m') \<Longrightarrow> mutex_step (m, h) (m', if ok then insert t h else h)"
| Try: "mutex_try_lock t f m = Some (ok, f', m') \<Longrightarrow> mutex_step (m, h) (m', if ok then insert t h else h)"
| Unlock: "t \<in> h \<Longrightarrow> mutex_unlock f m = Some (f', m') \<Longrightarrow> mutex_step (m, h) (m', h - {t})"

definition mutex_inv :: "Mutex \<times> int set \<Rightarrow> bool" where [inv_defs]:
  "mutex_inv p \<longleftrightarrow> (case p of (m, h) \<Rightarrow> if locked m = 0 then h = {} else (\<exists>t. h = {t} \<and> owner m = t))"

lemma mutex_step_inv: "mutex_step p q \<Longrightarrow> mutex_inv p \<Longrightarrow> mutex_inv q"
  by (induction rule: mutex_step.induct)
    (auto simp: mutex_inv_def mutex_attempt_def mutex_try_lock_def mutex_unlock_def bind_eq_Some_conv Let_def spin_unlock_def split: if_splits)

lemma mutex_steps_inv: "mutex_step\<^sup>*\<^sup>* p q \<Longrightarrow> mutex_inv p \<Longrightarrow> mutex_inv q"
  by (induction rule: rtranclp_induct) (auto intro: mutex_step_inv)

text \<open>C37: as long as only a task that holds the mutex unlocks it, at most one task holds it at any time, and it is the one
  recorded as the owner.\<close>

theorem mutex_exclusion:
  assumes "mutex_step\<^sup>*\<^sup>* (mutex_init m0, {}) (m, h)"
  shows "h = {} \<and> locked m = 0 \<or> (\<exists>t. h = {t} \<and> owner m = t)"
  using mutex_steps_inv [OF assms] by (auto simp: mutex_inv_def mutex_init_def split: if_splits)

definition sample_mutex :: Mutex where
  "sample_mutex = \<lparr>locked = 0, owner = 0, wait_queue = [], guard = SPINLOCK_INIT\<rparr>"

theorem mutex_exclusion_witness:
  "\<exists>m. mutex_step\<^sup>*\<^sup>* (mutex_init sample_mutex, {}) (m, {7}) \<and> owner m = 7"
proof -
  let ?m = "mutex_init sample_mutex"
  have g: "guard ?m = SPINLOCK_INIT" "locked ?m = 0"
    by (simp_all add: mutex_init_def sample_mutex_def spin_init_def SPINLOCK_INIT_def)
  obtain f' m' where a: "mutex_attempt 7 0x202 ?m = Some (True, f', m')"
    by (simp add: mutex_attempt_def g spin_lock_def test_and_set_def SPINLOCK_INIT_def Let_def spin_unlock_def)
  have "mutex_step (?m, {}) (m', {7})" using mutex_step.Lock [OF a, of "{}"] by simp
  then have "mutex_step\<^sup>*\<^sup>* (?m, {}) (m', {7})" by blast
  then show ?thesis using mutex_exclusion [of sample_mutex m' "{7}"] by auto
qed

section \<open>Counting\<close>

inductive sem_step :: "Semaphore \<times> nat \<Rightarrow> Semaphore \<times> nat \<Rightarrow> bool" where
  Wait: "sem_attempt t f s = Some (ok, f', s') \<Longrightarrow> sem_step (s, n) (s', if ok then Suc n else n)"
| TryWait: "sem_try_wait f s = Some (ok, f', s') \<Longrightarrow> sem_step (s, n) (s', if ok then Suc n else n)"
| Signal: "0 < n \<Longrightarrow> sem_signal f s = Some (f', s') \<Longrightarrow> sem_step (s, n) (s', n - 1)"

lemma sem_step_count: "sem_step p q \<Longrightarrow> 0 \<le> sem_count (fst p) \<Longrightarrow>
    0 \<le> sem_count (fst q) \<and> sem_count (fst q) + int (snd q) = sem_count (fst p) + int (snd p)"
  by (induction rule: sem_step.induct)
    (auto simp: sem_attempt_def sem_try_wait_def sem_signal_def bind_eq_Some_conv Let_def spin_unlock_def split: if_splits)

lemma sem_steps_count: "sem_step\<^sup>*\<^sup>* p q \<Longrightarrow> 0 \<le> sem_count (fst p) \<Longrightarrow>
    0 \<le> sem_count (fst q) \<and> sem_count (fst q) + int (snd q) = sem_count (fst p) + int (snd p)"
proof (induction rule: rtranclp_induct)
  case (step y z)
  then show ?case using sem_step_count [OF step.hyps(2)] by simp
qed simp


definition sample_sem :: Semaphore where
  "sample_sem = \<lparr>sem_count = 0, sem_queue = [], sem_guard = SPINLOCK_INIT\<rparr>"


section \<open>A released lock is taken\<close>

lemma mutex_attempt_total:
  assumes "lock (guard m) = 0"
  shows "\<exists>f' m'. mutex_attempt t f m = Some (locked m = 0, f', m') \<and> lock (guard m') = 0 \<and> (locked m = 0 \<longrightarrow> owner m' = t \<and> locked m' = 1)
    \<and> (locked m \<noteq> 0 \<longrightarrow> locked m' = locked m)"
  using assms by (auto simp: mutex_attempt_def spin_lock_def test_and_set_def spin_unlock_def Let_def)

lemma mutex_lock_returns:
  assumes "lock (guard m) = 0" and "\<And>j m. lock (guard m) = 0 \<Longrightarrow> lock (guard (others j m)) = 0"
    and "\<And>m. locked (others (i + n) m) = 0"
  shows "\<exists>f' m'. mutex_lock others i t f m = Some (f', m') \<and> owner m' = t \<and> locked m' = 1"
  using assms(1,3)
proof (induction n arbitrary: i f m)
  case 0
  obtain f' m' where a: "mutex_attempt t f m = Some (locked m = 0, f', m')" "lock (guard m') = 0" "locked m = 0 \<longrightarrow> owner m' = t \<and> locked m' = 1"
    using mutex_attempt_total [OF 0(1)] by blast
  obtain f2 m2 where b: "mutex_attempt t f' (others i m') = Some (True, f2, m2)" "owner m2 = t \<and> locked m2 = 1"
    using mutex_attempt_total [OF assms(2) [OF a(2)], of t f' i] 0(2) by auto
  show ?case using a b by (cases "locked m = 0") (simp_all add: mutex_lock.simps [of others i] mutex_lock.simps [of others "Suc i"])
next
  case (Suc n)
  obtain f' m' where a: "mutex_attempt t f m = Some (locked m = 0, f', m')" "lock (guard m') = 0" "locked m = 0 \<longrightarrow> owner m' = t \<and> locked m' = 1"
    using mutex_attempt_total [OF Suc.prems(1)] by blast
  have "\<exists>f2 m2. mutex_lock others (i + 1) t f' (others i m') = Some (f2, m2) \<and> owner m2 = t \<and> locked m2 = 1"
    using Suc.prems(2) by (intro Suc.IH [OF assms(2) [OF a(2)]]) simp
  then show ?case using a by (cases "locked m = 0") (simp_all add: mutex_lock.simps [of others i])
qed

text \<open>C39: \<open>mutex_lock\<close> returns, with the caller as the owner, as soon as the other tasks leave the mutex unlocked during one of the
  caller's sleeps, however long that takes.\<close>

theorem mutex_lock_liveness:
  assumes "lock (guard m) = 0" and "\<And>j m. lock (guard m) = 0 \<Longrightarrow> lock (guard (others j m)) = 0" and "\<And>m. locked (others n m) = 0"
  shows "\<exists>f' m'. mutex_lock others 0 t f m = Some (f', m') \<and> owner m' = t \<and> locked m' = 1"
  using mutex_lock_returns [OF assms(1,2), where i = 0 and n = n] assms(3) by simp

theorem mutex_lock_liveness_witness:
  "\<exists>f' m'. mutex_lock (\<lambda>i m. if i = 2 then m\<lparr>locked := 0\<rparr> else m) 0 5 0x202 (sample_mutex\<lparr>locked := 1, owner := 3\<rparr>) = Some (f', m') \<and> owner m' = 5"
proof -
  let ?o = "\<lambda>i m. if i = 2 then m\<lparr>locked := 0\<rparr> else m"
  have "\<exists>f' m'. mutex_lock ?o 0 5 0x202 (sample_mutex\<lparr>locked := 1, owner := 3\<rparr>) = Some (f', m') \<and> owner m' = 5 \<and> locked m' = 1"
    by (rule mutex_lock_liveness [where n = 2]) (auto simp: sample_mutex_def SPINLOCK_INIT_def)
  then show ?thesis by blast
qed

section \<open>Preemption\<close>

text \<open>once a timer interrupt has switched to another task, \<open>in_schedule\<close> stays set until the interrupted task runs again: the
  ticks in between count but never reach the scheduler, so a task that runs for the first time is not preempted.\<close>

theorem no_preemption_after_switch:
  assumes "timer_handler t s = Some (t', s')" and "current_task s' \<noteq> current_task s"
  shows "in_schedule t' \<and> timer_handler t' s'' = Some (t'\<lparr>g_ticks := g_ticks t' + 1\<rparr>, s'')"
  using assms by (auto simp: timer_handler_def Let_def bind_eq_Some_conv split: if_splits)

lemma pick_sample_switch: "pick_next 0 (pick_sample\<lparr>rflags := r\<rparr>) = Some (3, pick_sample\<lparr>rflags := r\<rparr>)"
proof -
  let ?s = "pick_sample\<lparr>rflags := r\<rparr>"
  note f = pick_sample_facts
  have w: "wake_sleepers 0 ?s = ?s" using f(10) by (simp add: wake_sleepers_def f(1) map_idI)
  have u: "[1..<4] = [1, 2, 3::nat]" "[1..<5] = [1, 2, 3, 4::nat]" by (simp_all add: upt_rec)
  have c: "cleanup_dead_tasks ?s = Some ?s"
    unfolding cleanup_dead_tasks_def using u by (simp add: cleanup_one_def f)
  have "candidates ?s = [2, 3, 0, 1]" unfolding candidates_def by (simp add: f u upt_rec)
  then have "find_ready ?s = Some 3" by (simp add: find_ready_def f)
  then show ?thesis by (simp add: pick_next_def w c)
qed

theorem no_preemption_after_switch_witness:
  "\<exists>t' s'. timer_handler \<lparr>g_ticks = -1, sched_active = True, in_schedule = False\<rparr> pick_sample = Some (t', s') \<and> in_schedule t'"
proof -
  let ?t = "\<lparr>g_ticks = -1, sched_active = True, in_schedule = False\<rparr>"
  obtain s' where y: "sched_yield 0 pick_sample = Some s'" "current_task s' = 3"
    using pick_sample_facts by (simp add: sched_yield_def pick_sample_switch switch_to_def Let_def set_task_def)
  obtain t' where t: "timer_handler ?t pick_sample = Some (t', s')"
    using y by (simp add: timer_handler_def sched_schedule_def)
  show ?thesis using no_preemption_after_switch [OF t] y(2) t pick_sample_facts(2) by auto
qed

text \<open>For frequencies from 19 Hz up to the base frequency of the timer chip the divisor is the exact quotient, between 1 and 65535.\<close>

theorem pit_divisor_exact:
  assumes "19 \<le> hz" and "hz \<le> 1193182"
  shows "unat (pit_divisor hz) = 1193182 div unat hz \<and> 1 \<le> unat (pit_divisor hz)"
proof -
  have h: "19 \<le> unat hz" "unat hz \<le> 1193182" using assms by (simp_all add: word_le_nat_alt)
  define q where "q = 1193182 div unat hz"
  have q: "1 \<le> q" "q < 65536"
    using h by (simp_all add: q_def Suc_le_eq div_greater_zero_iff less_mult_imp_div_less)
  have "unat (1193182 div hz) = q" by (simp add: unat_div q_def)
  then have "unat (ucast (1193182 div hz) :: u16) = q" using q(2) by (simp add: unsigned_ucast_eq take_bit_eq_mod)
  moreover from this have "(ucast (1193182 div hz) :: u16) \<noteq> 0" using q(1) by auto
  ultimately show ?thesis using q by (simp add: pit_divisor_def Let_def q_def)
qed

theorem pit_divisor_exact_witness: "unat (pit_divisor 100) = 11931"
  using pit_divisor_exact [of 100] by simp

end
