(* ===== verification/Gdt.thy ===== *)
theory Gdt
  imports Prelude
begin

text \<open>
  The global descriptor table and the task state segment of \<open>kernel/interrupts/gdt.c\<close>.  The table is the list of
  its 56 bytes; the addresses of the statics are arguments of \<open>gdt_init\<close>, whose result is the table
  register handed to \<open>gdt_flush\<close>.  The lemmas decode the bytes the way the processor does.
\<close>

unbundle bit_operations_syntax

record TSS =
  rsp :: "u64 list"
  ist :: "u64 list"
  iomap_base :: u16

record GDTR =
  gdtr_limit :: u16
  gdtr_base :: u64

record gdt =
  gdt_raw :: "u8 list"
  tss :: TSS

text \<open>The two packed structures as bytes.\<close>

definition GDTEntry :: "u16 \<Rightarrow> u16 \<Rightarrow> u8 \<Rightarrow> u8 \<Rightarrow> u8 \<Rightarrow> u8 \<Rightarrow> u8 list" where
  "GDTEntry limit_lo base_lo base_mid access flags_limit_hi base_hi =
     [ucast limit_lo, ucast (drop_bit 8 limit_lo), ucast base_lo, ucast (drop_bit 8 base_lo), base_mid, access, flags_limit_hi, base_hi]"

definition GDTSystemEntry :: "u16 \<Rightarrow> u16 \<Rightarrow> u8 \<Rightarrow> u8 \<Rightarrow> u8 \<Rightarrow> u8 \<Rightarrow> u32 \<Rightarrow> u8 list" where
  "GDTSystemEntry limit_lo base_lo base_mid access flags_limit_hi base_hi base_upper =
     GDTEntry limit_lo base_lo base_mid access flags_limit_hi base_hi
     @ [ucast base_upper, ucast (drop_bit 8 base_upper), ucast (drop_bit 16 base_upper), ucast (drop_bit 24 base_upper), 0, 0, 0, 0]"

definition put_bytes :: "nat \<Rightarrow> u8 list \<Rightarrow> u8 list \<Rightarrow> u8 list" where
  "put_bytes i bs xs = take i xs @ bs @ drop (i + length bs) xs"

definition set_gdt_entry :: "nat \<Rightarrow> u8 \<Rightarrow> u8 \<Rightarrow> gdt \<Rightarrow> gdt" where
  "set_gdt_entry index access flags s =
     s\<lparr>gdt_raw := put_bytes (index * 8) (GDTEntry 0xFFFF 0 0 access (push_bit 4 flags OR 0x0F) 0) (gdt_raw s)\<rparr>"

definition set_tss :: "nat \<Rightarrow> u64 \<Rightarrow> u32 \<Rightarrow> gdt \<Rightarrow> gdt" where
  "set_tss index base limit s =
     s\<lparr>gdt_raw := put_bytes (index * 8) (GDTSystemEntry (ucast (limit AND 0xFFFF)) (ucast (base AND 0xFFFF)) (ucast (drop_bit 16 base AND 0xFF)) 0x89
        (ucast (drop_bit 16 limit AND 0x0F)) (ucast (drop_bit 24 base AND 0xFF)) (ucast (drop_bit 32 base))) (gdt_raw s)\<rparr>"

definition gdt_set_rsp0 :: "u64 \<Rightarrow> gdt \<Rightarrow> gdt" where
  "gdt_set_rsp0 rsp0 s = s\<lparr>tss := (tss s)\<lparr>rsp := (rsp (tss s))[0 := rsp0]\<rparr>\<rparr>"

text \<open>The arguments: the addresses of \<open>gdt_raw\<close>, \<open>tss\<close>, \<open>ist1_stack\<close> and \<open>rsp0_stack\<close>; \<open>sizeof (TSS)\<close> is 104.\<close>

definition gdt_init :: "u64 \<Rightarrow> u64 \<Rightarrow> u64 \<Rightarrow> u64 \<Rightarrow> gdt \<Rightarrow> GDTR \<times> gdt" where
  "gdt_init gdt_addr tss_addr ist1_stack rsp0_stack s =
     (let s = s\<lparr>gdt_raw := replicate 56 0,
            tss := \<lparr>rsp = [rsp0_stack + 8192, 0, 0], ist = [ist1_stack + 4096, 0, 0, 0, 0, 0, 0], iomap_base = 104\<rparr>\<rparr>;
          s = set_gdt_entry 1 0x9A 0xA s;
          s = set_gdt_entry 2 0x92 0xC s;
          s = set_gdt_entry 3 0xF2 0xC s;
          s = set_gdt_entry 4 0xFA 0xA s;
          s = set_tss 5 tss_addr 103 s
      in (\<lparr>gdtr_limit = 55, gdtr_base = gdt_addr\<rparr>, s))"

section \<open>What the processor reads\<close>

text \<open>The fields of the descriptor in slot \<open>i\<close> of a table.\<close>

definition tss_base :: "u8 list \<Rightarrow> nat \<Rightarrow> u64" where
  "tss_base d i = ucast (d ! (i * 8 + 2)) OR push_bit 8 (ucast (d ! (i * 8 + 3))) OR push_bit 16 (ucast (d ! (i * 8 + 4)))
     OR push_bit 24 (ucast (d ! (i * 8 + 7))) OR push_bit 32 (ucast (d ! (i * 8 + 8))) OR push_bit 40 (ucast (d ! (i * 8 + 9)))
     OR push_bit 48 (ucast (d ! (i * 8 + 10))) OR push_bit 56 (ucast (d ! (i * 8 + 11)))"

definition seg_limit :: "u8 list \<Rightarrow> nat \<Rightarrow> u32" where
  "seg_limit d i = ucast (d ! (i * 8)) OR push_bit 8 (ucast (d ! (i * 8 + 1))) OR push_bit 16 (ucast (d ! (i * 8 + 6) AND 0x0F))"

definition access_of :: "u8 list \<Rightarrow> nat \<Rightarrow> u8" where
  "access_of d i = d ! (i * 8 + 5)"

definition dpl :: "u8 list \<Rightarrow> nat \<Rightarrow> u8" where
  "dpl d i = drop_bit 5 (access_of d i) AND 3"

definition is_code64 :: "u8 list \<Rightarrow> nat \<Rightarrow> bool" where
  "is_code64 d i \<longleftrightarrow> bit (access_of d i) 3 \<and> bit (d ! (i * 8 + 6)) 5"

lemma put_bytes_nth:
  "i + length bs \<le> length xs \<Longrightarrow> k < length xs \<Longrightarrow> put_bytes i bs xs ! k = (if i \<le> k \<and> k < i + length bs then bs ! (k - i) else xs ! k)"
  by (auto simp: put_bytes_def nth_append min_def)

lemma length_put_bytes: "i + length bs \<le> length xs \<Longrightarrow> length (put_bytes i bs xs) = length xs"
  by (simp add: put_bytes_def)

lemma gdt_entry_raw:
  assumes "length (gdt_raw s) = 56" and "i < 5"
  shows "length (gdt_raw (set_gdt_entry i a f s)) = 56"
    and "k < 56 \<Longrightarrow> gdt_raw (set_gdt_entry i a f s) ! k =
      (if i * 8 \<le> k \<and> k < i * 8 + 8 then GDTEntry 0xFFFF 0 0 a (push_bit 4 f OR 0x0F) 0 ! (k - i * 8) else gdt_raw s ! k)"
  using assms by (simp_all add: set_gdt_entry_def put_bytes_nth length_put_bytes GDTEntry_def)

lemma tss_entry_raw:
  assumes "length (gdt_raw s) = 56"
  shows "length (gdt_raw (set_tss 5 b l s)) = 56"
    and "k < 56 \<Longrightarrow> gdt_raw (set_tss 5 b l s) ! k =
      (if 40 \<le> k then GDTSystemEntry (ucast (l AND 0xFFFF)) (ucast (b AND 0xFFFF)) (ucast (drop_bit 16 b AND 0xFF)) 0x89
        (ucast (drop_bit 16 l AND 0x0F)) (ucast (drop_bit 24 b AND 0xFF)) (ucast (drop_bit 32 b)) ! (k - 40) else gdt_raw s ! k)"
  using assms by (simp_all add: set_tss_def put_bytes_nth length_put_bytes GDTSystemEntry_def GDTEntry_def)

lemma base_decode:
  "(ucast (ucast (ucast (base AND 0xFFFF :: u64) :: u16) :: u8) OR push_bit 8 (ucast (ucast (drop_bit 8 (ucast (base AND 0xFFFF) :: u16)) :: u8))
    OR push_bit 16 (ucast (ucast (drop_bit 16 base AND 0xFF) :: u8)) OR push_bit 24 (ucast (ucast (drop_bit 24 base AND 0xFF) :: u8))
    OR push_bit 32 (ucast (ucast (ucast (drop_bit 32 base) :: u32) :: u8)) OR push_bit 40 (ucast (ucast (drop_bit 8 (ucast (drop_bit 32 base) :: u32)) :: u8))
    OR push_bit 48 (ucast (ucast (drop_bit 16 (ucast (drop_bit 32 base) :: u32)) :: u8)) OR push_bit 56 (ucast (ucast (drop_bit 24 (ucast (drop_bit 32 base) :: u32)) :: u8)) :: u64)
   = base" (is "?d = base")
proof (rule bit_word_eqI)
  fix n assume n: "n < LENGTH(64)"
  have m: "(0xFFFF :: u64) = mask 16" "(0xFF :: u64) = mask 8" by (simp_all add: mask_eq_exp_minus_1)
  have "n < 64" using n by simp
  then consider "n < 8" | "8 \<le> n" "n < 16" | "16 \<le> n" "n < 24" | "24 \<le> n" "n < 32" | "32 \<le> n" "n < 40" | "40 \<le> n" "n < 48" | "48 \<le> n" "n < 56" | "56 \<le> n" "n < 64"
    by linarith
  then show "bit ?d n = bit base n"
    by cases (simp_all add: m bit_simps less_diff_conv2)
qed

text \<open>\<open>gdt_init\<close> builds the table its comment describes: 64-bit code for ring 0 and ring 3, data for both rings, and a task state
  descriptor in slots 5 and 6 whose scattered base and limit fields decode to the segment's address and size; and the segment
  holds the tops of the two stacks.\<close>

theorem gdt_init_layout:
  assumes "gdt_init gdt_addr tss_addr ist1 rsp0 s = (r, s')"
  shows "length (gdt_raw s') = 56 \<and> gdtr_limit r = 55 \<and> gdtr_base r = gdt_addr
    \<and> tss_base (gdt_raw s') 5 = tss_addr \<and> seg_limit (gdt_raw s') 5 = 103 \<and> access_of (gdt_raw s') 5 = 0x89
    \<and> is_code64 (gdt_raw s') 1 \<and> dpl (gdt_raw s') 1 = 0 \<and> \<not> is_code64 (gdt_raw s') 2 \<and> dpl (gdt_raw s') 2 = 0
    \<and> \<not> is_code64 (gdt_raw s') 3 \<and> dpl (gdt_raw s') 3 = 3 \<and> is_code64 (gdt_raw s') 4 \<and> dpl (gdt_raw s') 4 = 3
    \<and> rsp (tss s') ! 0 = rsp0 + 8192 \<and> ist (tss s') ! 0 = ist1 + 4096"
proof -
  let ?s0 = "s\<lparr>gdt_raw := replicate 56 0, tss := \<lparr>rsp = [rsp0 + 8192, 0, 0], ist = [ist1 + 4096, 0, 0, 0, 0, 0, 0], iomap_base = 104\<rparr>\<rparr>"
  let ?s4 = "set_gdt_entry 4 0xFA 0xA (set_gdt_entry 3 0xF2 0xC (set_gdt_entry 2 0x92 0xC (set_gdt_entry 1 0x9A 0xA ?s0)))"
  have l: "length (gdt_raw ?s4) = 56" by (simp add: gdt_entry_raw)
  have s': "s' = set_tss 5 tss_addr 103 ?s4" "r = \<lparr>gdtr_limit = 55, gdtr_base = gdt_addr\<rparr>"
    using assms by (simp_all add: gdt_init_def Let_def)
  have t: "tss s' = \<lparr>rsp = [rsp0 + 8192, 0, 0], ist = [ist1 + 4096, 0, 0, 0, 0, 0, 0], iomap_base = 104\<rparr>"
    by (simp add: s' set_tss_def set_gdt_entry_def)
  note raw = tss_entry_raw [OF l, where b = tss_addr and l = 103, folded s'(1)]
  have b: "tss_base (gdt_raw s') 5 = tss_addr"
    unfolding tss_base_def by (simp add: raw(2) GDTSystemEntry_def GDTEntry_def base_decode [simplified])
  have "seg_limit (gdt_raw s') 5 = 103" "access_of (gdt_raw s') 5 = 0x89"
    by (simp_all add: seg_limit_def access_of_def raw(2) GDTSystemEntry_def GDTEntry_def)
  moreover have "is_code64 (gdt_raw s') 1" "dpl (gdt_raw s') 1 = 0" "\<not> is_code64 (gdt_raw s') 2" "dpl (gdt_raw s') 2 = 0"
    "\<not> is_code64 (gdt_raw s') 3" "dpl (gdt_raw s') 3 = 3" "is_code64 (gdt_raw s') 4" "dpl (gdt_raw s') 4 = 3"
    by (simp_all add: is_code64_def dpl_def access_of_def raw(2) gdt_entry_raw GDTEntry_def)
  ultimately show ?thesis using b raw(1) t s'(2) by simp
qed

theorem gdt_init_layout_witness:
  "\<exists>r s'. gdt_init 0x1000 0x12345678 0x2000 0x3000 \<lparr>gdt_raw = [], tss = \<lparr>rsp = [], ist = [], iomap_base = 0\<rparr>\<rparr> = (r, s') \<and> tss_base (gdt_raw s') 5 = 0x12345678"
proof -
  obtain r s' where "gdt_init 0x1000 0x12345678 0x2000 0x3000 \<lparr>gdt_raw = [], tss = \<lparr>rsp = [], ist = [], iomap_base = 0\<rparr>\<rparr> = (r, s')"
    by (metis surj_pair)
  then show ?thesis using gdt_init_layout by blast
qed

end
