(* ===== verification/Vmm.thy ===== *)
theory Vmm
  imports Sched
begin

text \<open>
  The virtual memory manager of \<open>kernel/mm/vmm.c\<close>.  Page tables live in the flat memory; the static \<open>pml4\<close> is the
  field \<open>kernel_pml4\<close> and the loaded table is \<open>cr3\<close>, both of the scheduler's state, which switches them.  The addresses
  of the statically allocated tables are arguments of \<open>vmm_init\<close>.  Invalidating a TLB entry has no counterpart: the
  model has no translation cache.  The three levels of \<open>walk\<close> and \<open>walk_in\<close> are one step repeated, over the list of
  the indices.  A result \<open>None\<close> inside the pair is the C code's \<open>NULL\<close>.

  \<open>mmu\<close> is the translation the processor performs, written from its manual; the lemmas relate the
  operations to it.
\<close>

unbundle bit_operations_syntax

abbreviation (input) PTE_PRESENT :: u64 where "PTE_PRESENT \<equiv> 1"
abbreviation (input) PTE_WRITABLE :: u64 where "PTE_WRITABLE \<equiv> 2"
abbreviation (input) PTE_USER :: u64 where "PTE_USER \<equiv> 4"
abbreviation (input) PTE_WRITETHROUGH :: u64 where "PTE_WRITETHROUGH \<equiv> 8"
abbreviation (input) PTE_NOCACHE :: u64 where "PTE_NOCACHE \<equiv> 16"
abbreviation (input) PTE_HUGE :: u64 where "PTE_HUGE \<equiv> 128"
abbreviation (input) PTE_ADDR_MASK :: u64 where "PTE_ADDR_MASK \<equiv> 0x000FFFFFFFFFF000"

section \<open>The operations\<close>

definition entry :: "ptr \<Rightarrow> u64 \<Rightarrow> ptr" where
  "entry table i = table + 8 * i"

definition pte :: "ptr \<Rightarrow> u64 \<Rightarrow> 'a sched_scheme \<Rightarrow> u64" where
  "pte table i s = load64 (memory s) (entry table i)"

definition set_pte :: "ptr \<Rightarrow> u64 \<Rightarrow> u64 \<Rightarrow> 'a sched_scheme \<Rightarrow> 'a sched_scheme" where
  "set_pte table i v s = s\<lparr>memory := store64 (memory s) (entry table i) v\<rparr>"

definition alloc_table :: "'a sched_scheme \<Rightarrow> (ptr \<times> 'a sched_scheme) option" where
  "alloc_table s = do {
     (table, s) \<leftarrow> pmm_alloc_page s;
     Some (table, if table \<noteq> NULL then s\<lparr>memory := memset (memory s) table 0 4096\<rparr> else s) }"

definition pml4_index :: "u64 \<Rightarrow> u64" where "pml4_index virt = drop_bit 39 virt AND 0x1FF"
definition pdpt_index :: "u64 \<Rightarrow> u64" where "pdpt_index virt = drop_bit 30 virt AND 0x1FF"
definition pd_index :: "u64 \<Rightarrow> u64" where "pd_index virt = drop_bit 21 virt AND 0x1FF"
definition pt_index :: "u64 \<Rightarrow> u64" where "pt_index virt = drop_bit 12 virt AND 0x1FF"

definition walk_level :: "bool \<Rightarrow> u64 \<Rightarrow> ptr \<Rightarrow> u64 \<Rightarrow> 'a sched_scheme \<Rightarrow> (ptr option \<times> 'a sched_scheme) option" where
  "walk_level create intr table i s =
     (if pte table i s AND PTE_PRESENT = 0 then
        if \<not> create then Some (None, s)
        else do {
          (next, s) \<leftarrow> alloc_table s;
          if next = NULL then Some (None, s)
          else let s = set_pte table i (next OR intr) s in Some (Some (pte table i s AND PTE_ADDR_MASK), s) }
      else let s = (if create then set_pte table i (pte table i s OR intr) s else s)
           in Some (Some (pte table i s AND PTE_ADDR_MASK), s))"

primrec walk_levels :: "bool \<Rightarrow> u64 \<Rightarrow> u64 list \<Rightarrow> ptr \<Rightarrow> 'a sched_scheme \<Rightarrow> (ptr option \<times> 'a sched_scheme) option" where
  "walk_levels create intr [] table s = Some (Some table, s)"
| "walk_levels create intr (i # is) table s =
     (if is = [] \<and> pte table i s AND PTE_HUGE \<noteq> 0 then Some (None, s)
      else do {
        (next, s) \<leftarrow> walk_level create intr table i s;
        (case next of None \<Rightarrow> Some (None, s) | Some table \<Rightarrow> walk_levels create intr is table s) })"

definition inter_flags :: "u64 \<Rightarrow> u64" where
  "inter_flags flags = (if flags AND PTE_USER \<noteq> 0 then PTE_PRESENT OR PTE_WRITABLE OR PTE_USER else PTE_PRESENT OR PTE_WRITABLE)"

definition walk_in :: "ptr \<Rightarrow> u64 \<Rightarrow> bool \<Rightarrow> u64 \<Rightarrow> 'a sched_scheme \<Rightarrow> (ptr option \<times> 'a sched_scheme) option" where
  "walk_in root virt create flags s = do {
     (table, s) \<leftarrow> walk_levels create (inter_flags flags) [pml4_index virt, pdpt_index virt, pd_index virt] root s;
     Some (map_option (\<lambda>table. entry table (pt_index virt)) table, s) }"

definition vmm_walk :: "u64 \<Rightarrow> bool \<Rightarrow> u64 \<Rightarrow> 'a sched_scheme \<Rightarrow> (ptr option \<times> 'a sched_scheme) option" where
  "vmm_walk virt create flags s = walk_in (kernel_pml4 s) virt create flags s"

primrec fill_pd :: "nat \<Rightarrow> ptr \<Rightarrow> u64 \<Rightarrow> mem \<Rightarrow> mem" where
  "fill_pd 0 pd i m = m"
| "fill_pd (Suc j) pd i m =
     store64 (fill_pd j pd i m) (entry pd (of_nat j))
       ((i * (512 * 0x200000) + of_nat j * 0x200000) OR PTE_PRESENT OR PTE_WRITABLE OR PTE_HUGE)"

primrec fill_pdpt :: "nat \<Rightarrow> ptr \<Rightarrow> ptr \<Rightarrow> mem \<Rightarrow> mem" where
  "fill_pdpt 0 pdpt pd m = m"
| "fill_pdpt (Suc i) pdpt pd m =
     (let m = fill_pdpt i pdpt pd m;
          pd_i = pd + of_nat i * 4096;
          m = memset m pd_i 0 4096;
          m = store64 m (entry pdpt (of_nat i)) (pd_i OR PTE_PRESENT OR PTE_WRITABLE)
      in fill_pd 512 pd_i (of_nat i) m)"

definition vmm_init :: "ptr \<Rightarrow> ptr \<Rightarrow> ptr \<Rightarrow> 'a sched_scheme \<Rightarrow> 'a sched_scheme" where
  "vmm_init init_pml4 init_pdpt init_pd s =
     (let m = memset (memory s) init_pml4 0 4096;
          m = memset m init_pdpt 0 4096;
          m = store64 m (entry init_pml4 0) (init_pdpt OR PTE_PRESENT OR PTE_WRITABLE)
      in s\<lparr>kernel_pml4 := init_pml4, memory := fill_pdpt 4 init_pdpt init_pd m, cr3 := init_pml4\<rparr>)"

definition leaf :: "u64 \<Rightarrow> u64 \<Rightarrow> u64" where
  "leaf phys flags = (phys AND PTE_ADDR_MASK) OR flags OR PTE_PRESENT"

definition put_leaf :: "ptr option \<Rightarrow> u64 \<Rightarrow> 'a sched_scheme \<Rightarrow> 'a sched_scheme" where
  "put_leaf e v s = (case e of None \<Rightarrow> s | Some a \<Rightarrow> s\<lparr>memory := store64 (memory s) a v\<rparr>)"

definition vmm_map_page :: "u64 \<Rightarrow> u64 \<Rightarrow> u64 \<Rightarrow> 'a sched_scheme \<Rightarrow> 'a sched_scheme option" where
  "vmm_map_page virt phys flags s = do {
     (e, s) \<leftarrow> vmm_walk virt True flags s;
     Some (put_leaf e (leaf phys flags) s) }"

definition vmm_unmap_page :: "u64 \<Rightarrow> 'a sched_scheme \<Rightarrow> 'a sched_scheme option" where
  "vmm_unmap_page virt s = do {
     (e, s) \<leftarrow> vmm_walk virt False 0 s;
     Some (put_leaf e 0 s) }"

definition mmio_level :: "ptr \<Rightarrow> u64 \<Rightarrow> 'a sched_scheme \<Rightarrow> (ptr option \<times> 'a sched_scheme) option" where
  "mmio_level table i s =
     (if pte table i s AND PTE_PRESENT = 0 then do {
        (next, s) \<leftarrow> alloc_table s;
        if next = NULL then Some (None, s)
        else let s = s\<lparr>memory := memset (memory s) next 0 4096\<rparr>;
                 s = set_pte table i (next OR (PTE_PRESENT OR PTE_WRITABLE)) s
             in Some (Some (pte table i s AND PTE_ADDR_MASK), s) }
      else Some (Some (pte table i s AND PTE_ADDR_MASK), s))"

partial_function (option) mmio_loop :: "u64 \<Rightarrow> u64 \<Rightarrow> 'a sched_scheme \<Rightarrow> 'a sched_scheme option" where
  "mmio_loop addr stop s =
     (if \<not> addr < stop then Some s
      else do {
        (pdpt, s) \<leftarrow> mmio_level (kernel_pml4 s) (pml4_index addr) s;
        (case pdpt of None \<Rightarrow> Some s
         | Some pdpt \<Rightarrow> do {
             (pd, s) \<leftarrow> mmio_level pdpt (pdpt_index addr) s;
             (case pd of None \<Rightarrow> Some s
              | Some pd \<Rightarrow>
                  mmio_loop (addr + 0x200000) stop
                    (set_pte pd (pd_index addr)
                       (addr OR PTE_PRESENT OR PTE_WRITABLE OR PTE_HUGE OR PTE_NOCACHE OR PTE_WRITETHROUGH) s)) }) })"

definition vmm_map_mmio :: "u64 \<Rightarrow> u64 \<Rightarrow> 'a sched_scheme \<Rightarrow> 'a sched_scheme option" where
  "vmm_map_mmio phys sz s =
     mmio_loop (phys AND NOT (0x200000 - 1)) ((phys + sz + 0x200000 - 1) AND NOT (0x200000 - 1)) s"

definition vmm_mark_huge_user :: "u64 \<Rightarrow> 'a sched_scheme \<Rightarrow> 'a sched_scheme" where
  "vmm_mark_huge_user virt s =
     (let pdpt = pte (kernel_pml4 s) (pml4_index virt) s AND PTE_ADDR_MASK;
          pd = pte pdpt (pdpt_index virt) s AND PTE_ADDR_MASK
      in if pte pd (pd_index virt) s AND PTE_HUGE \<noteq> 0
         then set_pte pd (pd_index virt) (pte pd (pd_index virt) s OR PTE_USER) s else s)"

definition vmm_get_kernel_pml4 :: "'a sched_scheme \<Rightarrow> ptr" where
  "vmm_get_kernel_pml4 s = kernel_pml4 s"

primrec copy_entries :: "nat \<Rightarrow> nat \<Rightarrow> ptr \<Rightarrow> ptr \<Rightarrow> mem \<Rightarrow> mem" where
  "copy_entries 0 i dst src m = m"
| "copy_entries (Suc n) i dst src m =
     copy_entries n (Suc i) dst src (store64 m (entry dst (of_nat i)) (load64 m (entry src (of_nat i))))"

definition vmm_create_address_space :: "'a sched_scheme \<Rightarrow> (ptr \<times> 'a sched_scheme) option" where
  "vmm_create_address_space s = do {
     (new_pml4, s) \<leftarrow> alloc_table s;
     if new_pml4 = NULL then Some (NULL, s)
     else
       let m = memset (memory s) new_pml4 0 (256 * 8);
           m = store64 m (entry new_pml4 0) (load64 m (entry (kernel_pml4 s) 0));
           m = copy_entries 256 256 new_pml4 (kernel_pml4 s) m
       in Some (new_pml4, s\<lparr>memory := m\<rparr>) }"

definition vmm_switch_address_space :: "ptr \<Rightarrow> 'a sched_scheme \<Rightarrow> 'a sched_scheme" where
  "vmm_switch_address_space target_pml4 s = s\<lparr>cr3 := target_pml4\<rparr>"

definition vmm_map_page_in :: "ptr \<Rightarrow> u64 \<Rightarrow> u64 \<Rightarrow> u64 \<Rightarrow> 'a sched_scheme \<Rightarrow> 'a sched_scheme option" where
  "vmm_map_page_in target_pml4 virt phys flags s = do {
     (e, s) \<leftarrow> walk_in target_pml4 virt True flags s;
     Some (put_leaf e (leaf phys flags) s) }"

section \<open>Address translation by the processor\<close>

definition vidx :: "u64 \<Rightarrow> nat \<Rightarrow> u64" where
  "vidx v k = drop_bit k v AND 0x1FF"

lemma index_vidx:
  "pml4_index v = vidx v 39" "pdpt_index v = vidx v 30" "pd_index v = vidx v 21" "pt_index v = vidx v 12"
  by (simp_all add: pml4_index_def pdpt_index_def pd_index_def pt_index_def vidx_def)

text \<open>The tables are indexed by nine bits of the address each; an entry that is a leaf, by its level or by its huge bit,
  gives the address bits above \<open>k\<close>.\<close>

primrec mmu :: "mem \<Rightarrow> u64 \<Rightarrow> nat list \<Rightarrow> ptr \<Rightarrow> u64 option" where
  "mmu m v [] table = None"
| "mmu m v (k # ks) table =
     (let e = load64 m (entry table (vidx v k))
      in if e AND PTE_PRESENT = 0 then None
         else if ks = [] \<or> (k < 39 \<and> e AND PTE_HUGE \<noteq> 0)
              then Some ((e AND PTE_ADDR_MASK AND NOT (mask k)) OR (v AND mask k))
         else mmu m v ks (e AND PTE_ADDR_MASK))"

definition translate :: "mem \<Rightarrow> ptr \<Rightarrow> u64 \<Rightarrow> u64 option" where
  "translate m root v = mmu m v [39, 30, 21, 12] root"

text \<open>The tables that an address reaches are page-aligned, distinct, in use, and none of their entries is a huge page.\<close>

primrec path_ok :: "mem \<Rightarrow> nat set \<Rightarrow> ptr list \<Rightarrow> u64 \<Rightarrow> nat list \<Rightarrow> ptr \<Rightarrow> bool" where
  "path_ok m free seen v [] table \<longleftrightarrow> aligned 4096 table \<and> page_of table \<notin> free \<and> table \<notin> set seen"
| "path_ok m free seen v (k # ks) table \<longleftrightarrow> aligned 4096 table \<and> page_of table \<notin> free \<and> table \<notin> set seen
     \<and> (let e = load64 m (entry table (vidx v k))
        in e AND PTE_HUGE = 0 \<and> (e AND PTE_PRESENT \<noteq> 0 \<longrightarrow> path_ok m free (table # seen) v ks (e AND PTE_ADDR_MASK)))"

lemma vidx_less: "vidx v k < 512"
proof -
  have "vidx v k = take_bit 9 (drop_bit k v)" by (simp add: vidx_def take_bit_eq_mask mask_eq_exp_minus_1)
  then have "unat (vidx v k) = take_bit 9 (unat (drop_bit k v))" by (simp add: unsigned_take_bit_eq)
  also have "\<dots> < 2 ^ 9" by (rule take_bit_nat_less_exp)
  finally show ?thesis by (simp add: word_less_nat_alt)
qed

lemma unat_entry:
  assumes "aligned 4096 t" "i < 512"
  shows "unat (entry t i) = unat t + 8 * unat i"
proof -
  have i: "unat i < 512" using assms(2) by (simp add: word_less_nat_alt)
  obtain q where q: "unat t = 4096 * q" using assms(1) by (auto simp: aligned_def)
  have "unat t < 2 ^ 64" by (rule unat_lt_u64)
  with q have "q < 2 ^ 52" by simp
  with q i have b: "unat t + 8 * unat i < 2 ^ 64" by simp
  have "unat (8 * i) = 8 * unat i" using i by (simp add: unat_word_ariths)
  with b show ?thesis by (simp add: entry_def unat_word_ariths)
qed

lemma entry_aligned: "aligned 4096 t \<Longrightarrow> i < 512 \<Longrightarrow> aligned 8 (entry t i)"
  by (auto simp: aligned_def unat_entry intro!: dvd_add dest: dvd_trans [of 8 4096, rotated])

lemma page_of_entry: "aligned 4096 t \<Longrightarrow> i < 512 \<Longrightarrow> page_of (entry t i) = page_of t"
  by (auto simp: aligned_def page_of_def unat_entry word_less_nat_alt)

lemma page_of_inj: "aligned 4096 t \<Longrightarrow> aligned 4096 u \<Longrightarrow> page_of t = page_of u \<Longrightarrow> t = u"
  by (auto simp: aligned_def page_of_def word_unat_eq_iff)

lemma aligned_masked: "aligned 4096 (e AND PTE_ADDR_MASK)"
proof -
  have "e AND PTE_ADDR_MASK = (e AND PTE_ADDR_MASK) AND - 4096" by (simp add: and.assoc)
  then have "unat (e AND PTE_ADDR_MASK) = unat (e AND PTE_ADDR_MASK) div 4096 * 4096" by (metis unat_align_down(1))
  then show ?thesis unfolding aligned_def by (metis dvd_triv_right)
qed

section \<open>One level of a walk\<close>

lemma inter_flags_cases: "inter_flags flags = 3 \<or> inter_flags flags = 7"
  by (simp add: inter_flags_def)

lemma pte_set_same [simp]: "pte t i (set_pte t i v s) = v"
  by (simp add: pte_def set_pte_def load_store)

lemma pte_set_other:
  assumes "aligned 4096 t" "i < 512" "aligned 4096 u" "j < 512" "u \<noteq> t"
  shows "pte u j (set_pte t i v s) = pte u j s"
proof -
  have "entry t i \<noteq> entry u j"
    using assms page_of_entry [of t i] page_of_entry [of u j] page_of_inj [of t u] by metis
  then show ?thesis by (simp add: pte_def set_pte_def load64_store64_other entry_aligned assms)
qed

lemma set_pte_pmm [simp]:
  "pmm_inv (set_pte t i v s) = pmm_inv s" "free_set (set_pte t i v s) = free_set s"
  "allocatable (set_pte t i v s) = allocatable s"
  by (simp_all add: set_pte_def pmm_inv_def free_set_def allocatable_def)

lemma within_page:
  assumes "aligned 4096 p" "aligned 4096 t" "i < 512" "k < 8"
  shows "within p 4096 (entry t i + of_nat k) \<longleftrightarrow> t = p"
proof -
  have i: "unat i < 512" using assms(3) by (simp add: word_less_nat_alt)
  obtain q where q: "unat t = 4096 * q" using assms(2) by (auto simp: aligned_def)
  obtain r where r: "unat p = 4096 * r" using assms(1) by (auto simp: aligned_def)
  have "q < 2 ^ 52" "r < 2 ^ 52" using q r unat_lt_u64 [of t] unat_lt_u64 [of p] by simp_all
  then have b: "unat t + 8 * unat i + k < 2 ^ 64" "unat p + 4096 \<le> 2 ^ 64" using q r i assms(4) by simp_all
  have "unat (entry t i + of_nat k) = unat t + 8 * unat i + k"
    using b(1) assms(4) by (simp add: unat_word_ariths unat_entry [OF assms(2,3)] unat_of_nat_u64)
  then have "within p 4096 (entry t i + of_nat k) \<longleftrightarrow> 4096 * r \<le> 4096 * q + 8 * unat i + k \<and> 4096 * q + 8 * unat i + k < 4096 * r + 4096"
    using within_iff [OF b(2)] by (simp add: q r)
  also have "\<dots> \<longleftrightarrow> q = r" using i assms(4) by auto
  also have "\<dots> \<longleftrightarrow> t = p" by (simp add: word_unat_eq_iff q r)
  finally show ?thesis .
qed

lemma load64_zeroed:
  assumes "aligned 4096 p" "aligned 4096 t" "i < 512"
  shows "load64 (memset m p 0 4096) (entry t i) = (if t = p then 0 else load64 m (entry t i))"
proof (cases "t = p")
  case True
  have "load64 (memset m p 0 4096) (entry t i) = load64 (\<lambda>_. 0) (entry t i)"
    by (rule load64_cong) (simp add: memset_def memset_loop_apply True within_page [OF assms(1) assms(1) assms(3)])
  then show ?thesis using True by (simp add: load64_def)
next
  case False
  then show ?thesis
    by simp (rule load64_cong, simp add: memset_def memset_loop_apply within_page [OF assms])
qed

lemma more_memory:
  fixes s s' :: "'a sched_scheme"
  assumes "pmm.more s' = pmm.more s"
  shows "memory s' = memory s" "kernel_pml4 s' = kernel_pml4 s" "cr3 s' = cr3 s"
  using assms by (cases s, cases s', simp)+

lemma alloc_table_ok:
  fixes s :: "'a sched_scheme"
  assumes inv: "pmm_inv s" and "allocatable s \<noteq> {}"
  obtains p s' where "alloc_table s = Some (p, s')" "p \<noteq> NULL" "pmm_inv s'" "aligned 4096 p" "unat p < 2 ^ 32"
    "page_of p \<in> allocatable s" "free_set s' = free_set s - {page_of p}"
    "\<And>t i. aligned 4096 t \<Longrightarrow> i < 512 \<Longrightarrow> pte t i s' = (if t = p then 0 else pte t i s)"
proof (cases rule: pmm_alloc_page_cases [OF inv])
  case 1
  then show ?thesis using assms(2) by simp
next
  case page: (2 p s1)
  let ?s = "s1\<lparr>memory := memset (memory s1) p 0 4096\<rparr>"
  have m: "memory s1 = memory s" by (rule more_memory [OF page(11)])
  show ?thesis
  proof (rule that [of p ?s])
    show "alloc_table s = Some (p, ?s)" using page(1,3) by (simp add: alloc_table_def)
    show "pmm_inv ?s" "free_set ?s = free_set s - {page_of p}" using page(2,7) by (simp_all add: pmm_inv_def free_set_def)
    show "pte t i ?s = (if t = p then 0 else pte t i s)" if "aligned 4096 t" "i < 512" for t i
      using that page(4) by (simp add: pte_def load64_zeroed m)
  qed (use page in simp_all)
qed

lemma low_aligned_bits:
  assumes "aligned 4096 (p :: ptr)" "unat p < 2 ^ 32" "fl = 3 \<or> fl = 7"
  shows "(p OR fl) AND PTE_ADDR_MASK = p" "(p OR fl) AND PTE_HUGE = 0" "(p OR fl) AND PTE_PRESENT = 1"
proof -
  have "unat p = unat p div 4096 * 4096" using assms(1) by (simp add: aligned_def)
  then have "p AND - 4096 = p" using unat_align_down(1) [of p] by (simp add: word_unat_eq_iff)
  moreover have "take_bit 32 p = p" using assms(2) by (simp add: word_unat_eq_iff unsigned_take_bit_eq take_bit_nat_eq_self)
  then have "p AND mask 32 = p" by (simp add: take_bit_eq_mask)
  ultimately have p: "p = p AND (- 4096 AND mask 32)" by (metis and.assoc)
  have c: "(- 4096 AND mask 32 :: u64) AND PTE_ADDR_MASK = - 4096 AND mask 32" by (simp add: mask_eq_exp_minus_1)
  have z: "p AND PTE_ADDR_MASK = p" "p AND PTE_HUGE = 0" "p AND PTE_PRESENT = 0"
    by (subst p, simp add: and.assoc mask_eq_exp_minus_1, (subst (2) p, simp add: mask_eq_exp_minus_1)?)+
  show "(p OR fl) AND PTE_ADDR_MASK = p" "(p OR fl) AND PTE_HUGE = 0" "(p OR fl) AND PTE_PRESENT = 1"
    using assms(3) z by (auto simp: bit.conj_disj_distrib2)
qed

lemma or_flag_bits:
  fixes e :: u64
  assumes "fl = 3 \<or> fl = 7"
  shows "(e OR fl) AND PTE_ADDR_MASK = e AND PTE_ADDR_MASK" "(e OR fl) AND PTE_HUGE = e AND PTE_HUGE"
    "(e OR fl) AND PTE_PRESENT = 1"
proof -
  have "e AND 1 OR 1 = 1" by (rule bit_word_eqI) (auto simp: bit_simps bit_1_iff)
  then show "(e OR fl) AND PTE_ADDR_MASK = e AND PTE_ADDR_MASK" "(e OR fl) AND PTE_HUGE = e AND PTE_HUGE"
    "(e OR fl) AND PTE_PRESENT = 1"
    using assms by (auto simp: bit.conj_disj_distrib2)
qed

lemma walk_level_ok:
  fixes s :: "'a sched_scheme"
  assumes inv: "pmm_inv s" and al: "aligned 4096 t" and i: "i < 512" and fr: "page_of t \<notin> free_set s"
    and av: "allocatable s \<noteq> {}" and fl: "fl = 3 \<or> fl = 7" and hu: "pte t i s AND PTE_HUGE = 0"
  obtains n s' where "walk_level True fl t i s = Some (Some n, s')" "pmm_inv s'" "aligned 4096 n"
    "pte t i s' AND PTE_PRESENT = 1" "pte t i s' AND PTE_HUGE = 0" "pte t i s' AND PTE_ADDR_MASK = n"
    "free_set s' \<subseteq> free_set s" "card (allocatable s) \<le> Suc (card (allocatable s'))"
    "\<And>u j. aligned 4096 u \<Longrightarrow> j < 512 \<Longrightarrow> u \<noteq> t \<Longrightarrow> page_of u \<notin> free_set s \<Longrightarrow> pte u j s' = pte u j s"
    "pte t i s AND PTE_PRESENT = 0 \<Longrightarrow> page_of n \<in> free_set s \<and> page_of n \<notin> free_set s' \<and> (\<forall>j < 512. pte n j s' = 0)"
    "pte t i s AND PTE_PRESENT \<noteq> 0 \<Longrightarrow> n = pte t i s AND PTE_ADDR_MASK \<and> free_set s' = free_set s"
proof (cases "pte t i s AND PTE_PRESENT = 0")
  case True
  obtain p s1 where p: "alloc_table s = Some (p, s1)" "p \<noteq> NULL" "pmm_inv s1" "aligned 4096 p" "unat p < 2 ^ 32"
    "page_of p \<in> allocatable s" "free_set s1 = free_set s - {page_of p}"
    "\<And>t i. aligned 4096 t \<Longrightarrow> i < 512 \<Longrightarrow> pte t i s1 = (if t = p then 0 else pte t i s)"
    using alloc_table_ok [OF inv av] by blast
  let ?s = "set_pte t i (p OR fl) s1"
  note b = low_aligned_bits [OF p(4,5) fl]
  have pf: "page_of p \<in> free_set s" using p(6) by (simp add: allocatable_def free_set_def)
  then have tp: "t \<noteq> p" using fr by blast
  have al1: "allocatable s1 = allocatable s - {page_of p}" using p(7) by (auto simp: allocatable_def free_set_def)
  show ?thesis
  proof (rule that [of p ?s])
    show "walk_level True fl t i s = Some (Some p, ?s)" using True p(1,2) by (simp add: walk_level_def Let_def b)
    show "card (allocatable s) \<le> Suc (card (allocatable ?s))" using p(6) by (simp add: al1 card_Diff_singleton_if)
    show "pte u j ?s = pte u j s" if "aligned 4096 u" "j < 512" "u \<noteq> t" "page_of u \<notin> free_set s" for u j
      using that pf by (auto simp: pte_set_other al i p(8))
    show "page_of p \<in> free_set s \<and> page_of p \<notin> free_set ?s \<and> (\<forall>j < 512. pte p j ?s = 0)"
      using pf tp p(4) by (auto simp: p(7,8) pte_set_other al i)
  qed (use p True b in auto)
next
  case False
  let ?s = "set_pte t i (pte t i s OR fl) s"
  note b = or_flag_bits [OF fl, of "pte t i s"]
  show ?thesis
  proof (rule that [of "pte t i s AND PTE_ADDR_MASK" ?s])
    show "walk_level True fl t i s = Some (Some (pte t i s AND PTE_ADDR_MASK), ?s)" using False by (simp add: walk_level_def Let_def b)
    show "pte u j ?s = pte u j s" if "aligned 4096 u" "j < 512" "u \<noteq> t" for u j
      using that by (simp add: pte_set_other al i)
  qed (use inv False b hu in \<open>auto intro: aligned_masked\<close>)
qed

section \<open>Walks and mappings\<close>

lemma path_ok_table: "path_ok m free seen v ks t \<Longrightarrow> aligned 4096 t \<and> page_of t \<notin> free \<and> t \<notin> set seen"
  by (cases ks) simp_all

lemma path_ok_cong:
  assumes "path_ok m free seen v ks t"
    and "\<And>u j. aligned 4096 u \<Longrightarrow> j < 512 \<Longrightarrow> u \<notin> set seen \<Longrightarrow> page_of u \<notin> free \<Longrightarrow> load64 m' (entry u j) = load64 m (entry u j)"
  shows "path_ok m' free seen v ks t"
  using assms
proof (induction ks arbitrary: seen t)
  case Nil
  then show ?case by simp
next
  case (Cons k ks)
  let ?e = "load64 m (entry t (vidx v k))"
  have e: "load64 m' (entry t (vidx v k)) = ?e"
    using Cons.prems(1) by (intro Cons.prems(2)) (simp_all add: vidx_less)
  have "path_ok m' free (t # seen) v ks (?e AND PTE_ADDR_MASK)" if "?e AND PTE_PRESENT \<noteq> 0"
    by (rule Cons.IH) (use that Cons.prems in \<open>simp_all add: Let_def\<close>)
  then show ?case using Cons.prems(1) by (simp add: e Let_def)
qed

lemma path_ok_empty:
  assumes "aligned 4096 t" "page_of t \<notin> free" "t \<notin> set seen" "\<forall>j < 512. load64 m (entry t j) = 0"
  shows "path_ok m free seen v ks t"
  using assms by (cases ks) (simp_all add: vidx_less)

lemma walk_levels_ok:
  fixes s :: "'a sched_scheme"
  assumes "pmm_inv s" "path_ok (memory s) (free_set s) seen v ks t" "length ks \<le> card (allocatable s)" "fl = 3 \<or> fl = 7"
    "\<forall>u \<in> set seen. aligned 4096 u \<and> page_of u \<notin> free_set s"
  shows "\<exists>n s'. walk_levels True fl (map (vidx v) ks) t s = Some (Some n, s') \<and> n \<notin> set seen \<and> aligned 4096 n \<and> pmm_inv s'
    \<and> (\<forall>u \<in> set seen. \<forall>j < 512. pte u j s' = pte u j s)
    \<and> (\<forall>m'. (\<forall>u j. aligned 4096 u \<longrightarrow> j < 512 \<longrightarrow> u \<noteq> n \<longrightarrow> load64 m' (entry u j) = pte u j s') \<longrightarrow>
         mmu m' v (ks @ [12]) t = mmu m' v [12] n)"
  using assms
proof (induction ks arbitrary: seen t s)
  case Nil
  then show ?case by simp
next
  case (Cons k ks)
  let ?i = "vidx v k"
  have t: "aligned 4096 t" "page_of t \<notin> free_set s" "t \<notin> set seen" and hu: "pte t ?i s AND PTE_HUGE = 0"
    and deeper: "pte t ?i s AND PTE_PRESENT \<noteq> 0 \<Longrightarrow>
      path_ok (memory s) (free_set s) (t # seen) v ks (pte t ?i s AND PTE_ADDR_MASK)"
    using Cons.prems(2) by (simp_all add: Let_def pte_def)
  have av: "allocatable s \<noteq> {}" using Cons.prems(3) by auto
  obtain n s1 where w: "walk_level True fl t ?i s = Some (Some n, s1)" and inv1: "pmm_inv s1" and n: "aligned 4096 n"
    and e: "pte t ?i s1 AND PTE_PRESENT = 1" "pte t ?i s1 AND PTE_HUGE = 0" "pte t ?i s1 AND PTE_ADDR_MASK = n"
    and sub: "free_set s1 \<subseteq> free_set s" and card1: "card (allocatable s) \<le> Suc (card (allocatable s1))"
    and frame: "\<And>u j. aligned 4096 u \<Longrightarrow> j < 512 \<Longrightarrow> u \<noteq> t \<Longrightarrow> page_of u \<notin> free_set s \<Longrightarrow> pte u j s1 = pte u j s"
    and fresh: "pte t ?i s AND PTE_PRESENT = 0 \<Longrightarrow>
      page_of n \<in> free_set s \<and> page_of n \<notin> free_set s1 \<and> (\<forall>j < 512. pte n j s1 = 0)"
    and old: "pte t ?i s AND PTE_PRESENT \<noteq> 0 \<Longrightarrow> n = pte t ?i s AND PTE_ADDR_MASK \<and> free_set s1 = free_set s"
    using walk_level_ok [OF Cons.prems(1) t(1) vidx_less t(2) av Cons.prems(4) hu] by blast
  have seen: "\<forall>u \<in> set (t # seen). aligned 4096 u \<and> page_of u \<notin> free_set s1"
    using Cons.prems(5) t sub by auto
  have path: "path_ok (memory s1) (free_set s1) (t # seen) v ks n"
  proof (cases "pte t ?i s AND PTE_PRESENT = 0")
    case True
    then have f: "page_of n \<in> free_set s" "page_of n \<notin> free_set s1" "\<forall>j < 512. load64 (memory s1) (entry n j) = 0"
      using fresh by (simp_all add: pte_def)
    then have "n \<notin> set (t # seen)" using Cons.prems(5) t by auto
    then show ?thesis using f n by (intro path_ok_empty)
  next
    case False
    have "path_ok (memory s1) (free_set s) (t # seen) v ks (pte t ?i s AND PTE_ADDR_MASK)"
      by (rule path_ok_cong [OF deeper [OF False]]) (use frame in \<open>simp add: pte_def\<close>)
    then show ?thesis using old [OF False] by simp
  qed
  obtain n' s' where r: "walk_levels True fl (map (vidx v) ks) n s1 = Some (Some n', s')" "n' \<notin> set (t # seen)" "aligned 4096 n'" "pmm_inv s'"
    and keep: "\<forall>u \<in> set (t # seen). \<forall>j < 512. pte u j s' = pte u j s1"
    and tr: "\<forall>m'. (\<forall>u j. aligned 4096 u \<longrightarrow> j < 512 \<longrightarrow> u \<noteq> n' \<longrightarrow> load64 m' (entry u j) = pte u j s') \<longrightarrow>
         mmu m' v (ks @ [12]) n = mmu m' v [12] n'"
    using Cons.IH [OF inv1 path _ Cons.prems(4) seen] Cons.prems(3) card1 by auto
  have "walk_levels True fl (map (vidx v) (k # ks)) t s = Some (Some n', s')" using w r(1) hu by simp
  moreover have "\<forall>u \<in> set seen. \<forall>j < 512. pte u j s' = pte u j s"
    using keep frame Cons.prems(5) t(3) by (metis list.set_intros(2))
  moreover have "mmu m' v ((k # ks) @ [12]) t = mmu m' v [12] n'"
    if m': "\<forall>u j. aligned 4096 u \<longrightarrow> j < 512 \<longrightarrow> u \<noteq> n' \<longrightarrow> load64 m' (entry u j) = pte u j s'" for m'
  proof -
    have "t \<noteq> n'" using r(2) by auto
    then have "load64 m' (entry t ?i) = pte t ?i s1" using m' keep t(1) vidx_less by auto
    then have "mmu m' v ((k # ks) @ [12]) t = mmu m' v (ks @ [12]) n" using e by simp
    then show ?thesis using tr m' by simp
  qed
  ultimately show ?case using r(2-4) by auto
qed

lemma translate_leaf:
  assumes "load64 m (entry n (vidx v 12)) = leaf phys flags" "flags AND PTE_ADDR_MASK = 0"
  shows "mmu m v [12] n = Some ((phys AND PTE_ADDR_MASK) OR (v AND 0xFFF))"
proof -
  have p: "leaf phys flags AND 1 = 1"
    by (rule bit_word_eqI) (auto simp: leaf_def bit_simps bit_1_iff)
  have "leaf phys flags AND PTE_ADDR_MASK = phys AND PTE_ADDR_MASK"
    using assms(2) by (simp add: leaf_def bit.conj_disj_distrib2 and.assoc)
  moreover have "(phys AND PTE_ADDR_MASK) AND NOT (mask 12) = phys AND PTE_ADDR_MASK"
    by (simp add: and.assoc mask_eq_exp_minus_1)
  ultimately show ?thesis using assms(1) p by (simp add: mask_eq_exp_minus_1)
qed

lemma map_page_translates:
  fixes s :: "'a sched_scheme"
  assumes "pmm_inv s" "path_ok (memory s) (free_set s) [] virt [39, 30, 21] root" "3 \<le> card (allocatable s)"
    "flags AND PTE_ADDR_MASK = 0"
  shows "\<exists>s'. vmm_map_page_in root virt phys flags s = Some s' \<and> pmm_inv s'
    \<and> translate (memory s') root virt = Some ((phys AND PTE_ADDR_MASK) OR (virt AND 0xFFF))"
proof -
  let ?i = "vidx virt 12"
  obtain n s1 where w: "walk_levels True (inter_flags flags) (map (vidx virt) [39, 30, 21]) root s = Some (Some n, s1)" "aligned 4096 n" "pmm_inv s1"
    and tr: "\<forall>m'. (\<forall>u j. aligned 4096 u \<longrightarrow> j < 512 \<longrightarrow> u \<noteq> n \<longrightarrow> load64 m' (entry u j) = pte u j s1) \<longrightarrow>
      mmu m' virt ([39, 30, 21] @ [12]) root = mmu m' virt [12] n"
    using walk_levels_ok [OF assms(1,2) _ inter_flags_cases [of flags]] assms(3)
    by (auto simp del: walk_levels.simps mmu.simps list.map append.simps)
  let ?s = "set_pte n ?i (leaf phys flags) s1"
  have "vmm_map_page_in root virt phys flags s = Some ?s"
    using w(1) by (simp add: vmm_map_page_in_def walk_in_def index_vidx put_leaf_def set_pte_def)
  moreover have "load64 (memory ?s) (entry u j) = pte u j s1" if "aligned 4096 u" "j < 512" "u \<noteq> n" for u j
    using pte_set_other [OF w(2) vidx_less that] by (simp add: pte_def)
  then have "translate (memory ?s) root virt = mmu (memory ?s) virt [12] n" using tr by (simp add: translate_def del: mmu.simps)
  moreover have "mmu (memory ?s) virt [12] n = Some ((phys AND PTE_ADDR_MASK) OR (virt AND 0xFFF))"
    by (rule translate_leaf [OF _ assms(4)]) (simp add: set_pte_def load_store)
  ultimately show ?thesis using w(3) by (metis set_pte_pmm(1))
qed

text \<open>C16: mapping a page is correct.  Where the tables that the address reaches are well formed, none of them holds a huge page
  for the address, and three pages can be allocated, \<open>vmm_map_page_in\<close> returns, and the processor then translates the address to the
  given physical page with the offset of the address; missing levels are created on the way.\<close>

theorem map_page_then_translate:
  fixes s :: "'a sched_scheme"
  assumes "pmm_inv s" and "path_ok (memory s) (free_set s) [] virt [39, 30, 21] root" and "3 \<le> card (allocatable s)"
    and "flags AND PTE_ADDR_MASK = 0"
  shows "\<exists>s'. vmm_map_page_in root virt phys flags s = Some s' \<and> pmm_inv s'
    \<and> translate (memory s') root virt = Some ((phys AND PTE_ADDR_MASK) OR (virt AND 0xFFF))"
  by (rule map_page_translates [OF assms])

definition sample_vm :: sched where
  "sample_vm = (sample_sched [] 0 0)\<lparr>bitmap := [0x1E], total_pages := 64, free_count := 4, memory := (\<lambda>_. 0), pmm_lock := SPINLOCK_INIT,
     kernel_pml4 := 0x8000\<rparr>"

lemma bit_30: "bit (30 :: u64) n \<longleftrightarrow> n \<in> {1, 2, 3, 4}"
proof -
  have "(30 :: u64) = 2 ^ 1 OR 2 ^ 2 OR 2 ^ 3 OR 2 ^ 4" by simp
  then show ?thesis by (simp only: bit_or_iff bit_single) auto
qed

lemma sample_vm_bits: "bits (bitmap sample_vm) = {1, 2, 3, 4}"
proof -
  have "bitmap sample_vm = [30]" by (simp add: sample_vm_def)
  then show ?thesis by (simp only: bits_singleton bit_30) auto
qed

lemma sample_vm_facts:
  "pmm_inv sample_vm" "free_set sample_vm = {1, 2, 3, 4}" "allocatable sample_vm = {1, 2, 3, 4}" "memory sample_vm = (\<lambda>_. 0)"
  by (simp_all add: pmm_inv_def free_set_def allocatable_def sample_vm_bits) (simp_all add: sample_vm_def SPINLOCK_INIT_def)

theorem map_page_then_translate_witness:
  "\<exists>s'. vmm_map_page_in 0x8000 0x500000123 0x7000 6 sample_vm = Some s' \<and> translate (memory s') 0x8000 0x500000123 = Some 0x7123"
proof -
  have "load64 (\<lambda>_. 0) a = 0" for a by (simp add: load64_def)
  then have "path_ok (memory sample_vm) (free_set sample_vm) [] 0x500000123 [39, 30, 21] 0x8000"
    by (simp add: sample_vm_facts aligned_def page_of_def)
  from map_page_then_translate [OF sample_vm_facts(1) this, where flags = 6 and phys = "0x7000"] show ?thesis
    by (auto simp: sample_vm_facts)
qed

section \<open>Addresses under a huge page\<close>

lemma walk_level_present:
  assumes "pte t i s AND PTE_PRESENT \<noteq> 0" "fl = 3 \<or> fl = 7"
  shows "walk_level True fl t i s = Some (Some (pte t i s AND PTE_ADDR_MASK), set_pte t i (pte t i s OR fl) s)"
  using assms by (simp add: walk_level_def Let_def or_flag_bits)

lemma huge_map_ignored:
  fixes s :: "'a sched_scheme" and root virt :: u64
  defines "e4 \<equiv> pte root (pml4_index virt) s"
  defines "t3 \<equiv> e4 AND PTE_ADDR_MASK"
  defines "e3 \<equiv> pte t3 (pdpt_index virt) s"
  defines "t2 \<equiv> e3 AND PTE_ADDR_MASK"
  defines "e2 \<equiv> pte t2 (pd_index virt) s"
  assumes root: "aligned 4096 root" and d: "distinct [root, t3, t2]"
    and p: "e4 AND PTE_PRESENT \<noteq> 0" "e3 AND PTE_PRESENT \<noteq> 0" "e3 AND PTE_HUGE = 0" and h: "e2 AND PTE_HUGE \<noteq> 0"
  shows "\<exists>s'. vmm_map_page_in root virt phys flags s = Some s'
    \<and> translate (memory s') root virt = translate (memory s) root virt"
proof -
  let ?f = "inter_flags flags"
  let ?s1 = "set_pte root (vidx virt 39) (e4 OR ?f) s"
  let ?s2 = "set_pte t3 (vidx virt 30) (e3 OR ?f) ?s1"
  have al: "aligned 4096 t3" "aligned 4096 t2" unfolding t3_def t2_def by (rule aligned_masked)+
  note def = e4_def e3_def e2_def
  have d: "root \<noteq> t3" "t3 \<noteq> root" "t2 \<noteq> root" "t2 \<noteq> t3" using d by auto
  have v: "pte t3 (vidx virt 30) ?s1 = e3" "pte t2 (vidx virt 21) ?s2 = e2" "pte root (vidx virt 39) ?s2 = e4 OR ?f"
    using d al root by (simp_all add: pte_set_other vidx_less def index_vidx)
  have l1: "walk_level True ?f root (vidx virt 39) s = Some (Some t3, ?s1)"
    using walk_level_present [of root "vidx virt 39" s ?f] p(1) inter_flags_cases by (simp add: def t3_def index_vidx)
  have l2: "walk_level True ?f t3 (vidx virt 30) ?s1 = Some (Some t2, ?s2)"
    using walk_level_present [of t3 "vidx virt 30" ?s1 ?f] p(2) inter_flags_cases by (simp add: v t2_def)
  have "walk_levels True ?f [vidx virt 39, vidx virt 30, vidx virt 21] root s = Some (None, ?s2)"
    using h by (simp add: l1 l2 v)
  then have "vmm_map_page_in root virt phys flags s = Some ?s2"
    by (simp add: vmm_map_page_in_def walk_in_def index_vidx put_leaf_def)
  moreover
  have m: "load64 (memory ?s2) (entry root (vidx virt 39)) = e4 OR ?f" "load64 (memory ?s2) (entry t3 (vidx virt 30)) = e3 OR ?f"
    "load64 (memory ?s2) (entry t2 (vidx virt 21)) = e2"
    using v pte_set_same [of t3 "vidx virt 30" "e3 OR ?f" ?s1] by (simp_all add: pte_def)
  have m0: "load64 (memory s) (entry root (vidx virt 39)) = e4" "load64 (memory s) (entry t3 (vidx virt 30)) = e3"
    "load64 (memory s) (entry t2 (vidx virt 21)) = e2"
    by (simp_all add: def pte_def index_vidx)
  note b = or_flag_bits [OF inter_flags_cases [of flags]]
  have "translate (memory ?s2) root virt = translate (memory s) root virt"
    unfolding translate_def mmu.simps Let_def m m0 b t3_def [symmetric]
    using p h by (simp add: m m0 b t3_def [symmetric] t2_def [symmetric])
  ultimately show ?thesis by blast
qed

text \<open>mapping a page whose address lies under a 2 MiB huge page does nothing and reports nothing: \<open>vmm_map_page_in\<close> returns and the
  address still translates as before.  \<open>vmm_init\<close> covers the first 4 GiB with huge pages and every address space shares them.\<close>

theorem map_under_huge_page_ignored:
  fixes s :: "'a sched_scheme"
  assumes "aligned 4096 root" and "t3 = pte root (pml4_index virt) s AND PTE_ADDR_MASK" and "t2 = pte t3 (pdpt_index virt) s AND PTE_ADDR_MASK"
    and "distinct [root, t3, t2]" and "pte root (pml4_index virt) s AND PTE_PRESENT \<noteq> 0"
    and "pte t3 (pdpt_index virt) s AND PTE_PRESENT \<noteq> 0" and "pte t3 (pdpt_index virt) s AND PTE_HUGE = 0"
    and "pte t2 (pd_index virt) s AND PTE_HUGE \<noteq> 0"
  shows "\<exists>s'. vmm_map_page_in root virt phys flags s = Some s'
    \<and> translate (memory s') root virt = translate (memory s) root virt"
  using assms(1,4-) unfolding assms(2,3) by (rule huge_map_ignored)

definition huge_vm :: sched where
  "huge_vm = set_pte 0x8000 0 0x9003 (set_pte 0x9000 0 0xA003 (set_pte 0xA000 2 0x400083 sample_vm))"

lemma huge_vm_pte: "pte 0x8000 0 huge_vm = 0x9003" "pte 0x9000 0 huge_vm = 0xA003" "pte 0xA000 2 huge_vm = 0x400083"
  by (simp_all add: huge_vm_def pte_set_other aligned_def)

theorem map_under_huge_page_ignored_witness:
  "\<exists>s'. vmm_map_page_in 0x8000 0x400000 0x7000 7 huge_vm = Some s' \<and> translate (memory s') 0x8000 0x400000 = Some 0x400000"
proof -
  have i: "pml4_index 0x400000 = 0" "pdpt_index 0x400000 = 0" "pd_index 0x400000 = 2" by code_simp+
  have "\<exists>s'. vmm_map_page_in 0x8000 0x400000 0x7000 7 huge_vm = Some s'
    \<and> translate (memory s') 0x8000 0x400000 = translate (memory huge_vm) 0x8000 0x400000"
    by (rule map_under_huge_page_ignored [where ?t3.0 = "0x9000" and ?t2.0 = "0xA000"]) (simp_all add: i huge_vm_pte aligned_def)
  moreover have "translate (memory huge_vm) 0x8000 0x400000 = Some 0x400000"
    using huge_vm_pte i unfolding index_vidx by (simp add: translate_def pte_def mask_eq_exp_minus_1)
  ultimately show ?thesis by simp
qed

section \<open>The identity map\<close>

lemma load_entry:
  assumes "aligned 4096 t" "i < 512" "aligned 4096 u" "j < 512"
  shows "load64 (store64 m (entry t i) v) (entry u j) = (if u = t \<and> j = i then v else load64 m (entry u j))"
proof (cases "entry t i = entry u j")
  case True
  then have "u = t" using assms page_of_entry [of t i] page_of_entry [of u j] page_of_inj [of t u] by metis
  moreover from this True have "unat i = unat j" using unat_entry [OF assms(1,2)] unat_entry [OF assms(3,4)] by simp
  then have "j = i" by (simp add: word_unat_eq_iff)
  ultimately show ?thesis by (simp add: load_store)
next
  case False
  then show ?thesis by (auto simp: load64_store64_other entry_aligned assms)
qed

definition huge_leaf :: "u64 \<Rightarrow> u64 \<Rightarrow> u64" where
  "huge_leaf i j = (i * (512 * 0x200000) + j * 0x200000) OR PTE_PRESENT OR PTE_WRITABLE OR PTE_HUGE"

lemma of_nat_index: "n < 512 \<Longrightarrow> (of_nat n :: u64) < 512 \<and> unat (of_nat n :: u64) = n"
  by (simp add: word_less_nat_alt unat_of_nat_u64)

lemma fill_pd_load:
  assumes "aligned 4096 pd" "aligned 4096 u" "j < 512" "n \<le> 512"
  shows "load64 (fill_pd n pd i m) (entry u j) = (if u = pd \<and> unat j < n then huge_leaf i j else load64 m (entry u j))"
  using assms(4)
proof (induction n)
  case 0
  then show ?case by simp
next
  case (Suc n)
  then have n: "(of_nat n :: u64) < 512" "unat (of_nat n :: u64) = n" using of_nat_index by simp_all
  have "j = of_nat n \<longleftrightarrow> unat j = n" using n(2) by (auto simp: word_unat_eq_iff)
  then show ?case
    using Suc by (auto simp: load_entry [OF assms(1) n(1) assms(2,3)] huge_leaf_def less_Suc_eq)
qed

definition pd_table :: "ptr \<Rightarrow> nat \<Rightarrow> ptr" where
  "pd_table pd i = pd + of_nat i * 4096"

lemma unat_pd_table:
  assumes "unat pd + 0x4000 \<le> 2 ^ 32" "i < 4"
  shows "unat (pd_table pd i) = unat pd + i * 4096"
proof -
  have "unat (of_nat i * 4096 :: u64) = i * 4096" using assms(2) by (simp add: unat_word_ariths unat_of_nat_u64)
  then show ?thesis using assms by (simp add: pd_table_def unat_word_ariths)
qed

lemma pd_table_facts:
  assumes "unat pd + 0x4000 \<le> 2 ^ 32" "aligned 4096 pd" "i < 4"
  shows "aligned 4096 (pd_table pd i)" "unat (pd_table pd i) < 2 ^ 32" "k < 4 \<Longrightarrow> pd_table pd i = pd_table pd k \<longleftrightarrow> i = k"
  using assms by (auto simp: aligned_def unat_pd_table word_unat_eq_iff)

lemma fill_pdpt_load:
  assumes pd: "unat pd + 0x4000 \<le> 2 ^ 32" "aligned 4096 pd" and pdpt: "aligned 4096 pdpt" "\<forall>i < 4. pdpt \<noteq> pd_table pd i" and n: "n \<le> 4"
  shows "(\<forall>i < n. load64 (fill_pdpt n pdpt pd m) (entry pdpt (of_nat i)) = pd_table pd i OR 3)
    \<and> (\<forall>i < n. \<forall>j < 512. load64 (fill_pdpt n pdpt pd m) (entry (pd_table pd i) j) = huge_leaf (of_nat i) j)
    \<and> (\<forall>u j. aligned 4096 u \<longrightarrow> j < 512 \<longrightarrow> u \<noteq> pdpt \<longrightarrow> (\<forall>i < 4. u \<noteq> pd_table pd i) \<longrightarrow>
      load64 (fill_pdpt n pdpt pd m) (entry u j) = load64 m (entry u j))"
    (is "?A n \<and> ?B n \<and> ?C n")
  using n
proof (induction n)
  case 0
  then show ?case by simp
next
  case (Suc n)
  then have n4: "n < 4" and IH: "?A n" "?B n" "?C n" by simp_all
  let ?p = "pd_table pd n"
  let ?m = "fill_pdpt n pdpt pd m"
  have al: "aligned 4096 ?p" "(of_nat n :: u64) < 512" using pd_table_facts [OF pd n4] of_nat_index [of n] n4 by simp_all
  have step: "load64 (fill_pdpt (Suc n) pdpt pd m) (entry u j) =
      (if u = ?p then huge_leaf (of_nat n) j else if u = pdpt \<and> j = of_nat n then ?p OR 3 else load64 ?m (entry u j))"
    if "aligned 4096 u" "j < 512" for u j
    using that al pdpt n4
    by (simp add: Let_def pd_table_def [symmetric] fill_pd_load load_entry load64_zeroed word_less_nat_alt)
  have "load64 (fill_pdpt (Suc n) pdpt pd m) (entry pdpt (of_nat i)) = pd_table pd i OR 3" if "i < Suc n" for i
  proof -
    have i: "(of_nat i :: u64) < 512" "of_nat i = (of_nat n :: u64) \<longleftrightarrow> i = n"
      using that n4 of_nat_index [of i] of_nat_index [of n] by (auto simp: word_unat_eq_iff)
    then have "load64 (fill_pdpt (Suc n) pdpt pd m) (entry pdpt (of_nat i)) = (if i = n then ?p OR 3 else load64 ?m (entry pdpt (of_nat i)))"
      using step [OF pdpt(1) i(1)] pdpt(2) n4 by simp
    then show ?thesis using IH(1) that by (auto simp: less_Suc_eq simp del: fill_pdpt.simps)
  qed
  moreover have "load64 (fill_pdpt (Suc n) pdpt pd m) (entry (pd_table pd i) j) = huge_leaf (of_nat i) j" if "i < Suc n" "j < 512" for i j
  proof -
    have i4: "i < 4" using that n4 by simp
    note f = pd_table_facts [OF pd i4]
    have "load64 (fill_pdpt (Suc n) pdpt pd m) (entry (pd_table pd i) j) = (if i = n then huge_leaf (of_nat n) j else load64 ?m (entry (pd_table pd i) j))"
      using step [OF f(1) that(2)] f(3) [OF n4] pdpt(2) i4 by auto
    then show ?thesis using IH(2) that by (auto simp: less_Suc_eq simp del: fill_pdpt.simps)
  qed
  moreover have "?C (Suc n)"
  proof (intro allI impI)
    fix u j assume "aligned 4096 u" "j < (512 :: u64)" "u \<noteq> pdpt" "\<forall>i < 4. u \<noteq> pd_table pd i"
    then show "load64 (fill_pdpt (Suc n) pdpt pd m) (entry u j) = load64 m (entry u j)"
      using step [of u j] IH(3) n4 by simp
  qed
  ultimately show ?case by blast
qed

lemma low_huge_leaf:
  assumes v: "unat v < 2 ^ 32"
  shows "(huge_leaf (vidx v 30) (vidx v 21) AND PTE_ADDR_MASK AND NOT (mask 21)) OR (v AND mask 21) = v"
    and "huge_leaf (vidx v 30) (vidx v 21) AND PTE_PRESENT = 1" and "huge_leaf (vidx v 30) (vidx v 21) AND PTE_HUGE \<noteq> 0"
    and "vidx v 39 = 0" and "unat (vidx v 30) < 4"
proof -
  have u: "unat (vidx v k) = unat v div 2 ^ k mod 512" for k
  proof -
    have "vidx v k = take_bit 9 (drop_bit k v)" by (simp add: vidx_def take_bit_eq_mask mask_eq_exp_minus_1)
    then have "unat (vidx v k) = take_bit 9 (drop_bit k (unat v))" by (simp only: unsigned_take_bit_eq unat_drop_bit_eq)
    then show ?thesis by (simp add: take_bit_eq_mod drop_bit_eq_div)
  qed
  have "unat v div 2 ^ 39 = 0" using v by simp
  then have "unat (vidx v 39) = 0" by (simp add: u)
  then show "vidx v 39 = 0" by (simp add: unat_eq_0)
  have i: "unat (vidx v 30) = unat v div 2 ^ 30" "unat v div 2 ^ 30 < 4" using v by (simp_all add: u div_less_mono less_mult_imp_div_less)
  then show "unat (vidx v 30) < 4" by simp
  have "unat v div 2 ^ 30 = unat v div 2 ^ 21 div 512" by (simp add: div_mult2_eq [symmetric])
  then have q: "unat v div 2 ^ 30 * 512 + unat v div 2 ^ 21 mod 512 = unat v div 2 ^ 21" by simp
  let ?b = "vidx v 30 * (512 * 0x200000) + vidx v 21 * 0x200000"
  have "?b = of_nat (unat v div 2 ^ 30) * (512 * 0x200000) + of_nat (unat v div 2 ^ 21 mod 512) * 0x200000"
    unfolding i(1) [symmetric] u [symmetric] by simp
  also have "\<dots> = of_nat ((unat v div 2 ^ 30 * 512 + unat v div 2 ^ 21 mod 512) * 0x200000)" by (simp add: algebra_simps)
  also have "\<dots> = of_nat (unat (v div 2 ^ 21 * 2 ^ 21))" unfolding q by (simp add: unat_div_mult)
  finally have b: "?b = v AND NOT (mask 21)" by (simp add: and_not_mask)
  have "take_bit 32 v = v" using v by (simp add: word_unat_eq_iff unsigned_take_bit_eq take_bit_nat_eq_self)
  then have w: "v = v AND mask 32" by (simp add: take_bit_eq_mask)
  have "?b = v AND (mask 32 AND NOT (mask 21))" using b w by (metis and.assoc)
  also have "\<dots> = v AND 0xFFE00000" by (simp add: mask_eq_exp_minus_1)
  finally have b': "?b = v AND 0xFFE00000" .
  show "huge_leaf (vidx v 30) (vidx v 21) AND PTE_PRESENT = 1" "huge_leaf (vidx v 30) (vidx v 21) AND PTE_HUGE \<noteq> 0"
    unfolding huge_leaf_def b' by (simp_all add: bit.conj_disj_distrib2 and.assoc)
  have "huge_leaf (vidx v 30) (vidx v 21) AND PTE_ADDR_MASK AND NOT (mask 21) = v AND 0xFFE00000"
    unfolding huge_leaf_def b' by (simp add: bit.conj_disj_distrib2 and.assoc mask_eq_exp_minus_1)
  also have "\<dots> = v AND NOT (mask 21)" using b b' by simp
  finally show "(huge_leaf (vidx v 30) (vidx v 21) AND PTE_ADDR_MASK AND NOT (mask 21)) OR (v AND mask 21) = v"
    by (simp add: bit.conj_disj_distrib [symmetric])
qed

text \<open>C17: after \<open>vmm_init\<close>, with the static tables page-aligned, distinct and below 4 GiB, every address below 4 GiB translates to itself
  through the table that is loaded.\<close>

theorem vmm_init_identity:
  fixes s :: "'a sched_scheme"
  assumes "aligned 4096 init_pml4" and "aligned 4096 init_pdpt" and "aligned 4096 init_pd"
    and "unat init_pdpt < 2 ^ 32" and "unat init_pd + 0x4000 \<le> 2 ^ 32" and "init_pml4 \<noteq> init_pdpt"
    and "\<forall>i < 4. init_pml4 \<noteq> pd_table init_pd i \<and> init_pdpt \<noteq> pd_table init_pd i" and "unat virt < 2 ^ 32"
  shows "let s' = vmm_init init_pml4 init_pdpt init_pd s in translate (memory s') (cr3 s') virt = Some virt \<and> kernel_pml4 s' = cr3 s'"
proof -
  let ?m = "memory (vmm_init init_pml4 init_pdpt init_pd s)"
  let ?i = "unat (vidx virt 30)"
  have n: "\<forall>i < 4. init_pdpt \<noteq> pd_table init_pd i" "\<forall>i < 4. init_pml4 \<noteq> pd_table init_pd i" using assms(7) by auto
  note fill = fill_pdpt_load [OF assms(5,3,2) n(1) order_refl]
  note low = low_huge_leaf [OF assms(8)]
  have a: "load64 ?m (entry init_pml4 0) = init_pdpt OR 3"
    using fill assms(1,6) n(2) by (simp add: vmm_init_def Let_def load_store)
  have b: "load64 ?m (entry init_pdpt (vidx virt 30)) = pd_table init_pd ?i OR 3"
    using fill [THEN conjunct1, rule_format, OF low(5)] by (simp add: vmm_init_def Let_def)
  have c: "load64 ?m (entry (pd_table init_pd ?i) (vidx virt 21)) = huge_leaf (vidx virt 30) (vidx virt 21)"
    using fill [THEN conjunct2, THEN conjunct1, rule_format, OF low(5) vidx_less] by (simp add: vmm_init_def Let_def)
  note pd = pd_table_facts [OF assms(5,3) low(5)]
  note bits = low_aligned_bits [OF assms(2,4), of 3] low_aligned_bits [OF pd(1,2), of 3]
  have "translate ?m init_pml4 virt = Some virt"
    using low by (simp add: translate_def a b c bits)
  then show ?thesis by (simp add: Let_def) (simp add: vmm_init_def Let_def)
qed

theorem vmm_init_identity_witness:
  "let s' = vmm_init 0x100000 0x101000 0x102000 sample_vm in translate (memory s') (cr3 s') 0xFEE00010 = Some 0xFEE00010 \<and> kernel_pml4 s' = cr3 s'"
proof (rule vmm_init_identity)
  show "\<forall>i < 4. (0x100000 :: ptr) \<noteq> pd_table 0x102000 i \<and> (0x101000 :: ptr) \<noteq> pd_table 0x102000 i"
    by (auto simp: word_unat_eq_iff unat_pd_table)
qed (simp_all add: aligned_def)

end
