(* ===== verification/Vfs.thy ===== *)
theory Vfs
  imports Sched
begin

text \<open>
  The in-memory file system of \<open>kernel/fs/vfs.c\<close>.  The vnode and descriptor tables are lists;
  an array \<open>children\<close> with its \<open>child_count\<close> is the list of the entries in use, a path is a
  HOL string or \<open>None\<close> for a null pointer, and an index or \<open>-1\<close> is an option.  The contents of
  a file are bytes of the kernel's memory, in a buffer from the heap.

  The lemmas: every call keeps the tree of vnodes and the open descriptors consistent, a
  created path resolves to the node created for it, and what is written to a file is read back.
\<close>

unbundle bit_operations_syntax

abbreviation (input) VFS_MAX_NAME :: nat where "VFS_MAX_NAME \<equiv> 64"
abbreviation (input) VFS_MAX_FILES :: nat where "VFS_MAX_FILES \<equiv> 128"
abbreviation (input) VFS_MAX_FD :: nat where "VFS_MAX_FD \<equiv> 64"
abbreviation (input) VFS_MAX_DATA :: u64 where "VFS_MAX_DATA \<equiv> 16384"

datatype VNodeType = VFS_FILE | VFS_DIRECTORY

record VNode =
  vname :: string
  vtype :: VNodeType
  vdata :: ptr
  vsize :: u64
  vcapacity :: u64
  vparent :: "nat option"
  children :: "nat list"
  vused :: bool

record FileDesc =
  fvnode :: nat
  foffset :: u64
  fused :: bool

record VfsStat =
  st_type :: VNodeType
  st_size :: u64
  st_name :: string

definition zero_vnode :: VNode where
  "zero_vnode = \<lparr>vname = '''', vtype = VFS_FILE, vdata = NULL, vsize = 0, vcapacity = 0, vparent = Some 0,
     children = [], vused = False\<rparr>"

definition zero_fd :: FileDesc where
  "zero_fd = \<lparr>fvnode = 0, foffset = 0, fused = False\<rparr>"

record vfs = sched +
  vnodes :: "VNode list"
  fds :: "FileDesc list"

abbreviation vnode :: "'a vfs_scheme \<Rightarrow> nat \<Rightarrow> VNode" where
  "vnode s i \<equiv> vnodes s ! i"

definition set_vnode :: "nat \<Rightarrow> (VNode \<Rightarrow> VNode) \<Rightarrow> 'a vfs_scheme \<Rightarrow> 'a vfs_scheme" where
  "set_vnode i f s = s\<lparr>vnodes := (vnodes s)[i := f (vnodes s ! i)]\<rparr>"

section \<open>Helpers\<close>

definition alloc_vnode :: "'a vfs_scheme \<Rightarrow> (nat \<times> 'a vfs_scheme) option" where
  "alloc_vnode s = (case List.find (\<lambda>i. \<not> vused (vnode s i)) [0..<VFS_MAX_FILES] of
     None \<Rightarrow> None
   | Some i \<Rightarrow> Some (i, set_vnode i (\<lambda>_. zero_vnode\<lparr>vused := True, vparent := None\<rparr>) s))"

definition alloc_fd :: "'a vfs_scheme \<Rightarrow> (nat \<times> 'a vfs_scheme) option" where
  "alloc_fd s = (case List.find (\<lambda>i. \<not> fused (fds s ! i)) [0..<VFS_MAX_FD] of
     None \<Rightarrow> None
   | Some i \<Rightarrow> Some (i, s\<lparr>fds := (fds s)[i := (fds s ! i)\<lparr>fused := True, foffset := 0\<rparr>]\<rparr>))"

text \<open>The inner loop of \<open>resolve_path\<close>: at most 63 characters up to the next slash, which is skipped.\<close>

definition next_component :: "string \<Rightarrow> string \<times> string" where
  "next_component p =
     (let c = take (VFS_MAX_NAME - 1) (takeWhile (\<lambda>x. x \<noteq> CHR ''/'') p);
          r = drop (length c) p
      in (c, if r \<noteq> [] \<and> hd r = CHR ''/'' then tl r else r))"

definition find_child :: "VNode list \<Rightarrow> nat \<Rightarrow> string \<Rightarrow> nat option" where
  "find_child vs d c = List.find (\<lambda>k. vname (vs ! k) = c) (children (vs ! d))"

lemma next_component_shorter: "(c, r) = next_component p \<Longrightarrow> p \<noteq> [] \<Longrightarrow> length r < length p"
  by (cases p) (auto simp: next_component_def Let_def)

function walk :: "VNode list \<Rightarrow> nat \<Rightarrow> string \<Rightarrow> nat option" where
  "walk vs cur p =
     (if p = [] then Some cur
      else let (c, r) = next_component p
           in if c = [] then walk vs cur r
              else if vtype (vs ! cur) \<noteq> VFS_DIRECTORY then None
              else case find_child vs cur c of None \<Rightarrow> None | Some k \<Rightarrow> walk vs k r)"
  by pat_completeness auto
termination
  by (relation "measure (\<lambda>(vs, cur, p). length p)") (auto dest: next_component_shorter)

declare walk.simps [simp del]

definition resolve_path :: "string option \<Rightarrow> 'a vfs_scheme \<Rightarrow> nat option" where
  "resolve_path path s = (case path of
     Some (c # p) \<Rightarrow> if c \<noteq> CHR ''/'' then None else walk (vnodes s) 0 p
   | _ \<Rightarrow> None)"

text \<open>The part of a path after the last slash, and the part before it.\<close>

definition last_slash :: "string \<Rightarrow> nat" where
  "last_slash p = length p - 1 - length (takeWhile (\<lambda>x. x \<noteq> CHR ''/'') (rev p))"

definition resolve_parent :: "string option \<Rightarrow> 'a vfs_scheme \<Rightarrow> (nat \<times> string) option" where
  "resolve_parent path s = (case path of
     Some (c # p) \<Rightarrow>
       if c \<noteq> CHR ''/'' then None
       else let k = last_slash (c # p); nm = drop (k + 1) (c # p)
            in if nm = [] then None
               else let nm = take (VFS_MAX_NAME - 1) nm
                    in if k = 0 then Some (0, nm)
                       else map_option (\<lambda>d. (d, nm)) (resolve_path (Some (take (min k 255) (c # p))) s)
   | _ \<Rightarrow> None)"

section \<open>The calls\<close>

definition vfs_init :: "'a vfs_scheme \<Rightarrow> 'a vfs_scheme" where
  "vfs_init s = s\<lparr>vnodes := (replicate VFS_MAX_FILES zero_vnode)
       [0 := zero_vnode\<lparr>vused := True, vtype := VFS_DIRECTORY, vparent := None, vname := ''/''\<rparr>],
     fds := replicate VFS_MAX_FD zero_fd\<rparr>"

definition add_child :: "nat \<Rightarrow> nat \<Rightarrow> 'a vfs_scheme \<Rightarrow> 'a vfs_scheme" where
  "add_child d i s = (if length (children (vnode s d)) < 32
     then set_vnode d (\<lambda>v. v\<lparr>children := children v @ [i]\<rparr>) s else s)"

definition create_file :: "string option \<Rightarrow> 'a vfs_scheme \<Rightarrow> (nat option \<times> 'a vfs_scheme) option" where
  "create_file path s = (case resolve_parent path s of
     None \<Rightarrow> Some (None, s)
   | Some (d, nm) \<Rightarrow>
       if vtype (vnode s d) \<noteq> VFS_DIRECTORY then Some (None, s)
       else case alloc_vnode s of
         None \<Rightarrow> Some (None, s)
       | Some (i, s) \<Rightarrow> do {
           let s = set_vnode i (\<lambda>v. v\<lparr>vname := nm, vtype := VFS_FILE, vparent := Some d\<rparr>) s;
           (p, s) \<leftarrow> kmalloc VFS_MAX_DATA s;
           let s = set_vnode i (\<lambda>v. v\<lparr>vdata := p, vcapacity := (if p \<noteq> NULL then VFS_MAX_DATA else 0), vsize := 0\<rparr>) s;
           Some (Some i, add_child d i s) })"

definition open_fd :: "nat option \<Rightarrow> 'a vfs_scheme \<Rightarrow> int \<times> 'a vfs_scheme" where
  "open_fd idx s = (case idx of
     None \<Rightarrow> (-1, s)
   | Some i \<Rightarrow>
       if vtype (vnode s i) = VFS_DIRECTORY then (-1, s)
       else case alloc_fd s of
         None \<Rightarrow> (-1, s)
       | Some (fd, s) \<Rightarrow> (int fd, s\<lparr>fds := (fds s)[fd := (fds s ! fd)\<lparr>fvnode := i, foffset := 0\<rparr>]\<rparr>))"

definition vfs_open :: "string option \<Rightarrow> bool \<Rightarrow> 'a vfs_scheme \<Rightarrow> (int \<times> 'a vfs_scheme) option" where
  "vfs_open path create s = do {
     (idx, s) \<leftarrow> (case resolve_path path s of
        None \<Rightarrow> if create then create_file path s else Some (None, s)
      | Some i \<Rightarrow> Some (Some i, s));
     Some (open_fd idx s) }"

definition bad_fd :: "int \<Rightarrow> 'a vfs_scheme \<Rightarrow> bool" where
  "bad_fd fd s \<longleftrightarrow> fd < 0 \<or> int VFS_MAX_FD \<le> fd \<or> \<not> fused (fds s ! nat fd)"

definition vfs_close :: "int \<Rightarrow> 'a vfs_scheme \<Rightarrow> int \<times> 'a vfs_scheme" where
  "vfs_close fd s = (if bad_fd fd s then (-1, s)
     else (0, s\<lparr>fds := (fds s)[nat fd := (fds s ! nat fd)\<lparr>fused := False\<rparr>]\<rparr>))"

text \<open>The results of \<open>vfs_read\<close> and \<open>vfs_write\<close> are \<open>(int)count\<close>, at most 16384.\<close>

definition vfs_read :: "int \<Rightarrow> ptr \<Rightarrow> u64 \<Rightarrow> 'a vfs_scheme \<Rightarrow> int \<times> 'a vfs_scheme" where
  "vfs_read fd buf count s = (if bad_fd fd s then (-1, s)
     else let d = fds s ! nat fd; vn = vnode s (fvnode d)
          in if vdata vn = NULL then (0, s)
             else let avail = (if foffset d < vsize vn then vsize vn - foffset d else 0);
                      count = (if avail < count then avail else count)
                  in (int (unat count), s\<lparr>memory := memcpy (memory s) buf (vdata vn + foffset d) count,
                        fds := (fds s)[nat fd := d\<lparr>foffset := foffset d + count\<rparr>]\<rparr>))"

definition vfs_write :: "int \<Rightarrow> ptr \<Rightarrow> u64 \<Rightarrow> 'a vfs_scheme \<Rightarrow> int \<times> 'a vfs_scheme" where
  "vfs_write fd buf count s = (if bad_fd fd s then (-1, s)
     else let d = fds s ! nat fd; vn = vnode s (fvnode d); off = foffset d; cap = vcapacity vn
          in if vdata vn = NULL then (-1, s)
             else if (cap < count \<or> cap - count < off) \<and> cap \<le> off then (0, s)
             else let count = (if cap < count \<or> cap - count < off then cap - off else count)
                  in if count = 0 then (0, s)
                     else let s = s\<lparr>memory := memcpy (memory s) (vdata vn + off) buf count,
                                    fds := (fds s)[nat fd := d\<lparr>foffset := off + count\<rparr>]\<rparr>;
                              s = (if vsize vn < off + count
                                   then set_vnode (fvnode d) (vsize_update (\<lambda>_. off + count)) s else s)
                          in (int (unat count), s))"

definition stat_of :: "VNode \<Rightarrow> VfsStat" where
  "stat_of v = \<lparr>st_type = vtype v, st_size = vsize v, st_name = vname v\<rparr>"

definition vfs_stat :: "string option \<Rightarrow> 'a vfs_scheme \<Rightarrow> VfsStat option" where
  "vfs_stat path s = map_option (\<lambda>i. stat_of (vnode s i)) (resolve_path path s)"

definition vfs_mkdir :: "string option \<Rightarrow> 'a vfs_scheme \<Rightarrow> int \<times> 'a vfs_scheme" where
  "vfs_mkdir path s = (
     if resolve_path path s \<noteq> None then (-1, s)
     else case resolve_parent path s of
       None \<Rightarrow> (-1, s)
     | Some (d, nm) \<Rightarrow>
         if vtype (vnode s d) \<noteq> VFS_DIRECTORY then (-1, s)
         else case alloc_vnode s of
           None \<Rightarrow> (-1, s)
         | Some (i, s) \<Rightarrow>
             (0, add_child d i (set_vnode i (\<lambda>v. v\<lparr>vname := nm, vtype := VFS_DIRECTORY, vparent := Some d\<rparr>) s)))"

definition vfs_readdir :: "string option \<Rightarrow> int \<Rightarrow> 'a vfs_scheme \<Rightarrow> VfsStat list option" where
  "vfs_readdir path max_entries s = (case resolve_path path s of
     None \<Rightarrow> None
   | Some i \<Rightarrow>
       if vtype (vnode s i) \<noteq> VFS_DIRECTORY then None
       else Some (map (\<lambda>c. stat_of (vnode s c)) (take (nat max_entries) (children (vnode s i)))))"

text \<open>The search and shift loops on \<open>children\<close>, shared by \<open>vfs_unlink\<close> and \<open>vfs_rename\<close>.\<close>

definition drop_child :: "nat \<Rightarrow> 'a vfs_scheme \<Rightarrow> 'a vfs_scheme" where
  "drop_child i s = (case vparent (vnode s i) of
     None \<Rightarrow> s
   | Some d \<Rightarrow> set_vnode d (\<lambda>v. v\<lparr>children := remove1 i (children v)\<rparr>) s)"

definition close_all :: "nat \<Rightarrow> 'a vfs_scheme \<Rightarrow> 'a vfs_scheme" where
  "close_all i s = s\<lparr>fds := map (\<lambda>d. if fused d \<and> fvnode d = i then d\<lparr>fused := False\<rparr> else d) (fds s)\<rparr>"

definition vfs_unlink :: "string option \<Rightarrow> 'a vfs_scheme \<Rightarrow> (int \<times> 'a vfs_scheme) option" where
  "vfs_unlink path s = (case resolve_path path s of
     None \<Rightarrow> Some (-1, s)
   | Some i \<Rightarrow>
       if i = 0 then Some (-1, s)
       else if vtype (vnode s i) = VFS_DIRECTORY \<and> children (vnode s i) \<noteq> [] then Some (-1, s)
       else do {
         let s = drop_child i s;
         s \<leftarrow> (if vdata (vnode s i) \<noteq> NULL
              then do { s \<leftarrow> kfree (vdata (vnode s i)) s; Some (set_vnode i (vdata_update (\<lambda>_. NULL)) s) }
              else Some s);
         Some (0, set_vnode i (vused_update (\<lambda>_. False)) (close_all i s)) })"

definition vfs_rename :: "string option \<Rightarrow> string option \<Rightarrow> 'a vfs_scheme \<Rightarrow> int \<times> 'a vfs_scheme" where
  "vfs_rename old_path new_path s = (case resolve_path old_path s of
     None \<Rightarrow> (-1, s)
   | Some i \<Rightarrow>
       if i = 0 then (-1, s)
       else if resolve_path new_path s \<noteq> None then (-1, s)
       else case resolve_parent new_path s of
         None \<Rightarrow> (-1, s)
       | Some (d, nm) \<Rightarrow>
           if vtype (vnode s d) \<noteq> VFS_DIRECTORY then (-1, s)
           else if Some d \<noteq> vparent (vnode s i) \<and> 32 \<le> length (children (vnode s d)) then (-1, s)
           else let s = drop_child i s;
                    s = set_vnode d (\<lambda>v. v\<lparr>children := children v @ [i]\<rparr>) s
                in (0, set_vnode i (\<lambda>v. v\<lparr>vname := nm, vparent := Some d\<rparr>) s))"


section \<open>The invariant\<close>

text \<open>
  The tables have their sizes, the root is a directory, a child in use knows its directory, a file
  has no children and no more data than its buffer holds, and an open descriptor refers to a file.
\<close>

definition vnode_ok :: "VNode list \<Rightarrow> nat \<Rightarrow> bool" where
  "vnode_ok vs d \<longleftrightarrow> (\<forall>c \<in> set (children (vs ! d)). c \<noteq> 0 \<and> c < VFS_MAX_FILES \<and> vused (vs ! c) \<and> vparent (vs ! c) = Some d)
     \<and> distinct (children (vs ! d)) \<and> length (children (vs ! d)) \<le> 32
     \<and> (vtype (vs ! d) = VFS_FILE \<longrightarrow> children (vs ! d) = [])
     \<and> (\<not> vused (vs ! d) \<longrightarrow> children (vs ! d) = [])
     \<and> vsize (vs ! d) \<le> vcapacity (vs ! d) \<and> vcapacity (vs ! d) \<le> VFS_MAX_DATA"

definition fd_ok :: "VNode list \<Rightarrow> FileDesc \<Rightarrow> bool" where
  "fd_ok vs d \<longleftrightarrow> (fused d \<longrightarrow> fvnode d < VFS_MAX_FILES \<and> vused (vs ! fvnode d) \<and> vtype (vs ! fvnode d) = VFS_FILE
     \<and> foffset d \<le> VFS_MAX_DATA)"

definition vfs_inv :: "'a vfs_scheme \<Rightarrow> bool" where [inv_defs]:
  "vfs_inv s \<longleftrightarrow> length (vnodes s) = VFS_MAX_FILES \<and> length (fds s) = VFS_MAX_FD
     \<and> vused (vnode s 0) \<and> vtype (vnode s 0) = VFS_DIRECTORY \<and> vparent (vnode s 0) = None
     \<and> (\<forall>d < VFS_MAX_FILES. vnode_ok (vnodes s) d) \<and> (\<forall>d \<in> set (fds s). fd_ok (vnodes s) d)"

lemma vfs_init_inv: "vfs_inv (vfs_init s)"
  by (auto simp: vfs_init_def vfs_inv_def zero_vnode_def zero_fd_def vnode_ok_def fd_ok_def nth_list_update nth_Cons' split: if_splits)

lemma find_Some_upt: "List.find P [0..<n] = Some i \<Longrightarrow> i < n \<and> P i"
  by (auto simp: find_Some_iff)

lemma find_child_Some: "find_child vs d c = Some k \<Longrightarrow> k \<in> set (children (vs ! d)) \<and> vname (vs ! k) = c"
  by (auto simp: find_child_def find_Some_iff)

text \<open>A path that resolves leads to the root or to a child of a directory.\<close>

lemma walk_used:
  assumes "\<forall>d < 128. vnode_ok vs d" and "cur < 128" and "vused (vs ! cur)" and "walk vs cur p = Some k"
  shows "k < 128 \<and> vused (vs ! k) \<and> (k = cur \<or> (\<exists>d < 128. k \<in> set (children (vs ! d))))"
  using assms(2-4)
proof (induction "length p" arbitrary: cur p rule: less_induct)
  case less
  obtain c r where cr: "next_component p = (c, r)" by (cases "next_component p")
  show ?case
  proof (cases "p = []")
    case True
    then show ?thesis using less.prems by (simp add: walk.simps)
  next
    case p: False
    have r: "length r < length p" by (rule next_component_shorter [OF cr [symmetric] p])
    show ?thesis
    proof (cases "c = []")
      case True
      then show ?thesis using less.hyps [OF r] less.prems p cr by (simp add: walk.simps [of _ _ p])
    next
      case c: False
      then obtain m where m: "find_child vs cur c = Some m" "walk vs m r = Some k"
        using less.prems(3) p cr by (auto simp: walk.simps [of _ _ p] split: option.splits if_splits)
      have mc: "m \<in> set (children (vs ! cur))" using find_child_Some [OF m(1)] by simp
      moreover have "vnode_ok vs cur" using assms(1) less.prems(1) by simp
      ultimately have "m < 128" "vused (vs ! m)" unfolding vnode_ok_def by blast+
      then show ?thesis using less.hyps [OF r, of m] m mc less.prems(1) by blast
    qed
  qed
qed

lemma resolve_path_used: "vfs_inv s \<Longrightarrow> resolve_path p s = Some k \<Longrightarrow>
    k < 128 \<and> vused (vnode s k) \<and> (k = 0 \<or> (\<exists>d < 128. k \<in> set (children (vnode s d))))"
proof -
  assume inv: "vfs_inv s" and r: "resolve_path p s = Some k"
  from r obtain q where "walk (vnodes s) 0 q = Some k"
    by (auto simp: resolve_path_def split: option.splits list.splits if_splits)
  then show ?thesis by (rule walk_used [rotated 3]) (use inv in \<open>auto simp: vfs_inv_def\<close>)
qed

lemma resolve_parent_used: "vfs_inv s \<Longrightarrow> resolve_parent p s = Some (d, nm) \<Longrightarrow> d < 128 \<and> vused (vnode s d)"
proof -
  assume inv: "vfs_inv s" and r: "resolve_parent p s = Some (d, nm)"
  have "d = 0 \<or> (\<exists>q. resolve_path q s = Some d)"
    using r by (auto simp: resolve_parent_def Let_def split: option.splits list.splits if_splits)
  then show ?thesis using inv resolve_path_used [OF inv] by (auto simp: vfs_inv_def)
qed

lemma alloc_vnode_free:
  "vfs_inv s \<Longrightarrow> alloc_vnode s = Some (i, s') \<Longrightarrow> i < 128 \<and> i \<noteq> 0 \<and> \<not> vused (vnode s i)
     \<and> s' = set_vnode i (\<lambda>_. zero_vnode\<lparr>vused := True, vparent := None\<rparr>) s"
proof -
  assume inv: "vfs_inv s" and r: "alloc_vnode s = Some (i, s')"
  then have "List.find (\<lambda>i. \<not> vused (vnode s i)) [0..<128] = Some i"
    "s' = set_vnode i (\<lambda>_. zero_vnode\<lparr>vused := True, vparent := None\<rparr>) s"
    by (auto simp: alloc_vnode_def split: option.splits)
  moreover from this(1) have "i < 128 \<and> \<not> vused (vnode s i)" by (rule find_Some_upt)
  moreover have "vused (vnode s 0)" using inv by (simp add: vfs_inv_def)
  ultimately show ?thesis by (cases "i = 0") simp_all
qed

lemma vfs_fields:
  assumes "heap.more s' = heap.more (s :: 'a vfs_scheme)"
  shows "vnodes s' = vnodes s" "fds s' = fds s"
  using assms by (cases s; cases s'; simp)+

lemma vfs_inv_cong: "vnodes s' = vnodes s \<Longrightarrow> fds s' = fds s \<Longrightarrow> vfs_inv s' = vfs_inv s"
  by (simp add: vfs_inv_def)

text \<open>The three ways the tree changes: a new node below a directory, a node removed, a node moved.\<close>

definition with_child :: "VNode list \<Rightarrow> nat \<Rightarrow> nat \<Rightarrow> VNode list" where
  "with_child vs d i = (if length (children (vs ! d)) < 32
     then vs[d := (vs ! d)\<lparr>children := children (vs ! d) @ [i]\<rparr>] else vs)"

lemma vfs_inv_new:
  assumes "vfs_inv s" and "i < 128" "i \<noteq> 0" "\<not> vused (vnode s i)" and "d < 128" "vused (vnode s d)" "vtype (vnode s d) = VFS_DIRECTORY"
    and "vused v" "vparent v = Some d" "children v = []" "vsize v \<le> vcapacity v" "vcapacity v \<le> VFS_MAX_DATA"
  shows "vfs_inv (s\<lparr>vnodes := with_child ((vnodes s)[i := v]) d i\<rparr>)"
proof -
  let ?vs = "with_child ((vnodes s)[i := v]) d i"
  have l: "length (vnodes s) = 128" using assms(1) by (simp add: vfs_inv_def)
  have di: "d \<noteq> i" using assms by auto
  have ok: "vnode_ok (vnodes s) k" if "k < 128" for k using assms(1) that by (simp add: vfs_inv_def)
  have ch: "c \<noteq> i" if "k < 128" "c \<in> set (children (vnode s k))" for k c
    using ok [OF that(1)] that(2) assms(4) by (auto simp: vnode_ok_def)
  have nth: "?vs ! k = (if k = i then v else if k = d \<and> length (children (vnode s d)) < 32
      then (vnode s d)\<lparr>children := children (vnode s d) @ [i]\<rparr> else vnode s k)" if "k < 128" for k
    using that l di by (auto simp: with_child_def nth_list_update)
  have "vnode_ok ?vs k" if k: "k < 128" for k
  proof (cases "k = i")
    case True
    then show ?thesis using assms(8-12) nth [OF assms(2)] by (simp add: vnode_ok_def)
  next
    case False
    have "\<forall>c \<in> set (children (vnode s k)). c \<noteq> 0 \<and> c < 128 \<and> vused (?vs ! c) \<and> vparent (?vs ! c) = Some k"
      using ok [OF k] ch [OF k] by (auto simp: vnode_ok_def nth)
    moreover have "vused (?vs ! i) \<and> vparent (?vs ! i) = Some d" using assms(2,8,9) by (simp add: nth)
    ultimately show ?thesis using ok [OF k] ch [OF k, of i] False k assms(2,3,6,7)
      by (auto simp: vnode_ok_def nth)
  qed
  moreover have "fd_ok ?vs f" if "f \<in> set (fds s)" for f
    using assms(1,4) that by (auto simp: vfs_inv_def fd_ok_def nth)
  moreover have "vused (?vs ! 0) \<and> vtype (?vs ! 0) = VFS_DIRECTORY \<and> vparent (?vs ! 0) = None"
    using assms(1,3) by (auto simp: vfs_inv_def nth)
  moreover have "length ?vs = 128" using l by (simp add: with_child_def)
  ultimately show ?thesis using assms(1) by (simp add: vfs_inv_def)
qed

definition without_child :: "VNode list \<Rightarrow> nat \<Rightarrow> VNode list" where
  "without_child vs i = (case vparent (vs ! i) of None \<Rightarrow> vs
     | Some d \<Rightarrow> vs[d := (vs ! d)\<lparr>children := remove1 i (children (vs ! d))\<rparr>])"

text \<open>The node and its parent in the table once the node is off its parent's list.\<close>

lemma without_child_nth:
  assumes "vfs_inv s" and "i < 128" "k < 128"
  shows "without_child (vnodes s) i ! k = (vnode s k)\<lparr>children := remove1 i (children (vnode s k))\<rparr>"
proof -
  have l: "length (vnodes s) = 128" using assms(1) by (simp add: vfs_inv_def)
  have ok: "vnode_ok (vnodes s) k" using assms by (simp add: vfs_inv_def)
  show ?thesis
  proof (cases "vparent (vnode s i) = Some k")
    case True
    then show ?thesis using l assms by (simp add: without_child_def)
  next
    case False
    then have "i \<notin> set (children (vnode s k))" using ok by (auto simp: vnode_ok_def)
    then show ?thesis using False l assms by (auto simp: without_child_def remove1_idem nth_list_update split: option.splits)
  qed
qed

lemma vfs_inv_remove:
  assumes "vfs_inv s" and "i < 128" "i \<noteq> 0" "children (vnode s i) = []" and "length vs = 128" and
    "\<And>k. k < 128 \<Longrightarrow> k \<noteq> i \<Longrightarrow> vs ! k = (vnode s k)\<lparr>children := remove1 i (children (vnode s k))\<rparr>" and
    "\<not> vused (vs ! i)" "children (vs ! i) = []" "vsize (vs ! i) \<le> vcapacity (vs ! i)" "vcapacity (vs ! i) \<le> VFS_MAX_DATA"
  shows "vfs_inv (s\<lparr>vnodes := vs, fds := map (\<lambda>d. if fused d \<and> fvnode d = i then d\<lparr>fused := False\<rparr> else d) (fds s)\<rparr>)"
proof -
  have ok: "vnode_ok (vnodes s) k" if "k < 128" for k using assms(1) that by (simp add: vfs_inv_def)
  have "vnode_ok vs k" if k: "k < 128" for k
  proof (cases "k = i")
    case True
    then show ?thesis using assms(7-10) by (simp add: vnode_ok_def)
  next
    case False
    have d: "distinct (children (vnode s k))" using ok [OF k] by (simp add: vnode_ok_def)
    note v = assms(6) [OF k False]
    have c: "c \<noteq> 0 \<and> c < 128 \<and> vused (vs ! c) \<and> vparent (vs ! c) = Some k" if "c \<in> set (children (vs ! k))" for c
    proof -
      have "c \<in> set (children (vnode s k))" and i: "c \<noteq> i" using that d by (auto simp: v)
      then have p: "c \<noteq> 0" "c < 128" "vused (vnode s c)" "vparent (vnode s c) = Some k"
        using ok [OF k] unfolding vnode_ok_def by blast+
      show ?thesis using p by (simp add: assms(6) [OF p(2) i])
    qed
    have "length (children (vs ! k)) \<le> 32" using ok [OF k] by (auto simp: v vnode_ok_def length_remove1)
    then show ?thesis using ok [OF k] c unfolding vnode_ok_def by (simp add: v distinct_remove1)
  qed
  moreover have "fd_ok vs (if fused f \<and> fvnode f = i then f\<lparr>fused := False\<rparr> else f)" if "f \<in> set (fds s)" for f
  proof (cases "fused f \<and> fvnode f \<noteq> i")
    case True
    have "fd_ok (vnodes s) f" using assms(1) that by (simp add: vfs_inv_def)
    then show ?thesis using True assms(6) [of "fvnode f"] by (simp add: fd_ok_def)
  next
    case False
    then show ?thesis by (simp add: fd_ok_def)
  qed
  moreover have "vused (vs ! 0) \<and> vtype (vs ! 0) = VFS_DIRECTORY \<and> vparent (vs ! 0) = None"
    using assms(1,3,6) by (simp add: vfs_inv_def)
  ultimately show ?thesis using assms(1,5) by (simp add: vfs_inv_def del: if_image_distrib)
qed

lemma vfs_inv_move:
  assumes "vfs_inv s" and "i < 128" "i \<noteq> 0" "vused (vnode s i)" and "d < 128" "vused (vnode s d)" "vtype (vnode s d) = VFS_DIRECTORY"
    and "length (remove1 i (children (vnode s d))) < 32" and "length vs = 128" and
    nth: "\<And>k. k < 128 \<Longrightarrow> vs ! k = (let v = (vnode s k)\<lparr>children := remove1 i (children (vnode s k)) @ (if k = d then [i] else [])\<rparr>
       in if k = i then v\<lparr>vname := nm, vparent := Some d\<rparr> else v)"
  shows "vfs_inv (s\<lparr>vnodes := vs\<rparr>)"
proof -
  have ok: "vnode_ok (vnodes s) k" if "k < 128" for k using assms(1) that by (simp add: vfs_inv_def)
  have "vnode_ok vs k" if k: "k < 128" for k
  proof -
    have d: "distinct (children (vnode s k))" using ok [OF k] by (simp add: vnode_ok_def)
    have c1: "children (vs ! k) = remove1 i (children (vnode s k)) @ (if k = d then [i] else [])"
      using nth [OF k] by (simp add: Let_def)
    have c2: "c \<noteq> 0 \<and> c < 128 \<and> vused (vs ! c) \<and> vparent (vs ! c) = Some k" if "c \<in> set (children (vs ! k))" for c
    proof (cases "c = i")
      case True
      then have "k = d" using that d c1 by (auto split: if_splits)
      then show ?thesis using True assms(2,3,4) nth [of i] by (simp add: Let_def)
    next
      case False
      then have c: "c \<in> set (children (vnode s k))" using that c1 by (auto split: if_splits)
      then have p: "c \<noteq> 0" "c < 128" "vused (vnode s c)" "vparent (vnode s c) = Some k" using ok [OF k] by (auto simp: vnode_ok_def)
      then show ?thesis using False nth [of c] by (simp add: Let_def)
    qed
    have "distinct (children (vs ! k))" using d by (auto simp: c1)
    moreover have "length (children (vs ! k)) \<le> 32"
      using assms(8) ok [OF k] by (auto simp: c1 vnode_ok_def length_remove1)
    moreover have "vtype (vs ! k) = vtype (vnode s k)" "vused (vs ! k) = vused (vnode s k)" "vsize (vs ! k) = vsize (vnode s k)"
      "vcapacity (vs ! k) = vcapacity (vnode s k)" using nth [OF k] by (simp_all add: Let_def)
    ultimately show ?thesis using c2 ok [OF k] assms(6,7) by (auto simp: vnode_ok_def c1)
  qed
  moreover have "fd_ok vs f" if "f \<in> set (fds s)" for f
    using assms(1) that by (auto simp: vfs_inv_def fd_ok_def nth Let_def)
  moreover have "vused (vs ! 0) \<and> vtype (vs ! 0) = VFS_DIRECTORY \<and> vparent (vs ! 0) = None"
    using assms(1,3) by (simp add: vfs_inv_def nth Let_def)
  ultimately show ?thesis using assms(1,9) by (simp add: vfs_inv_def)
qed


section \<open>Every call keeps the invariant\<close>

lemma add_child_vnodes: "vnodes (add_child d i s) = with_child (vnodes s) d i" "fds (add_child d i s) = fds s"
  by (simp_all add: add_child_def with_child_def set_vnode_def)

lemma create_file_spec:
  assumes "vfs_inv s" and "create_file p s = Some (r, s')"
  shows "vfs_inv s' \<and> (case r of None \<Rightarrow> s' = s | Some i \<Rightarrow> \<exists>d nm. resolve_parent p s = Some (d, nm) \<and> i < 128 \<and> \<not> vused (vnode s i)
     \<and> vused (vnode s' i) \<and> vtype (vnode s' i) = VFS_FILE \<and> vname (vnode s' i) = nm)"
proof (cases "r")
  case None
  then show ?thesis using assms by (auto simp: create_file_def bind_eq_Some_conv Let_def split: option.splits prod.splits if_splits)
next
  case (Some i)
  obtain d nm where d: "resolve_parent p s = Some (d, nm)" using assms(2) Some by (cases "resolve_parent p s") (auto simp: create_file_def)
  then have t: "vtype (vnode s d) = VFS_DIRECTORY" using assms(2) Some by (auto simp: create_file_def split: if_splits)
  obtain j s1 where a: "alloc_vnode s = Some (j, s1)" using assms(2) Some d t by (cases "alloc_vnode s") (auto simp: create_file_def)
  note u = resolve_parent_used [OF assms(1) d]
  note f = alloc_vnode_free [OF assms(1) a]
  let ?s2 = "set_vnode j (\<lambda>v. v\<lparr>vname := nm, vtype := VFS_FILE, vparent := Some d\<rparr>) s1"
  obtain q s3 where k: "kmalloc VFS_MAX_DATA ?s2 = Some (q, s3)"
    and r: "i = j" "s' = add_child d i (set_vnode i (\<lambda>v. v\<lparr>vdata := q, vcapacity := (if q \<noteq> NULL then VFS_MAX_DATA else 0), vsize := 0\<rparr>) s3)"
    using assms(2) Some d t a by (auto simp: create_file_def bind_eq_Some_conv)
  note m = vfs_fields [OF kmalloc_more [OF k]]
  define v where "v = zero_vnode\<lparr>vused := True, vname := nm, vtype := VFS_FILE, vparent := Some d, vdata := q,
      vcapacity := (if q \<noteq> NULL then VFS_MAX_DATA else 0), vsize := 0\<rparr>"
  have l: "length (vnodes s) = 128" using assms(1) by (simp add: vfs_inv_def)
  have v': "vnodes s' = with_child ((vnodes s)[i := v]) d i" "fds s' = fds s"
    unfolding r(2) add_child_vnodes using m f l r(1) by (simp_all add: set_vnode_def v_def)
  have "vfs_inv (s\<lparr>vnodes := with_child ((vnodes s)[i := v]) d i\<rparr>)"
    by (rule vfs_inv_new [OF assms(1)]) (use f u t r(1) in \<open>simp_all add: v_def zero_vnode_def\<close>)
  then have "vfs_inv s'" using vfs_inv_cong [of s' "s\<lparr>vnodes := with_child ((vnodes s)[i := v]) d i\<rparr>"] v' by simp
  moreover have "d \<noteq> i" using u f r(1) by auto
  then have "vnode s' i = v" using v' l f r(1) by (simp add: with_child_def)
  ultimately show ?thesis using Some d f r(1) by (simp add: v_def)
qed

lemma vfs_inv_fds:
  assumes "vfs_inv s" and "fd_ok (vnodes s) f"
  shows "vfs_inv (s\<lparr>fds := (fds s)[i := f]\<rparr>)"
  using assms set_update_subset_insert [of "fds s" i f] by (auto simp: vfs_inv_def)

lemma open_fd_inv:
  assumes "vfs_inv s" and "\<And>i. idx = Some i \<Longrightarrow> i < 128 \<and> vused (vnode s i)"
  shows "vfs_inv (snd (open_fd idx s))"
proof (cases idx)
  case (Some i)
  show ?thesis
  proof (cases "vtype (vnode s i) = VFS_DIRECTORY \<or> alloc_fd s = None")
    case True
    then show ?thesis using assms(1) Some by (auto simp: open_fd_def)
  next
    case False
    then have t: "vtype (vnode s i) = VFS_FILE" by (cases "vtype (vnode s i)") auto
    obtain k where k: "alloc_fd s = Some (k, s\<lparr>fds := (fds s)[k := (fds s ! k)\<lparr>fused := True, foffset := 0\<rparr>]\<rparr>)" "k < 64"
      using False find_Some_upt by (auto simp: alloc_fd_def split: option.splits)
    have l: "length (fds s) = 64" using assms(1) by (simp add: vfs_inv_def)
    have "vfs_inv (s\<lparr>fds := (fds s)[k := \<lparr>fvnode = i, foffset = 0, fused = True\<rparr>]\<rparr>)"
      by (rule vfs_inv_fds [OF assms(1)]) (use assms(2) Some t in \<open>simp add: fd_ok_def\<close>)
    then show ?thesis using Some t k l by (cases "fds s ! k") (simp add: open_fd_def)
  qed
qed (use assms in \<open>simp add: open_fd_def\<close>)

lemma vfs_open_inv:
  assumes "vfs_inv s" and "vfs_open p c s = Some (r, s')"
  shows "vfs_inv s'"
proof (cases "resolve_path p s")
  case (Some i)
  then show ?thesis using assms open_fd_inv [OF assms(1), of "Some i"] resolve_path_used [OF assms(1) Some]
    by (simp add: vfs_open_def)
next
  case None
  show ?thesis
  proof (cases c)
    case False
    then show ?thesis using None assms by (simp add: vfs_open_def open_fd_def)
  next
    case True
    obtain idx s1 where k: "create_file p s = Some (idx, s1)" "open_fd idx s1 = (r, s')"
      using None True assms(2) by (auto simp: vfs_open_def bind_eq_Some_conv)
    note sp = create_file_spec [OF assms(1) k(1)]
    have "vfs_inv (snd (open_fd idx s1))" using sp by (intro open_fd_inv) auto
    then show ?thesis using k(2) by simp
  qed
qed

lemma vfs_close_inv: "vfs_inv s \<Longrightarrow> vfs_inv (snd (vfs_close fd s))"
  by (auto simp: vfs_close_def intro!: vfs_inv_fds simp: fd_ok_def)

text \<open>An open descriptor, its file, and the arithmetic of offsets.\<close>

lemma open_file:
  assumes "vfs_inv s" and "\<not> bad_fd fd s"
  defines "d \<equiv> fds s ! nat fd"
  shows "nat fd < 64" "fvnode d < 128" "vused (vnode s (fvnode d))" "vtype (vnode s (fvnode d)) = VFS_FILE" "unat (foffset d) \<le> 16384"
    "unat (vsize (vnode s (fvnode d))) \<le> unat (vcapacity (vnode s (fvnode d)))" "unat (vcapacity (vnode s (fvnode d))) \<le> 16384"
proof -
  show n: "nat fd < 64" using assms(2) by (auto simp: bad_fd_def)
  have l: "length (fds s) = 64" using assms(1) by (simp add: vfs_inv_def)
  then have "d \<in> set (fds s)" using n by (simp add: d_def)
  then have "fd_ok (vnodes s) d" using assms(1) by (simp add: vfs_inv_def)
  moreover have "fused d" using assms(2) by (simp add: bad_fd_def d_def)
  ultimately show g: "fvnode d < 128" "vused (vnode s (fvnode d))" "vtype (vnode s (fvnode d)) = VFS_FILE" "unat (foffset d) \<le> 16384"
    by (auto simp: fd_ok_def word_le_nat_alt)
  have "vnode_ok (vnodes s) (fvnode d)" using assms(1) g(1) by (simp add: vfs_inv_def)
  then show "unat (vsize (vnode s (fvnode d))) \<le> unat (vcapacity (vnode s (fvnode d)))" "unat (vcapacity (vnode s (fvnode d))) \<le> 16384"
    by (auto simp: vnode_ok_def word_le_nat_alt)
qed

lemma vfs_inv_memory [simp]: "vfs_inv (s\<lparr>memory := m\<rparr>) = vfs_inv s"
  by (simp add: vfs_inv_def)

lemma vfs_read_cases:
  assumes "vfs_inv s" and "\<not> bad_fd fd s" and "vdata (vnode s (fvnode (fds s ! nat fd))) \<noteq> NULL"
  defines "d \<equiv> fds s ! nat fd" and "vn \<equiv> vnode s (fvnode (fds s ! nat fd))"
  obtains n where "vfs_read fd buf count s = (int (unat n), s\<lparr>memory := memcpy (memory s) buf (vdata vn + foffset d) n,
      fds := (fds s)[nat fd := d\<lparr>foffset := foffset d + n\<rparr>]\<rparr>)"
    "unat n = min (unat count) (unat (vsize vn) - unat (foffset d))" "unat (foffset d + n) = unat (foffset d) + unat n"
    "unat (foffset d + n) \<le> 16384"
proof -
  note o = open_file [OF assms(1,2), folded d_def vn_def]
  define avail where "avail = (if foffset d < vsize vn then vsize vn - foffset d else 0)"
  have a: "unat avail = unat (vsize vn) - unat (foffset d)"
    by (simp add: avail_def unat_sub word_less_nat_alt word_le_nat_alt)
  define n where "n = (if avail < count then avail else count)"
  have n: "unat n = min (unat count) (unat avail)" by (simp add: n_def word_less_nat_alt min_def)
  have b: "unat (foffset d) + unat n \<le> 16384" 
  proof -
    have "unat n \<le> unat (vsize vn) - unat (foffset d)" using n a by simp
    moreover have "unat (vsize vn) \<le> 16384" "unat (foffset d) \<le> 16384" using o by (simp_all add: d_def vn_def)
    ultimately show ?thesis by arith
  qed
  then have p: "unat (foffset d + n) = unat (foffset d) + unat n" by (simp add: unat_plus_if')
  have "vfs_read fd buf count s = (int (unat n), s\<lparr>memory := memcpy (memory s) buf (vdata vn + foffset d) n,
      fds := (fds s)[nat fd := d\<lparr>foffset := foffset d + n\<rparr>]\<rparr>)"
    using assms(2,3) unfolding vfs_read_def Let_def n_def avail_def vn_def d_def by simp
  then show ?thesis using that [of n] n a p b by simp
qed

lemma vfs_read_inv: "vfs_inv s \<Longrightarrow> vfs_inv (snd (vfs_read fd buf count s))"
proof (cases "bad_fd fd s \<or> vdata (vnode s (fvnode (fds s ! nat fd))) = NULL")
  case True
  then show "vfs_inv s \<Longrightarrow> ?thesis" by (auto simp: vfs_read_def Let_def)
next
  case False
  assume inv: "vfs_inv s"
  let ?d = "fds s ! nat fd"
  obtain n where r: "vfs_read fd buf count s = (int (unat n), s\<lparr>memory := memcpy (memory s) buf (vdata (vnode s (fvnode ?d)) + foffset ?d) n,
      fds := (fds s)[nat fd := ?d\<lparr>foffset := foffset ?d + n\<rparr>]\<rparr>)" "unat (foffset ?d + n) \<le> 16384"
    using vfs_read_cases [OF inv, of fd] False by metis
  have "fd_ok (vnodes s) (?d\<lparr>foffset := foffset ?d + n\<rparr>)"
    using open_file [OF inv] False r(2) by (simp add: fd_ok_def word_le_nat_alt)
  then have "vfs_inv (s\<lparr>fds := (fds s)[nat fd := ?d\<lparr>foffset := foffset ?d + n\<rparr>]\<rparr>)"
    by (rule vfs_inv_fds [OF inv])
  then show ?thesis unfolding r(1) by (simp add: vfs_inv_def)
qed


lemma vfs_inv_size:
  assumes "vfs_inv s" and "i < 128" and "n \<le> vcapacity (vnode s i)"
  shows "vfs_inv (set_vnode i (vsize_update (\<lambda>_. n)) s)"
proof -
  have l: "length (vnodes s) = 128" using assms(1) by (simp add: vfs_inv_def)
  have nth: "(vnodes s)[i := (vnode s i)\<lparr>vsize := n\<rparr>] ! k = (if k = i then (vnode s i)\<lparr>vsize := n\<rparr> else vnode s k)" if "k < 128" for k
    using that l by (simp add: nth_list_update)
  have "vnode_ok ((vnodes s)[i := (vnode s i)\<lparr>vsize := n\<rparr>]) k" if k: "k < 128" for k
  proof -
    have "vnode_ok (vnodes s) k" using assms(1) k by (simp add: vfs_inv_def)
    then show ?thesis using assms(3) k unfolding vnode_ok_def nth [OF k] by (auto simp: nth)
  qed
  moreover have "fd_ok ((vnodes s)[i := (vnode s i)\<lparr>vsize := n\<rparr>]) f" if "f \<in> set (fds s)" for f
    using assms(1) that by (auto simp: vfs_inv_def fd_ok_def nth)
  ultimately show ?thesis using assms(1) l by (auto simp: vfs_inv_def set_vnode_def nth)
qed

lemma vfs_write_cases:
  assumes "vfs_inv s" and "\<not> bad_fd fd s" and "vdata (vnode s (fvnode (fds s ! nat fd))) \<noteq> NULL"
  defines "d \<equiv> fds s ! nat fd" and "vn \<equiv> vnode s (fvnode (fds s ! nat fd))"
  obtains n where "unat n = min (unat count) (unat (vcapacity vn) - unat (foffset d))"
    "unat (foffset d + n) = unat (foffset d) + unat n" "n \<noteq> 0 \<Longrightarrow> unat (foffset d + n) \<le> unat (vcapacity vn)"
    "vfs_write fd buf count s = (if n = 0 then (0, s) else (int (unat n),
       (let s = s\<lparr>memory := memcpy (memory s) (vdata vn + foffset d) buf n, fds := (fds s)[nat fd := d\<lparr>foffset := foffset d + n\<rparr>]\<rparr>
        in if vsize vn < foffset d + n then set_vnode (fvnode d) (vsize_update (\<lambda>_. foffset d + n)) s else s)))"
proof -
  note o = open_file [OF assms(1,2), folded d_def vn_def]
  define cap off where "cap = vcapacity vn" and "off = foffset d"
  have cap: "unat cap \<le> 16384" "unat off \<le> 16384" using o by (simp_all add: cap_def off_def vn_def d_def)
  define full where "full = (cap < count \<or> cap - count < off)"
  have full: "full \<longleftrightarrow> unat cap < unat off + unat count"
    using cap unat_sub [of count cap]
    by (cases "unat count \<le> unat cap") (auto simp: full_def word_less_nat_alt word_le_nat_alt)
  define n where "n = (if full then (if cap \<le> off then 0 else cap - off) else count)"
  have n: "unat n = min (unat count) (unat cap - unat off)"
    using full by (auto simp: n_def unat_sub word_le_nat_alt not_le)
  have "unat n \<le> unat cap" using n by simp
  then have "unat off + unat n < 2 ^ 64" using cap by simp
  then have b: "unat (off + n) = unat off + unat n" by (simp add: unat_plus_if')
  have "vfs_write fd buf count s = (if n = 0 then (0, s) else (int (unat n),
       (let s = s\<lparr>memory := memcpy (memory s) (vdata vn + foffset d) buf n, fds := (fds s)[nat fd := d\<lparr>foffset := foffset d + n\<rparr>]\<rparr>
        in if vsize vn < foffset d + n then set_vnode (fvnode d) (vsize_update (\<lambda>_. foffset d + n)) s else s)))"
  proof -
    have w: "vfs_write fd buf count s = (if full \<and> cap \<le> off then (0, s)
        else let count = (if full then cap - off else count) in if count = 0 then (0, s) else (int (unat count),
         (let s = s\<lparr>memory := memcpy (memory s) (vdata vn + off) buf count, fds := (fds s)[nat fd := d\<lparr>foffset := off + count\<rparr>]\<rparr>
          in if vsize vn < off + count then set_vnode (fvnode d) (vsize_update (\<lambda>_. off + count)) s else s)))"
      unfolding vfs_write_def Let_def full_def cap_def off_def vn_def d_def by (simp only: assms(2,3) if_False)
    show ?thesis unfolding w off_def [symmetric]
      by (cases full; cases "cap \<le> off") (simp_all add: n_def Let_def)
  qed
  moreover have "n \<noteq> 0 \<Longrightarrow> unat (off + n) \<le> unat cap" using n b by (auto simp: unat_gt_0 [symmetric] min_def split: if_splits)
  ultimately show ?thesis using that [of n] n b by (simp add: cap_def off_def)
qed

lemma vfs_write_inv: "vfs_inv s \<Longrightarrow> vfs_inv (snd (vfs_write fd buf count s))"
proof (cases "bad_fd fd s \<or> vdata (vnode s (fvnode (fds s ! nat fd))) = NULL")
  case True
  then show "vfs_inv s \<Longrightarrow> ?thesis" by (auto simp: vfs_write_def Let_def)
next
  case False
  assume inv: "vfs_inv s"
  let ?d = "fds s ! nat fd" and ?vn = "vnode s (fvnode (fds s ! nat fd))"
  note o = open_file [OF inv, of fd]
  obtain n where r: "n \<noteq> 0 \<Longrightarrow> unat (foffset ?d + n) \<le> unat (vcapacity ?vn)"
    "vfs_write fd buf count s = (if n = 0 then (0, s) else (int (unat n),
       (let s = s\<lparr>memory := memcpy (memory s) (vdata ?vn + foffset ?d) buf n, fds := (fds s)[nat fd := ?d\<lparr>foffset := foffset ?d + n\<rparr>]\<rparr>
        in if vsize ?vn < foffset ?d + n then set_vnode (fvnode ?d) (vsize_update (\<lambda>_. foffset ?d + n)) s else s)))"
    by (rule vfs_write_cases [OF inv, of fd count buf]) (use False in \<open>blast+\<close>)
  show ?thesis
  proof (cases "n = 0")
    case True
    then show ?thesis using r(2) inv by simp
  next
    case n: False
    have "fd_ok (vnodes s) (?d\<lparr>foffset := foffset ?d + n\<rparr>)"
      using o False r(1) n by (simp add: fd_ok_def word_le_nat_alt)
    then have "vfs_inv (s\<lparr>fds := (fds s)[nat fd := ?d\<lparr>foffset := foffset ?d + n\<rparr>]\<rparr>)"
      by (rule vfs_inv_fds [OF inv])
    then have i1: "vfs_inv (s\<lparr>memory := memcpy (memory s) (vdata ?vn + foffset ?d) buf n, fds := (fds s)[nat fd := ?d\<lparr>foffset := foffset ?d + n\<rparr>]\<rparr>)"
      by (simp add: vfs_inv_def)
    show ?thesis using i1 vfs_inv_size [OF i1, of "fvnode ?d" "foffset ?d + n"] o False r n
      by (simp add: Let_def word_le_nat_alt)
  qed
qed

lemma vfs_mkdir_inv:
  assumes "vfs_inv s"
  shows "vfs_inv (snd (vfs_mkdir p s))"
proof (cases "resolve_path p s = None \<and> resolve_parent p s \<noteq> None \<and> alloc_vnode s \<noteq> None")
  case True
  then obtain d nm i s1 where d: "resolve_parent p s = Some (d, nm)" and a: "alloc_vnode s = Some (i, s1)" by auto
  note u = resolve_parent_used [OF assms d]
  note f = alloc_vnode_free [OF assms a]
  define v where "v = zero_vnode\<lparr>vused := True, vname := nm, vtype := VFS_DIRECTORY, vparent := Some d\<rparr>"
  have l: "length (vnodes s) = 128" using assms by (simp add: vfs_inv_def)
  show ?thesis
  proof (cases "vtype (vnode s d) = VFS_DIRECTORY")
    case t: True
    let ?r = "add_child d i (set_vnode i (\<lambda>v. v\<lparr>vname := nm, vtype := VFS_DIRECTORY, vparent := Some d\<rparr>) s1)"
    have v': "vnodes ?r = with_child ((vnodes s)[i := v]) d i" "fds ?r = fds s"
      unfolding add_child_vnodes using f l by (simp_all add: set_vnode_def v_def)
    have "vfs_inv (s\<lparr>vnodes := with_child ((vnodes s)[i := v]) d i\<rparr>)"
      by (rule vfs_inv_new [OF assms(1)]) (use f u t in \<open>simp_all add: v_def zero_vnode_def\<close>)
    then have "vfs_inv ?r" using vfs_inv_cong [of ?r "s\<lparr>vnodes := with_child ((vnodes s)[i := v]) d i\<rparr>"] v' by simp
    then show ?thesis using True d a t by (simp add: vfs_mkdir_def)
  qed (use True d a assms in \<open>simp add: vfs_mkdir_def\<close>)
qed (use assms in \<open>auto simp: vfs_mkdir_def split: option.splits prod.splits\<close>)

lemma drop_child_vnodes: "vnodes (drop_child i s) = without_child (vnodes s) i" "fds (drop_child i s) = fds s"
  by (simp_all add: drop_child_def without_child_def set_vnode_def split: option.split)

lemma length_without_child [simp]: "length (without_child vs i) = length vs"
  by (simp add: without_child_def split: option.split)

lemma vfs_rename_inv:
  assumes "vfs_inv s"
  shows "vfs_inv (snd (vfs_rename p q s))"
proof (cases "fst (vfs_rename p q s) = 0")
  case False
  then show ?thesis using assms by (auto simp: vfs_rename_def Let_def split: option.splits prod.splits if_splits)
next
  case True
  then obtain i d nm where i: "resolve_path p s = Some i" "i \<noteq> 0" and d: "resolve_parent q s = Some (d, nm)"
    and t: "vtype (vnode s d) = VFS_DIRECTORY" "\<not> (Some d \<noteq> vparent (vnode s i) \<and> 32 \<le> length (children (vnode s d)))"
    and r: "snd (vfs_rename p q s) = set_vnode i (\<lambda>v. v\<lparr>vname := nm, vparent := Some d\<rparr>)
      (set_vnode d (\<lambda>v. v\<lparr>children := children v @ [i]\<rparr>) (drop_child i s))"
    by (auto simp: vfs_rename_def Let_def split: option.splits prod.splits if_splits)
  note u = resolve_parent_used [OF assms d] resolve_path_used [OF assms i(1)]
  let ?vs = "vnodes (snd (vfs_rename p q s))"
  have l: "length (vnodes s) = 128" using assms by (simp add: vfs_inv_def)
  have nth: "?vs ! k = (let v = (vnode s k)\<lparr>children := remove1 i (children (vnode s k)) @ (if k = d then [i] else [])\<rparr>
       in if k = i then v\<lparr>vname := nm, vparent := Some d\<rparr> else v)" if "k < 128" for k
    unfolding r set_vnode_def using that u l without_child_nth [OF assms, of i]
    by (simp add: drop_child_vnodes nth_list_update Let_def)
  have "length (remove1 i (children (vnode s d))) < 32"
  proof -
    obtain e where e: "e < 128" "i \<in> set (children (vnode s e))" using u(2) i(2) by blast
    have "vnode_ok (vnodes s) e" "vnode_ok (vnodes s) d" using assms e(1) u(1) by (simp_all add: vfs_inv_def)
    then have "vparent (vnode s i) = Some e" "length (children (vnode s d)) \<le> 32" using e(2) unfolding vnode_ok_def by blast+
    then show ?thesis using t(2) e(2) by (cases "d = e") (auto simp: length_remove1 dest: length_pos_if_in_set)
  qed
  then have "vfs_inv (s\<lparr>vnodes := ?vs\<rparr>)"
    by (intro vfs_inv_move [OF assms _ i(2) _ _ _ t(1) _ _ nth]) (use u l r in \<open>simp_all add: set_vnode_def drop_child_vnodes\<close>)
  moreover have "fds (snd (vfs_rename p q s)) = fds s" by (simp add: r set_vnode_def drop_child_vnodes)
  ultimately show ?thesis using vfs_inv_cong [of "snd (vfs_rename p q s)" "s\<lparr>vnodes := ?vs\<rparr>"] by simp
qed


lemma kfree_vfs: "kfree p s = Some s' \<Longrightarrow> vnodes s' = vnodes s \<and> fds s' = fds s"
  using vfs_fields [OF kfree_more] by auto

lemma vfs_unlink_inv:
  assumes "vfs_inv s" and "vfs_unlink p s = Some (r, s')"
  shows "vfs_inv s'"
proof (cases "r = 0")
  case False
  then show ?thesis using assms
    by (auto simp: vfs_unlink_def bind_eq_Some_conv Let_def split: option.splits if_splits)
next
  case True
  then obtain i where i: "resolve_path p s = Some i" "i \<noteq> 0" "\<not> (vtype (vnode s i) = VFS_DIRECTORY \<and> children (vnode s i) \<noteq> [])"
    using assms(2) by (auto simp: vfs_unlink_def split: option.splits if_splits)
  note u = resolve_path_used [OF assms(1) i(1)]
  have ok: "vnode_ok (vnodes s) i" using assms(1) u by (simp add: vfs_inv_def)
  have ch: "children (vnode s i) = []" using i(3) ok unfolding vnode_ok_def by (cases "vtype (vnode s i)") auto
  let ?s1 = "drop_child i s"
  obtain s2 where s2: "(if vdata (vnode ?s1 i) \<noteq> NULL then do { s \<leftarrow> kfree (vdata (vnode ?s1 i)) ?s1; Some (set_vnode i (vdata_update (\<lambda>_. NULL)) s) }
      else Some ?s1) = Some s2" and s': "s' = set_vnode i (vused_update (\<lambda>_. False)) (close_all i s2)"
    using assms(2) i True by (auto simp: vfs_unlink_def bind_eq_Some_conv Let_def split: if_splits)
  have l: "length (vnodes s) = 128" using assms by (simp add: vfs_inv_def)
  have f2: "fds s2 = fds s" "\<exists>q. vnodes s2 = (without_child (vnodes s) i)[i := (without_child (vnodes s) i ! i)\<lparr>vdata := q\<rparr>]"
  proof -
    have e: "vs = vs[i := (vs ! i)\<lparr>vdata := vdata (vs ! i)\<rparr>]" for vs :: "VNode list"
      by simp
    show "fds s2 = fds s" using s2 by (auto simp: bind_eq_Some_conv drop_child_vnodes set_vnode_def split: if_splits dest!: kfree_vfs)
    show "\<exists>q. vnodes s2 = (without_child (vnodes s) i)[i := (without_child (vnodes s) i ! i)\<lparr>vdata := q\<rparr>]"
    proof (cases "vdata (vnode ?s1 i) = NULL")
      case True
      then have "s2 = ?s1" using s2 by simp
      then show ?thesis
        by (intro exI [of _ "vdata (without_child (vnodes s) i ! i)"]) (simp only: drop_child_vnodes e [symmetric])
    next
      case False
      then show ?thesis using s2
        by (intro exI [of _ NULL]) (auto simp: bind_eq_Some_conv drop_child_vnodes set_vnode_def dest!: kfree_vfs)
    qed
  qed
  then obtain q where q: "vnodes s2 = (without_child (vnodes s) i)[i := (without_child (vnodes s) i ! i)\<lparr>vdata := q\<rparr>]" by blast
  define vs where "vs = (without_child (vnodes s) i)[i := (without_child (vnodes s) i ! i)\<lparr>vdata := q, vused := False\<rparr>]"
  have v': "vnodes s' = vs" "fds s' = map (\<lambda>d. if fused d \<and> fvnode d = i then d\<lparr>fused := False\<rparr> else d) (fds s)"
    using u l by (simp_all add: s' set_vnode_def close_all_def q vs_def f2(1))
  note w = without_child_nth [OF assms(1), of i]
  have "vfs_inv (s\<lparr>vnodes := vs, fds := map (\<lambda>d. if fused d \<and> fvnode d = i then d\<lparr>fused := False\<rparr> else d) (fds s)\<rparr>)"
    by (rule vfs_inv_remove [OF assms(1) _ i(2) ch]) (use u l ok ch w in \<open>simp_all add: vs_def nth_list_update vnode_ok_def\<close>)
  then show ?thesis using vfs_inv_cong [of s' "s\<lparr>vnodes := vs, fds := map (\<lambda>d. if fused d \<and> fvnode d = i then d\<lparr>fused := False\<rparr> else d) (fds s)\<rparr>"] v'
    by simp
qed

text \<open>The calls that change the tables, in any order.\<close>

inductive vfs_step :: "'a vfs_scheme \<Rightarrow> 'a vfs_scheme \<Rightarrow> bool" where
  Open: "vfs_open p c s = Some (r, s') \<Longrightarrow> vfs_step s s'"
| Close: "vfs_step s (snd (vfs_close fd s))"
| Read: "vfs_step s (snd (vfs_read fd buf count s))"
| Write: "vfs_step s (snd (vfs_write fd buf count s))"
| Mkdir: "vfs_step s (snd (vfs_mkdir p s))"
| Unlink: "vfs_unlink p s = Some (r, s') \<Longrightarrow> vfs_step s s'"
| Rename: "vfs_step s (snd (vfs_rename p q s))"

lemma vfs_step_inv: "vfs_step s s' \<Longrightarrow> vfs_inv s \<Longrightarrow> vfs_inv s'"
  by (induction rule: vfs_step.induct)
    (auto intro: vfs_open_inv vfs_close_inv vfs_read_inv vfs_write_inv vfs_mkdir_inv vfs_unlink_inv vfs_rename_inv)

lemma vfs_steps_inv: "vfs_step\<^sup>*\<^sup>* s s' \<Longrightarrow> vfs_inv s \<Longrightarrow> vfs_inv s'"
  by (induction rule: rtranclp_induct) (auto intro: vfs_step_inv)

section \<open>Creating and looking up\<close>

lemma find_snoc: "List.find P (xs @ [x]) = (case List.find P xs of None \<Rightarrow> if P x then Some x else None | Some y \<Rightarrow> Some y)"
  by (induction xs) auto

lemma find_cong_on: "(\<And>x. x \<in> set xs \<Longrightarrow> P x = Q x) \<Longrightarrow> List.find P xs = List.find Q xs"
  by (induction xs) auto

lemma next_component_single: "CHR ''/'' \<notin> set nm \<Longrightarrow> length nm \<le> 63 \<Longrightarrow> next_component nm = (nm, [])"
proof -
  assume a: "CHR ''/'' \<notin> set nm" "length nm \<le> 63"
  then have "takeWhile (\<lambda>x. x \<noteq> CHR ''/'') nm = nm" by (auto simp: takeWhile_eq_all_conv)
  then show ?thesis using a(2) unfolding next_component_def by (simp only: Let_def) simp
qed

lemma resolve_root_child:
  assumes "CHR ''/'' \<notin> set nm" "nm \<noteq> []" "length nm \<le> 63" and "vtype (vnode s 0) = VFS_DIRECTORY"
  shows "resolve_path (Some (CHR ''/'' # nm)) s = find_child (vnodes s) 0 nm"
  using assms by (simp add: resolve_path_def walk.simps [of _ _ nm] next_component_single walk.simps [of _ _ "[]"] split: option.split)

lemma resolve_parent_root:
  assumes "CHR ''/'' \<notin> set nm" "nm \<noteq> []" "length nm \<le> 63"
  shows "resolve_parent (Some (CHR ''/'' # nm)) s = Some (0, nm)"
proof -
  have "takeWhile (\<lambda>x. x \<noteq> CHR ''/'') (rev nm @ [CHR ''/'']) = rev nm"
    using assms(1) by (subst takeWhile_append2) auto
  then have "last_slash (CHR ''/'' # nm) = 0" by (simp add: last_slash_def)
  then show ?thesis using assms by (simp add: resolve_parent_def Let_def)
qed

lemma mkdir_root_spec:
  assumes "vfs_inv s" and "CHR ''/'' \<notin> set nm" "nm \<noteq> []" "length nm \<le> 63"
    and "vfs_mkdir (Some (CHR ''/'' # nm)) s = (0, s')"
  obtains i where "\<not> vused (vnode s i)" "vused (vnode s' i)" "vtype (vnode s' i) = VFS_DIRECTORY" "vname (vnode s' i) = nm" "children (vnode s' i) = []"
    "resolve_path (Some (CHR ''/'' # nm)) s' = (if length (children (vnode s 0)) < 32 then Some i else None)"
proof -
  have t: "vtype (vnode s 0) = VFS_DIRECTORY" "length (vnodes s) = 128" "vnode_ok (vnodes s) 0" using assms(1) by (simp_all add: vfs_inv_def)
  have n: "find_child (vnodes s) 0 nm = None"
    using assms(5) resolve_root_child [OF assms(2-4) t(1)] by (auto simp: vfs_mkdir_def split: if_splits)
  obtain i s1 where a: "alloc_vnode s = Some (i, s1)"
    using assms(5) n t resolve_root_child [OF assms(2-4) t(1)] resolve_parent_root [OF assms(2-4), of s]
    by (cases "alloc_vnode s") (auto simp: vfs_mkdir_def)
  note f = alloc_vnode_free [OF assms(1) a]
  define v where "v = zero_vnode\<lparr>vused := True, vname := nm, vtype := VFS_DIRECTORY, vparent := Some 0\<rparr>"
  have s': "s' = add_child 0 i (set_vnode i (\<lambda>v. v\<lparr>vname := nm, vtype := VFS_DIRECTORY, vparent := Some 0\<rparr>) s1)"
    using assms(5) n t a resolve_root_child [OF assms(2-4) t(1)] resolve_parent_root [OF assms(2-4), of s]
    by (simp add: vfs_mkdir_def)
  have vs: "vnodes s' = with_child ((vnodes s)[i := v]) 0 i"
    unfolding s' add_child_vnodes using f t(2) by (simp add: set_vnode_def v_def)
  have vi: "vnode s' i = v" using vs f t(2) by (simp add: with_child_def)
  have vn: "vname (vnode s' c) = vname (vnode s c)" if "c \<in> set (children (vnode s 0))" for c
  proof -
    have "c \<noteq> 0" "c < 128" "vused (vnode s c)" using that t(3) unfolding vnode_ok_def by blast+
    then show ?thesis using f t(2) by (auto simp: vs with_child_def nth_list_update)
  qed
  have c0: "children (vnode s' 0) = (if length (children (vnode s 0)) < 32 then children (vnode s 0) @ [i] else children (vnode s 0))"
    and t0: "vtype (vnode s' 0) = VFS_DIRECTORY"
    using f t by (auto simp: vs with_child_def nth_list_update)
  have "List.find (\<lambda>k. vname (vnode s' k) = nm) (children (vnode s 0)) = List.find (\<lambda>k. vname (vnode s k) = nm) (children (vnode s 0))"
    by (rule find_cong_on) (simp add: vn)
  then have "find_child (vnodes s') 0 nm = (if length (children (vnode s 0)) < 32 then Some i else None)"
    using n vi by (simp add: find_child_def c0 find_snoc v_def)
  then show ?thesis using that [of i] f vi resolve_root_child [OF assms(2-4) t0] by (simp add: v_def zero_vnode_def)
qed

section \<open>Writing and reading back\<close>

lemma memcpy_apply:
  assumes "\<not> (0 < unat (d - s) \<and> unat (d - s) < unat n)"
  shows "memcpy m d s n x = (if within d (unat n) x then m (s + (x - d)) else m x)"
  unfolding memcpy_def by (rule memcpy_loop_apply [OF assms]) (use unat_lt_u64 [of n] in simp)

text \<open>What a write leaves in the file, read through another descriptor at the same position.\<close>

lemma vfs_write_read:
  assumes "vfs_inv s" and "\<not> bad_fd fd s" "\<not> bad_fd fd' s" and "fd \<noteq> fd'" "fvnode (fds s ! nat fd') = fvnode (fds s ! nat fd)"
    "foffset (fds s ! nat fd') = foffset (fds s ! nat fd)" and "vdata (vnode s (fvnode (fds s ! nat fd))) \<noteq> NULL"
    and wr: "vfs_write fd buf count s = (int n, s1)" "0 < n"
    and sep: "let p = vdata (vnode s (fvnode (fds s ! nat fd))) + foffset (fds s ! nat fd) in
      \<not> (0 < unat (p - buf) \<and> unat (p - buf) < n) \<and> \<not> (0 < unat (buf' - p) \<and> unat (buf' - p) < n)"
  shows "\<exists>s2. vfs_read fd' buf' (of_nat n) s1 = (int n, s2) \<and> (\<forall>k < n. memory s2 (buf' + of_nat k) = memory s (buf + of_nat k))"
proof -
  let ?d = "fds s ! nat fd" and ?vn = "vnode s (fvnode (fds s ! nat fd))"
  define p where "p = vdata ?vn + foffset ?d"
  obtain w where w: "unat w = min (unat count) (unat (vcapacity ?vn) - unat (foffset ?d))" "unat (foffset ?d + w) = unat (foffset ?d) + unat w"
    "vfs_write fd buf count s = (if w = 0 then (0, s) else (int (unat w),
       (let s = s\<lparr>memory := memcpy (memory s) (vdata ?vn + foffset ?d) buf w, fds := (fds s)[nat fd := ?d\<lparr>foffset := foffset ?d + w\<rparr>]\<rparr>
        in if vsize ?vn < foffset ?d + w then set_vnode (fvnode ?d) (vsize_update (\<lambda>_. foffset ?d + w)) s else s)))"
    by (rule vfs_write_cases [OF assms(1,2,7), of count buf]) blast
  have "w \<noteq> 0" "int n = uint w" using w(3) wr by (auto split: if_splits)
  then have n: "w \<noteq> 0" "n = unat w" by (metis nat_int unat_eq_nat_uint)+
  have s1: "memory s1 = memcpy (memory s) p buf w" "fds s1 = (fds s)[nat fd := ?d\<lparr>foffset := foffset ?d + w\<rparr>]"
    "vnodes s1 = (if vsize ?vn < foffset ?d + w then (vnodes s)[fvnode ?d := ?vn\<lparr>vsize := foffset ?d + w\<rparr>] else vnodes s)"
    using w(3) wr n by (auto simp: Let_def set_vnode_def p_def)
  have inv1: "vfs_inv s1" using vfs_write_inv [OF assms(1), of fd buf count] wr(1) by simp
  note o = open_file [OF assms(1,2)]
  have l: "length (vnodes s) = 128" using assms(1) by (simp add: vfs_inv_def)
  have ne: "nat fd \<noteq> nat fd'" using assms(2-4) by (auto simp: bad_fd_def)
  have d': "fds s1 ! nat fd' = fds s ! nat fd'" using ne by (simp add: s1)
  have nb: "\<not> bad_fd fd' s1" using assms(3) d' by (simp add: bad_fd_def)
  have vn1: "vnode s1 (fvnode ?d) = ?vn\<lparr>vsize := vsize (vnode s1 (fvnode ?d))\<rparr>" "unat (foffset ?d) + n \<le> unat (vsize (vnode s1 (fvnode ?d)))"
    using l o w(2) n by (auto simp: s1 word_less_nat_alt not_less)
  have dat: "vdata (vnode s1 (fvnode ?d)) = vdata ?vn" by (subst vn1(1)) simp
  have nn: "vdata (vnode s1 (fvnode (fds s1 ! nat fd'))) \<noteq> NULL" using dat d' assms(5,7) by simp
  obtain r where r: "vfs_read fd' buf' (of_nat n) s1 = (int (unat r), s1\<lparr>memory := memcpy (memory s1) buf' (vdata (vnode s1 (fvnode (fds s1 ! nat fd'))) + foffset (fds s1 ! nat fd')) r,
      fds := (fds s1)[nat fd' := (fds s1 ! nat fd')\<lparr>foffset := foffset (fds s1 ! nat fd') + r\<rparr>]\<rparr>)"
    "unat r = min (unat (of_nat n :: u64)) (unat (vsize (vnode s1 (fvnode (fds s1 ! nat fd')))) - unat (foffset (fds s1 ! nat fd')))"
    by (rule vfs_read_cases [OF inv1 nb nn, of buf' "of_nat n"]) blast
  have rn: "r = w" using r(2) vn1(2) n d' assms(5,6) by (simp add: word_unat_eq_iff)
  have m2: "memcpy (memory s1) buf' p w (buf' + of_nat k) = memory s (buf + of_nat k)" if k: "k < n" for k
  proof -
    have kb: "k < 2 ^ 64" using k n unat_lt_u64 [of w] by simp
    have "memcpy (memory s1) buf' p w (buf' + of_nat k) = memory s1 (p + of_nat k)"
      using sep k n kb by (simp add: memcpy_apply Let_def p_def within_offset)
    also have "\<dots> = memory s (buf + of_nat k)"
      using sep k n kb by (simp add: s1 memcpy_apply Let_def p_def within_offset)
    finally show ?thesis .
  qed
  show ?thesis using r(1) rn n m2 d' dat assms(5,6) by (simp add: p_def)
qed


section \<open>Properties\<close>

text \<open>C11: from \<open>vfs_init\<close> on, in any order of calls, the tables stay consistent: a listed child is in use and
  names the directory it is listed in as its parent, no directory lists a node twice or more than 32 nodes, files have no
  children and no more bytes than their buffer, and every open descriptor refers to a file in use.\<close>

theorem vfs_reachable_inv:
  assumes "vfs_step\<^sup>*\<^sup>* (vfs_init s) s'"
  shows "vfs_inv s'"
  by (rule vfs_steps_inv [OF assms vfs_init_inv])

definition sample_vfs :: vfs where
  "sample_vfs = vfs_init (sched.extend (sample_sched [] 1 0) \<lparr>vnodes = [], fds = []\<rparr>)"

theorem vfs_reachable_inv_witness:
  "vfs_step\<^sup>*\<^sup>* (vfs_init sample_vfs) (snd (vfs_mkdir (Some ''/a'') (vfs_init sample_vfs)))
   \<and> vfs_inv (snd (vfs_mkdir (Some ''/a'') (vfs_init sample_vfs)))"
proof -
  have "vfs_step\<^sup>*\<^sup>* (vfs_init sample_vfs) (snd (vfs_mkdir (Some ''/a'') (vfs_init sample_vfs)))"
    by (rule r_into_rtranclp) (rule vfs_step.Mkdir)
  then show ?thesis using vfs_reachable_inv by blast
qed

text \<open>C12: what \<open>vfs_write\<close> puts into a file, \<open>vfs_read\<close> gets back: a second descriptor at the position
  where the write began reads the same number of bytes, and they are the bytes written.\<close>

theorem vfs_write_read_roundtrip:
  assumes "vfs_inv s" and "\<not> bad_fd fd s" "\<not> bad_fd fd' s" and "fd \<noteq> fd'" "fvnode (fds s ! nat fd') = fvnode (fds s ! nat fd)"
    "foffset (fds s ! nat fd') = foffset (fds s ! nat fd)" and "vdata (vnode s (fvnode (fds s ! nat fd))) \<noteq> NULL"
    and "vfs_write fd buf count s = (int n, s1)" "0 < n"
    and "let p = vdata (vnode s (fvnode (fds s ! nat fd))) + foffset (fds s ! nat fd) in
      \<not> (0 < unat (p - buf) \<and> unat (p - buf) < n) \<and> \<not> (0 < unat (buf' - p) \<and> unat (buf' - p) < n)"
  shows "\<exists>s2. vfs_read fd' buf' (of_nat n) s1 = (int n, s2) \<and> (\<forall>k < n. memory s2 (buf' + of_nat k) = memory s (buf + of_nat k))"
  by (rule vfs_write_read [OF assms])

definition rw_sample :: vfs where
  "rw_sample = sample_vfs\<lparr>vnodes := (vnodes sample_vfs)[1 := zero_vnode\<lparr>vused := True, vdata := 0x20000, vcapacity := 0x4000\<rparr>],
     fds := (fds sample_vfs)[0 := \<lparr>fvnode = 1, foffset = 0, fused = True\<rparr>, 1 := \<lparr>fvnode = 1, foffset = 0, fused = True\<rparr>]\<rparr>"

lemma rw_sample_facts:
  "vfs_inv rw_sample" "fds rw_sample ! 0 = \<lparr>fvnode = 1, foffset = 0, fused = True\<rparr>" "fds rw_sample ! 1 = \<lparr>fvnode = 1, foffset = 0, fused = True\<rparr>"
  "vnode rw_sample 1 = zero_vnode\<lparr>vused := True, vdata := 0x20000, vcapacity := 0x4000\<rparr>"
proof -
  show "fds rw_sample ! 0 = \<lparr>fvnode = 1, foffset = 0, fused = True\<rparr>" "fds rw_sample ! 1 = \<lparr>fvnode = 1, foffset = 0, fused = True\<rparr>"
    "vnode rw_sample 1 = zero_vnode\<lparr>vused := True, vdata := 0x20000, vcapacity := 0x4000\<rparr>"
    by (simp_all add: rw_sample_def sample_vfs_def vfs_init_def)
  have v: "vnodes rw_sample = (replicate VFS_MAX_FILES zero_vnode)
       [0 := zero_vnode\<lparr>vused := True, vtype := VFS_DIRECTORY, vparent := None, vname := ''/''\<rparr>,
        1 := zero_vnode\<lparr>vused := True, vdata := 0x20000, vcapacity := 0x4000\<rparr>]"
    "fds rw_sample = (replicate VFS_MAX_FD zero_fd)[0 := \<lparr>fvnode = 1, foffset = 0, fused = True\<rparr>, 1 := \<lparr>fvnode = 1, foffset = 0, fused = True\<rparr>]"
    by (simp_all add: rw_sample_def sample_vfs_def vfs_init_def)
  have sub: "set (fds rw_sample) \<subseteq> {zero_fd, \<lparr>fvnode = 1, foffset = 0, fused = True\<rparr>}"
    unfolding v(2) by (auto dest!: set_update_subset_insert [THEN subsetD])
  have vf: "vused (vnode rw_sample 1)" "vtype (vnode rw_sample 1) = VFS_FILE" by (simp_all add: v zero_vnode_def)
  have "fd_ok (vnodes rw_sample) f" if "f \<in> set (fds rw_sample)" for f
    using that sub vf by (auto simp: fd_ok_def zero_fd_def)
  moreover have "vnode_ok (vnodes rw_sample) k" if "k < 128" for k
    using that by (auto simp: v vnode_ok_def zero_vnode_def nth_list_update)
  ultimately show "vfs_inv rw_sample" by (simp add: vfs_inv_def v zero_vnode_def)
qed

theorem vfs_write_read_roundtrip_witness:
  "\<exists>s1 s2. vfs_write 0 0x30000 2 rw_sample = (2, s1) \<and> vfs_read 1 0x40000 2 s1 = (2, s2)
     \<and> memory s2 0x40001 = memory rw_sample 0x30001"
proof -
  note f = rw_sample_facts
  have b: "\<not> bad_fd 0 rw_sample" "\<not> bad_fd 1 rw_sample" using f by (simp_all add: bad_fd_def)
  obtain s1 where w: "vfs_write 0 0x30000 2 rw_sample = (int 2, s1)"
    using f b by (simp add: vfs_write_def Let_def zero_vnode_def)
  obtain s2 where "vfs_read 1 0x40000 2 s1 = (2, s2)" "\<forall>k < 2. memory s2 (0x40000 + of_nat k) = memory rw_sample (0x30000 + of_nat k)"
    using vfs_write_read_roundtrip [OF f(1) b _ _ _ _ w, of "0x40000"] f by (auto simp: Let_def zero_vnode_def)
  moreover from this(2) have "memory s2 0x40001 = memory rw_sample 0x30001" by (auto dest: spec [of _ 1])
  ultimately show ?thesis using w by auto
qed

text \<open>a directory made in the root is found under its name, empty, provided the root listed fewer than 32 nodes. With 32
  listed nodes \<open>vfs_mkdir\<close> still reports success, but no path leads to the new node, which stays in use for ever.\<close>

theorem mkdir_then_resolve:
  assumes "vfs_inv s" and "CHR ''/'' \<notin> set nm" "nm \<noteq> []" "length nm \<le> 63" and "vfs_mkdir (Some (CHR ''/'' # nm)) s = (0, s')"
  shows "\<exists>i. \<not> vused (vnode s i) \<and> vused (vnode s' i) \<and> vtype (vnode s' i) = VFS_DIRECTORY \<and> vname (vnode s' i) = nm
    \<and> children (vnode s' i) = [] \<and> resolve_path (Some (CHR ''/'' # nm)) s' = (if length (children (vnode s 0)) < 32 then Some i else None)"
  by (rule mkdir_root_spec [OF assms]) blast

theorem mkdir_then_resolve_witness:
  "\<exists>s' i. vfs_mkdir (Some ''/a'') sample_vfs = (0, s') \<and> resolve_path (Some ''/a'') s' = Some i"
proof -
  have inv: "vfs_inv sample_vfs" unfolding sample_vfs_def by (rule vfs_init_inv)
  have c: "children (vnode sample_vfs 0) = []" "vtype (vnode sample_vfs 0) = VFS_DIRECTORY" "vused (vnode sample_vfs 0)" "\<not> vused (vnode sample_vfs 1)"
    by (simp_all add: sample_vfs_def vfs_init_def zero_vnode_def)
  have r: "resolve_path (Some ''/a'') sample_vfs = None" "resolve_parent (Some ''/a'') sample_vfs = Some (0, ''a'')"
    using resolve_root_child [of "''a''" sample_vfs] resolve_parent_root [of "''a''" sample_vfs] c by (simp_all add: find_child_def)
  have "List.find (\<lambda>i. \<not> vused (vnode sample_vfs i)) [0..<128] \<noteq> None"
    using c(4) by (auto simp: find_None_iff intro!: exI [of _ 1])
  then obtain s' where m: "vfs_mkdir (Some ''/a'') sample_vfs = (0, s')"
    using r c by (auto simp: vfs_mkdir_def alloc_vnode_def)
  show ?thesis using mkdir_then_resolve [OF inv _ _ _ m] m c by auto
qed

end
