(* ===== verification/Keyboard.thy ===== *)
theory Keyboard
  imports Prelude
begin

text \<open>
  The PS/2 keyboard driver of \<open>kernel/drivers/keyboard.c\<close>.  A byte read from port 0x60 is the
  argument of \<open>keyboard_handler\<close>; the drain loop of \<open>keyboard_init\<close> consumes the list of
  bytes the controller still holds.  \<open>keyboard_getchar\<close> halts until a key is there:
  the model returns \<open>None\<close> while the buffer is empty.

  The lemmas: the ring buffer implements a queue of at most 255 keys, the handler adds at most one
  key for each scan code, and its translation follows the layout tables and the modifiers.
\<close>

unbundle bit_operations_syntax

abbreviation (input) KBD_BUFFER_SIZE :: u32 where "KBD_BUFFER_SIZE \<equiv> 256"
abbreviation (input) KEY_UP :: u16 where "KEY_UP \<equiv> 0x80"
abbreviation (input) KEY_DOWN :: u16 where "KEY_DOWN \<equiv> 0x81"
abbreviation (input) KEY_LEFT :: u16 where "KEY_LEFT \<equiv> 0x82"
abbreviation (input) KEY_RIGHT :: u16 where "KEY_RIGHT \<equiv> 0x83"
abbreviation (input) KEY_HOME :: u16 where "KEY_HOME \<equiv> 0x84"
abbreviation (input) KEY_END :: u16 where "KEY_END \<equiv> 0x85"
abbreviation (input) KEY_INSERT :: u16 where "KEY_INSERT \<equiv> 0x86"
abbreviation (input) KEY_DELETE :: u16 where "KEY_DELETE \<equiv> 0x87"
abbreviation (input) KEY_PGUP :: u16 where "KEY_PGUP \<equiv> 0x88"
abbreviation (input) KEY_PGDN :: u16 where "KEY_PGDN \<equiv> 0x89"
abbreviation (input) KEY_F1 :: u16 where "KEY_F1 \<equiv> 0x8A"
abbreviation (input) KEY_F11 :: u16 where "KEY_F11 \<equiv> 0x94"
abbreviation (input) KEY_F12 :: u16 where "KEY_F12 \<equiv> 0x95"

record keyboard =
  kbd_buffer :: "u16 list"
  kbd_read :: u32
  kbd_write :: u32
  shift_held :: bool
  caps_on :: bool
  ctrl_held :: bool
  alt_held :: bool
  numlock_on :: bool
  extended :: bool

text \<open>The layout: the characters of the table, as far as it has any; \<open>0\<close> stands for no character.\<close>

definition scancode_map :: "u8 list" where
  "scancode_map = [0, 27, 49, 50, 51, 52, 53, 54, 55, 56, 57, 48, 45, 61, 8, 9,
     113, 119, 101, 114, 116, 121, 117, 105, 111, 112, 91, 93, 10, 0, 97, 115,
     100, 102, 103, 104, 106, 107, 108, 59, 39, 96, 0, 92, 122, 120, 99, 118,
     98, 110, 109, 44, 46, 47, 0, 42, 0, 32, 0, 0, 0, 0, 0, 0,
     0, 0, 0, 0, 0, 0, 0, 55, 56, 57, 45, 52, 53, 54, 43, 49,
     50, 51, 48, 46] @ replicate 44 0"

definition scancode_map_shift :: "u8 list" where
  "scancode_map_shift = [0, 27, 33, 64, 35, 36, 37, 94, 38, 42, 40, 41, 95, 43, 8, 9,
     81, 87, 69, 82, 84, 89, 85, 73, 79, 80, 123, 125, 10, 0, 65, 83,
     68, 70, 71, 72, 74, 75, 76, 58, 34, 126, 0, 124, 90, 88, 67, 86,
     66, 78, 77, 60, 62, 63, 0, 42, 0, 32, 0, 0, 0, 0, 0, 0,
     0, 0, 0, 0, 0, 0, 0, 55, 56, 57, 45, 52, 53, 54, 43, 49,
     50, 51, 48, 46] @ replicate 44 0"

definition fkey_map :: "u8 \<Rightarrow> u16" where
  "fkey_map sc =
     (if 0x3B \<le> sc \<and> sc \<le> 0x44 then KEY_F1 + (ucast sc - 0x3B)
      else if sc = 0x57 then KEY_F11
      else if sc = 0x58 then KEY_F12
      else 0)"

definition kbd_push :: "u16 \<Rightarrow> keyboard \<Rightarrow> keyboard" where
  "kbd_push c k =
     (let nxt = (kbd_write k + 1) mod KBD_BUFFER_SIZE
      in if nxt = kbd_read k then k
         else k\<lparr>kbd_buffer := (kbd_buffer k)[unat (kbd_write k) := c], kbd_write := nxt\<rparr>)"

text \<open>\<open>char\<close> is signed; the characters of the tables are below 128.\<close>

definition is_letter :: "u8 \<Rightarrow> bool" where
  "is_letter c \<longleftrightarrow> 97 \<le> c \<and> c \<le> 122 \<or> 65 \<le> c \<and> c \<le> 90"

definition to_upper :: "u8 \<Rightarrow> u8" where
  "to_upper c = (if 97 \<le> c \<and> c \<le> 122 then c - 32 else c)"

definition to_lower :: "u8 \<Rightarrow> u8" where
  "to_lower c = (if 65 \<le> c \<and> c \<le> 90 then c + 32 else c)"

text \<open>The switch on extended keys, the one on the numeric pad, and the lookup of a character.\<close>

definition extended_key :: "u8 \<Rightarrow> u16 option" where
  "extended_key code = map_of [(0x48, KEY_UP), (0x50, KEY_DOWN), (0x4B, KEY_LEFT), (0x4D, KEY_RIGHT), (0x47, KEY_HOME),
     (0x4F, KEY_END), (0x49, KEY_PGUP), (0x51, KEY_PGDN), (0x52, KEY_INSERT), (0x53, KEY_DELETE), (0x1C, 10), (0x35, 47)] code"

definition numpad_key :: "u8 \<Rightarrow> u16 option" where
  "numpad_key code = map_of [(0x47, KEY_HOME), (0x48, KEY_UP), (0x49, KEY_PGUP), (0x4B, KEY_LEFT), (0x4D, KEY_RIGHT),
     (0x4F, KEY_END), (0x50, KEY_DOWN), (0x51, KEY_PGDN), (0x52, KEY_INSERT), (0x53, KEY_DELETE)] code"

definition lookup_char :: "u8 \<Rightarrow> keyboard \<Rightarrow> u8" where
  "lookup_char code k =
     (let c = (if shift_held k then (if code < 128 then scancode_map_shift ! unat code else 0)
               else (if code < 128 then scancode_map ! unat code else 0))
      in if c \<noteq> 0 \<and> caps_on k \<and> is_letter c
         then (if shift_held k then to_lower c else to_upper c) else c)"

definition push_char :: "u8 \<Rightarrow> keyboard \<Rightarrow> keyboard" where
  "push_char c k = (
     if c = 0 then k
     else if ctrl_held k \<and> 97 \<le> c \<and> c \<le> 122 then kbd_push (ucast (c - 97 + 1)) k
     else if ctrl_held k \<and> 65 \<le> c \<and> c \<le> 90 then kbd_push (ucast (c - 65 + 1)) k
     else kbd_push (ucast c) k)"

definition handle_extended :: "u8 \<Rightarrow> keyboard \<Rightarrow> keyboard" where
  "handle_extended sc k =
     (let k = k\<lparr>extended := False\<rparr>; code = sc AND 0x7F
      in if sc AND 0x80 \<noteq> 0
         then (let k = (if code = 0x1D then k\<lparr>ctrl_held := False\<rparr> else k)
               in if code = 0x38 then k\<lparr>alt_held := False\<rparr> else k)
         else if code = 0x1D then k\<lparr>ctrl_held := True\<rparr>
         else if code = 0x38 then k\<lparr>alt_held := True\<rparr>
         else case extended_key code of Some c \<Rightarrow> kbd_push c k | None \<Rightarrow> k)"

definition keyboard_handler :: "u8 \<Rightarrow> keyboard \<Rightarrow> keyboard" where
  "keyboard_handler sc k = (
     if sc = 0xE0 then k\<lparr>extended := True\<rparr>
     else if extended k then handle_extended sc k
     else let release = (sc AND 0x80 \<noteq> 0); code = sc AND 0x7F
          in if code = 0x2A \<or> code = 0x36 then k\<lparr>shift_held := \<not> release\<rparr>
             else if code = 0x1D then k\<lparr>ctrl_held := \<not> release\<rparr>
             else if code = 0x38 then k\<lparr>alt_held := \<not> release\<rparr>
             else if release then k
             else if code = 0x3A then k\<lparr>caps_on := \<not> caps_on k\<rparr>
             else if code = 0x45 then k\<lparr>numlock_on := \<not> numlock_on k\<rparr>
             else if fkey_map code \<noteq> 0 then kbd_push (fkey_map code) k
             else if 0x47 \<le> code \<and> code \<le> 0x53 \<and> \<not> numlock_on k \<and> numpad_key code \<noteq> None
               then kbd_push (the (numpad_key code)) k
             else push_char (lookup_char code k) k)"

text \<open>\<open>pending\<close>: the bytes of the controller, drained; \<open>imask\<close>: the interrupt mask of port 0x21, read and
  written back with the keyboard's line enabled.\<close>

primrec drain :: "u8 list \<Rightarrow> u8 list" where
  "drain [] = []"
| "drain (b # bs) = drain bs"

definition keyboard_init :: "u8 list \<Rightarrow> u8 \<Rightarrow> keyboard \<Rightarrow> keyboard \<times> u8 list \<times> u8" where
  "keyboard_init pending imask k =
     (k\<lparr>kbd_read := 0, kbd_write := 0, shift_held := False, caps_on := False, ctrl_held := False, alt_held := False,
        numlock_on := True, extended := False\<rparr>, drain pending, imask AND NOT (push_bit 1 1))"

definition keyboard_has_key :: "keyboard \<Rightarrow> bool" where
  "keyboard_has_key k \<longleftrightarrow> kbd_read k \<noteq> kbd_write k"

definition keyboard_getchar :: "keyboard \<Rightarrow> (u16 \<times> keyboard) option" where
  "keyboard_getchar k = (
     if kbd_read k = kbd_write k then None
     else Some (kbd_buffer k ! unat (kbd_read k), k\<lparr>kbd_read := (kbd_read k + 1) mod KBD_BUFFER_SIZE\<rparr>))"

definition keyboard_flush :: "keyboard \<Rightarrow> keyboard" where
  "keyboard_flush k = k\<lparr>kbd_read := kbd_write k\<rparr>"

definition keyboard_ctrl_held :: "keyboard \<Rightarrow> bool" where
  "keyboard_ctrl_held k = ctrl_held k"

definition keyboard_alt_held :: "keyboard \<Rightarrow> bool" where
  "keyboard_alt_held k = alt_held k"

definition keyboard_shift_held :: "keyboard \<Rightarrow> bool" where
  "keyboard_shift_held k = shift_held k"

section \<open>The ring buffer is a bounded queue\<close>

definition kbd_inv :: "keyboard \<Rightarrow> bool" where [inv_defs]:
  "kbd_inv k \<longleftrightarrow> length (kbd_buffer k) = 256 \<and> kbd_read k < 256 \<and> kbd_write k < 256"

definition pending_count :: "keyboard \<Rightarrow> nat" where
  "pending_count k = (unat (kbd_write k) + 256 - unat (kbd_read k)) mod 256"

definition keys :: "keyboard \<Rightarrow> u16 list" where
  "keys k = map (\<lambda>i. kbd_buffer k ! ((unat (kbd_read k) + i) mod 256)) [0..<pending_count k]"

lemma unat_next: "x < (256 :: u32) \<Longrightarrow> unat ((x + 1) mod 256) = (unat x + 1) mod 256"
proof -
  assume "x < 256"
  then have "unat x < 256" by (simp add: word_less_nat_alt)
  then have "unat (x + 1) = unat x + 1" by (simp add: unat_plus_if')
  then show ?thesis by (simp add: unat_mod)
qed

lemma length_keys: "length (keys k) = pending_count k"
  by (simp add: keys_def)

lemma kbd_push_inv: "kbd_inv k \<Longrightarrow> kbd_inv (kbd_push c k)"
  by (simp add: kbd_inv_def kbd_push_def Let_def word_less_nat_alt unat_mod)

lemma pending_count_less: "pending_count k < 256"
  by (simp add: pending_count_def)

lemma ring_count: "r < 256 \<Longrightarrow> w < 256 \<Longrightarrow> (w + 256 - r) mod 256 = (if r \<le> w then w - r else w + 256 - r)" for r w :: nat
proof (cases "r \<le> w")
  case True
  assume b: "r < 256" "w < 256"
  have "w + 256 - r = (w - r) + 256" using True by simp
  then have "(w + 256 - r) mod 256 = (w - r) mod 256" by (metis mod_add_self2)
  then show ?thesis using True b by simp
qed simp

lemma ring_next: "x < 256 \<Longrightarrow> (x + 1) mod 256 = (if x = 255 then 0 else x + 1)" for x :: nat
  by simp

lemma ring_add: "x < 256 \<Longrightarrow> i < 256 \<Longrightarrow> (x + i) mod 256 = (if x + i < 256 then x + i else x + i - 256)" for x :: nat
  by (simp add: mod_if)

lemma ring_take: "r < 256 \<Longrightarrow> w < 256 \<Longrightarrow> r \<noteq> w \<Longrightarrow> (w + 256 - r) mod 256 = Suc ((w + 256 - (r + 1) mod 256) mod 256)" for r w :: nat
proof (cases "r = 255")
  case True
  assume "r < 256" "w < 256" "r \<noteq> w"
  then show ?thesis using True ring_count [of 255 w] ring_count [of 0 w] by simp
next
  case False
  assume b: "r < 256" "w < 256" "r \<noteq> w"
  then have e: "(r + 1) mod 256 = r + 1" "r + 1 < 256" using False by simp_all
  show ?thesis unfolding e(1) ring_count [OF b(1,2)] ring_count [OF e(2) b(2)] using b by auto
qed

lemma ring_put: "r < 256 \<Longrightarrow> w < 256 \<Longrightarrow> (w + 1) mod 256 \<noteq> r \<Longrightarrow> ((w + 1) mod 256 + 256 - r) mod 256 = Suc ((w + 256 - r) mod 256)" for r w :: nat
proof (cases "w = 255")
  case True
  assume "r < 256" "w < 256" "(w + 1) mod 256 \<noteq> r"
  then show ?thesis using True ring_count [of r 255] ring_count [of r 0] by simp
next
  case False
  assume b: "r < 256" "w < 256" and n: "(w + 1) mod 256 \<noteq> r"
  then have "(w + 1) mod 256 = w + 1" using False by simp
  then show ?thesis using False b n ring_count [of r w] ring_count [of r "w + 1"] by auto
qed

lemma ring_full: "r < 256 \<Longrightarrow> w < 256 \<Longrightarrow> (w + 1) mod 256 = r \<longleftrightarrow> (w + 256 - r) mod 256 = 255" for r w :: nat
proof (cases "w = 255")
  case True
  assume "r < 256" "w < 256"
  then show ?thesis using True ring_count [of r 255] by auto
next
  case False
  assume b: "r < 256" "w < 256"
  then have "(w + 1) mod 256 = w + 1" using False by simp
  then show ?thesis using False b ring_count [of r w] by auto
qed

lemma kbd_push_keys:
  assumes "kbd_inv k"
  shows "keys (kbd_push c k) = (if length (keys k) < 255 then keys k @ [c] else keys k)"
proof -
  have b: "unat (kbd_read k) < 256" "unat (kbd_write k) < 256" "length (kbd_buffer k) = 256"
    using assms by (simp_all add: kbd_inv_def word_less_nat_alt)
  define r w where "r = unat (kbd_read k)" and "w = unat (kbd_write k)"
  have n: "unat ((kbd_write k + 1) mod 256) = (w + 1) mod 256" using assms by (simp add: unat_next kbd_inv_def w_def)
  have full: "(kbd_write k + 1) mod 256 = kbd_read k \<longleftrightarrow> (w + 1) mod 256 = r"
    by (simp add: word_unat_eq_iff n r_def)
  have full': "(w + 1) mod 256 = r \<longleftrightarrow> pending_count k = 255"
    using ring_full [of r w] b by (simp add: pending_count_def r_def w_def)
  show ?thesis
  proof (cases "(w + 1) mod 256 = r")
    case True
    then show ?thesis using full full' by (simp add: kbd_push_def Let_def length_keys)
  next
    case False
    let ?n = "pending_count k"
    have lt: "?n < 255" using False full' pending_count_less [of k] by simp
    have n': "pending_count (kbd_push c k) = Suc ?n"
    proof -
      have "pending_count (kbd_push c k) = ((w + 1) mod 256 + 256 - r) mod 256"
        using False full n by (simp add: kbd_push_def Let_def pending_count_def r_def)
      then show ?thesis using ring_put [of r w] False b by (simp add: pending_count_def r_def w_def)
    qed
    have pos: "(r + ?n) mod 256 = w"
      using b by (simp add: pending_count_def r_def [symmetric] w_def [symmetric] ring_count)
    have old: "(r + i) mod 256 \<noteq> w" if "i < ?n" for i
      using that b by (simp add: pending_count_def r_def [symmetric] w_def [symmetric] ring_count ring_add split: if_splits; linarith)
    have buf: "kbd_buffer (kbd_push c k) = (kbd_buffer k)[w := c]" "kbd_read (kbd_push c k) = kbd_read k"
      using False full by (simp_all add: kbd_push_def Let_def w_def)
    have "map (\<lambda>i. kbd_buffer (kbd_push c k) ! ((r + i) mod 256)) [0..<?n] = map (\<lambda>i. kbd_buffer k ! ((r + i) mod 256)) [0..<?n]"
    proof (rule map_cong [OF refl])
      fix i assume "i \<in> set [0..<?n]"
      then have "w \<noteq> (r + i) mod 256" using old [of i] by auto
      then show "kbd_buffer (kbd_push c k) ! ((r + i) mod 256) = kbd_buffer k ! ((r + i) mod 256)" by (simp add: buf)
    qed
    then show ?thesis using lt pos b unfolding keys_def n' buf(2) r_def [symmetric] by (simp add: buf length_keys w_def)
  qed
qed

lemma keyboard_getchar_keys:
  assumes "kbd_inv k"
  shows "case keyboard_getchar k of None \<Rightarrow> keys k = [] | Some (c, k') \<Rightarrow> kbd_inv k' \<and> keys k = c # keys k'"
proof -
  have b: "unat (kbd_read k) < 256" "unat (kbd_write k) < 256" "length (kbd_buffer k) = 256"
    using assms by (simp_all add: kbd_inv_def word_less_nat_alt)
  define r w where "r = unat (kbd_read k)" and "w = unat (kbd_write k)"
  show ?thesis
  proof (cases "kbd_read k = kbd_write k")
    case True
    then show ?thesis by (simp add: keyboard_getchar_def keys_def pending_count_def)
  next
    case False
    then have rw: "r \<noteq> w" by (simp add: word_unat_eq_iff r_def w_def)
    define k' where "k' = k\<lparr>kbd_read := (kbd_read k + 1) mod KBD_BUFFER_SIZE\<rparr>"
    have n: "unat (kbd_read k') = (r + 1) mod 256" using assms by (simp add: k'_def unat_next kbd_inv_def r_def)
    have cnt: "pending_count k = Suc (pending_count k')"
    proof -
      have "pending_count k' = (w + 256 - (r + 1) mod 256) mod 256" using n by (simp add: pending_count_def w_def k'_def)
      then show ?thesis using ring_take [of r w] rw b by (simp add: pending_count_def r_def w_def)
    qed
    have inv: "kbd_inv k'" using assms by (simp add: kbd_inv_def k'_def word_less_nat_alt unat_mod)
    have "keys k = kbd_buffer k ! r # map (\<lambda>i. kbd_buffer k ! ((r + Suc i) mod 256)) [0..<pending_count k']"
      unfolding keys_def cnt using b by (subst upt_conv_Cons) (simp_all add: map_Suc_upt [symmetric] r_def del: upt_Suc)
    also have "map (\<lambda>i. kbd_buffer k ! ((r + Suc i) mod 256)) [0..<pending_count k'] = keys k'"
      unfolding keys_def n by (simp add: k'_def mod_simps)
    finally show ?thesis using False inv by (simp add: keyboard_getchar_def k'_def r_def)
  qed
qed


section \<open>The interface of a bounded queue\<close>

primrec gets :: "('s \<Rightarrow> ('e \<times> 's) option) \<Rightarrow> nat \<Rightarrow> 's \<Rightarrow> ('e list \<times> 's) option" where
  "gets g 0 s = Some ([], s)"
| "gets g (Suc n) s = (case g s of None \<Rightarrow> None
     | Some (e, s) \<Rightarrow> map_option (\<lambda>(es, s). (e # es, s)) (gets g n s))"

locale bounded_queue =
  fixes inv :: "'s \<Rightarrow> bool" and contents :: "'s \<Rightarrow> 'e list" and put :: "'e \<Rightarrow> 's \<Rightarrow> 's"
    and get :: "'s \<Rightarrow> ('e \<times> 's) option" and cap :: nat
  assumes put_inv: "inv s \<Longrightarrow> inv (put e s)"
    and put_contents: "inv s \<Longrightarrow> contents (put e s) = (if length (contents s) < cap then contents s @ [e] else contents s)"
    and get_contents: "inv s \<Longrightarrow> case get s of None \<Rightarrow> contents s = [] | Some (e, s') \<Rightarrow> inv s' \<and> contents s = e # contents s'"
begin

lemma puts_contents:
  "inv s \<Longrightarrow> inv (fold put es s) \<and> contents (fold put es s) = contents s @ take (cap - length (contents s)) es"
proof (induction es arbitrary: s)
  case (Cons e es)
  have i: "inv (put e s)" by (rule put_inv [OF Cons.prems])
  show ?case
  proof (cases "length (contents s) < cap")
    case True
    then obtain m where "cap - length (contents s) = Suc m" by (metis Suc_diff_Suc)
    then show ?thesis using Cons.IH [OF i] put_contents [OF Cons.prems] True by (simp, metis Suc_diff_Suc diff_Suc_Suc old.nat.inject)
  next
    case False
    then show ?thesis using Cons.IH [OF i] put_contents [OF Cons.prems] by simp
  qed
qed simp

lemma gets_contents:
  "inv s \<Longrightarrow> n \<le> length (contents s) \<Longrightarrow> \<exists>s'. gets get n s = Some (take n (contents s), s') \<and> inv s' \<and> contents s' = drop n (contents s)"
proof (induction n arbitrary: s)
  case (Suc n)
  have "contents s \<noteq> []" using Suc.prems(2) by auto
  then obtain e s1 where g: "get s = Some (e, s1)" "inv s1" "contents s = e # contents s1"
    using get_contents [OF Suc.prems(1)] by (cases "get s") auto
  then show ?case using Suc.IH [OF g(2)] Suc.prems(2) by auto
qed simp

lemma fifo:
  assumes "inv s" and "contents s = []" and "length es \<le> cap"
  shows "\<exists>s'. gets get (length es) (fold put es s) = Some (es, s') \<and> inv s' \<and> contents s' = []"
  using gets_contents [of "fold put es s" "length es"] puts_contents [OF assms(1), of es] assms by simp

end

interpretation kbd: bounded_queue kbd_inv keys kbd_push keyboard_getchar 255
  by unfold_locales (auto intro: kbd_push_inv simp: kbd_push_keys dest: keyboard_getchar_keys)

section \<open>Properties\<close>


definition sample_keyboard :: keyboard where
  "sample_keyboard = fst (keyboard_init [] 0xFF \<lparr>kbd_buffer = replicate 256 0, kbd_read = 5, kbd_write = 9, shift_held = True, caps_on = False,
     ctrl_held = False, alt_held = False, numlock_on = False, extended = False\<rparr>)"

lemma sample_keyboard_facts: "kbd_inv sample_keyboard" "keys sample_keyboard = []"
  by (simp_all add: sample_keyboard_def keyboard_init_def kbd_inv_def keys_def pending_count_def)


lemma push_char_cases: "push_char c k = k \<or> (\<exists>e. push_char c k = kbd_push e k)"
  by (auto simp: push_char_def)

lemma handle_extended_cases:
  "\<exists>k'. kbd_buffer k' = kbd_buffer k \<and> kbd_read k' = kbd_read k \<and> kbd_write k' = kbd_write k
     \<and> (handle_extended sc k = k' \<or> sc AND 0x80 = 0 \<and> (\<exists>e. handle_extended sc k = kbd_push e k'))"
  by (rule exI [of _ "if \<exists>e. handle_extended sc k = kbd_push e (k\<lparr>extended := False\<rparr>) \<and> sc AND 0x80 = 0 then k\<lparr>extended := False\<rparr> else handle_extended sc k"])
    (auto simp: handle_extended_def Let_def split: option.splits)

lemma keyboard_handler_cases:
  "\<exists>k'. kbd_buffer k' = kbd_buffer k \<and> kbd_read k' = kbd_read k \<and> kbd_write k' = kbd_write k
     \<and> (keyboard_handler sc k = k' \<or> sc AND 0x80 = 0 \<and> (\<exists>e. keyboard_handler sc k = kbd_push e k'))"
proof (cases "sc \<noteq> 0xE0 \<and> extended k")
  case True
  then show ?thesis using handle_extended_cases [of k sc] by (simp add: keyboard_handler_def)
next
  case False
  show ?thesis
  proof (cases "\<exists>e. keyboard_handler sc k = kbd_push e k \<and> sc AND 0x80 = 0")
    case True
    then show ?thesis by blast
  next
    case no: False
    then show ?thesis using False push_char_cases [of "lookup_char (sc AND 0x7F) k" k]
      by (intro exI [of _ "keyboard_handler sc k"]) (auto simp: keyboard_handler_def Let_def split: if_splits)
  qed
qed

lemma same_ring: "kbd_buffer k' = kbd_buffer k \<Longrightarrow> kbd_read k' = kbd_read k \<Longrightarrow> kbd_write k' = kbd_write k \<Longrightarrow> kbd_inv k' = kbd_inv k \<and> keys k' = keys k"
  by (simp add: kbd_inv_def keys_def pending_count_def)

text \<open>A scan code adds at most one key to the queue, behind those already there; the release of a key adds none,
  and with 255 keys waiting a new one is dropped. The ring buffer keeps its invariant.\<close>

theorem keyboard_handler_one_key:
  assumes "kbd_inv k"
  shows "kbd_inv (keyboard_handler sc k) \<and> (keys (keyboard_handler sc k) = keys k
     \<or> sc AND 0x80 = 0 \<and> length (keys k) < 255 \<and> (\<exists>c. keys (keyboard_handler sc k) = keys k @ [c]))"
proof -
  obtain k' where k': "kbd_inv k'" "keys k' = keys k"
    "keyboard_handler sc k = k' \<or> sc AND 0x80 = 0 \<and> (\<exists>e. keyboard_handler sc k = kbd_push e k')"
    using keyboard_handler_cases [of k sc] same_ring [of _ k] assms by metis
  then show ?thesis using kbd_push_inv [OF k'(1)] kbd_push_keys [OF k'(1)] by (auto split: if_splits)
qed

theorem keyboard_handler_one_key_witness:
  "kbd_inv (keyboard_handler 0x1E sample_keyboard) \<and> keys (keyboard_handler 0x1E sample_keyboard) = [97]"
proof -
  have "keyboard_handler 0x1E sample_keyboard = kbd_push 97 sample_keyboard"
    by (simp add: keyboard_handler_def sample_keyboard_def keyboard_init_def fkey_map_def push_char_def lookup_char_def scancode_map_def)
  then show ?thesis
    using keyboard_handler_one_key [OF sample_keyboard_facts(1), of "0x1E"] kbd_push_keys [OF sample_keyboard_facts(1)] sample_keyboard_facts(2) by simp
qed

lemma letter_tables:
  "list_all (\<lambda>i. is_letter (scancode_map ! i) \<longrightarrow> scancode_map_shift ! i = to_upper (scancode_map ! i) \<and> scancode_map ! i \<noteq> 0
     \<and> is_letter (to_upper (scancode_map ! i)) \<and> to_upper (scancode_map ! i) \<noteq> 0
     \<and> to_lower (to_upper (scancode_map ! i)) = scancode_map ! i) [0..<128]"
  by code_simp

text \<open>For a letter key the character is upper case exactly when one of Shift and Caps Lock is active, not both; and the
  shifted table holds the upper case letters of the plain one.\<close>

theorem letter_case:
  assumes "code < 128" and "is_letter (scancode_map ! unat code)"
  shows "lookup_char code k = (if shift_held k \<noteq> caps_on k then to_upper (scancode_map ! unat code) else scancode_map ! unat code)"
proof -
  have "unat code < 128" using assms(1) by (simp add: word_less_nat_alt)
  then have "unat code \<in> set [0..<128]" by simp
  then have t: "scancode_map_shift ! unat code = to_upper (scancode_map ! unat code)" "scancode_map ! unat code \<noteq> 0"
    "is_letter (to_upper (scancode_map ! unat code))" "to_upper (scancode_map ! unat code) \<noteq> 0"
    "to_lower (to_upper (scancode_map ! unat code)) = scancode_map ! unat code"
    using letter_tables assms(2) unfolding list_all_iff by blast+
  then show ?thesis using assms by (simp add: lookup_char_def Let_def)
qed

theorem letter_case_witness: "lookup_char 0x1E (sample_keyboard\<lparr>caps_on := True\<rparr>) = 65"
proof -
  have m: "scancode_map ! unat (0x1E :: u8) = 97" by (simp add: scancode_map_def)
  show ?thesis
    using letter_case [of "0x1E" "sample_keyboard\<lparr>caps_on := True\<rparr>"] m
    by (simp add: is_letter_def to_upper_def sample_keyboard_def keyboard_init_def)
qed

end
