(* ===== verification/Console.thy ===== *)
theory Console
  imports CString
begin

text \<open>
  The framebuffer console of \<open>kernel/console.c\<close>.  The framebuffer is part of a byte memory; the glyphs of
  \<open>font8x16.h\<close> and the calls into the mouse driver are arguments.  A variadic argument of
  \<open>kprintf\<close> is a string or a 64-bit value, and a conversion that meets the other kind has no result.

  The lemmas: the text cursor never leaves the screen, hiding and showing the mouse cursor is balanced,
  and the digits \<open>kprintf\<close> writes denote the number and fit its buffer.
\<close>

unbundle bit_operations_syntax

abbreviation (input) FG_COLOR :: u32 where "FG_COLOR \<equiv> 0x00CCCCCC"
abbreviation (input) BG_COLOR :: u32 where "BG_COLOR \<equiv> 0"

record Framebuffer =
  fb_base :: ptr
  fb_width :: u32
  fb_height :: u32
  fb_pitch :: u32

text \<open>What the console uses of the mouse driver.\<close>

record mouse_ops =
  mouse_hide_cursor :: "mem \<Rightarrow> mem"
  mouse_show_cursor :: "mem \<Rightarrow> mem"
  mouse_x :: int
  mouse_y :: int

record console =
  mouse_ready :: bool
  cursor_hidden_depth :: int
  g_fb :: Framebuffer
  g_pixels :: ptr
  g_cols :: u32
  g_rows :: u32
  g_cx :: u32
  g_cy :: u32
  g_stride :: u32
  fbmem :: mem

section \<open>Drawing\<close>

definition store32 :: "mem \<Rightarrow> ptr \<Rightarrow> u32 \<Rightarrow> mem" where
  "store32 m a v = m(a := ucast v, a + 1 := ucast (drop_bit 8 v), a + 2 := ucast (drop_bit 16 v), a + 3 := ucast (drop_bit 24 v))"

definition draw_row :: "u8 \<Rightarrow> ptr \<Rightarrow> mem \<Rightarrow> mem" where
  "draw_row b row_ptr m = fold (\<lambda>i m. store32 m (row_ptr + 4 * of_nat i)
     (if bit b (7 - i) then FG_COLOR else BG_COLOR)) [0..<8] m"

definition draw_char :: "(u8 \<Rightarrow> u8 list) \<Rightarrow> u32 \<Rightarrow> u32 \<Rightarrow> u8 \<Rightarrow> console \<Rightarrow> console" where
  "draw_char font col row c s =
     (let x0 = col * 8; y0 = row * 16;
          row_ptr = g_pixels s + 4 * (ucast (y0 * g_stride s + x0))
      in s\<lparr>fbmem := fold (\<lambda>y. draw_row (font c ! y) (row_ptr + 4 * (of_nat y * ucast (g_stride s)))) [0..<16] (fbmem s)\<rparr>)"

definition scroll_up :: "console \<Rightarrow> console" where
  "scroll_up s =
     (let line_bytes = fb_pitch (g_fb s); text_height = 16;
          copy_bytes = (fb_height (g_fb s) - text_height) * line_bytes;
          m = memcpy (fbmem s) (g_pixels s) (g_pixels s + ucast (text_height * line_bytes)) (ucast copy_bytes)
      in s\<lparr>fbmem := memset m (g_pixels s + ucast copy_bytes) 0 (ucast (text_height * line_bytes))\<rparr>)"

section \<open>The mouse cursor\<close>

definition cursor_guard_enter :: "mouse_ops \<Rightarrow> console \<Rightarrow> console" where
  "cursor_guard_enter ms s = (
     if \<not> mouse_ready s then s
     else let d = cursor_hidden_depth s; s = s\<lparr>cursor_hidden_depth := d + 1\<rparr>
          in if d = 0 then s\<lparr>fbmem := mouse_hide_cursor ms (fbmem s)\<rparr> else s)"

definition cursor_guard_leave :: "mouse_ops \<Rightarrow> console \<Rightarrow> console" where
  "cursor_guard_leave ms s = (
     if \<not> mouse_ready s then s
     else let d = cursor_hidden_depth s - 1; s = s\<lparr>cursor_hidden_depth := d\<rparr>
          in if d = 0 then s\<lparr>fbmem := mouse_show_cursor ms (fbmem s)\<rparr> else s)"

definition char_overlaps_cursor :: "mouse_ops \<Rightarrow> u32 \<Rightarrow> u32 \<Rightarrow> console \<Rightarrow> bool" where
  "char_overlaps_cursor ms col row s \<longleftrightarrow> mouse_ready s \<and>
     (let cx = mouse_x ms; cy = mouse_y ms; x0 = sint (col * 8); y0 = sint (row * 16)
      in \<not> (x0 + 8 \<le> cx \<or> cx + 8 \<le> x0 \<or> y0 + 16 \<le> cy \<or> cy + 12 \<le> y0))"

section \<open>The calls\<close>

definition console_clear :: "mouse_ops \<Rightarrow> console \<Rightarrow> console" where
  "console_clear ms s =
     (let s = cursor_guard_enter ms s;
          s = s\<lparr>fbmem := memset (fbmem s) (g_pixels s) 0 (ucast (fb_height (g_fb s) * fb_pitch (g_fb s))), g_cx := 0, g_cy := 0\<rparr>
      in cursor_guard_leave ms s)"

definition console_init :: "mouse_ops \<Rightarrow> Framebuffer \<Rightarrow> console \<Rightarrow> console" where
  "console_init ms fb s = console_clear ms (s\<lparr>g_fb := fb, g_pixels := fb_base fb, g_stride := fb_pitch fb div 4,
     g_cols := fb_width fb div 8, g_rows := fb_height fb div 16, g_cx := 0, g_cy := 0\<rparr>)"

definition guarded_draw :: "mouse_ops \<Rightarrow> (u8 \<Rightarrow> u8 list) \<Rightarrow> u8 \<Rightarrow> console \<Rightarrow> console" where
  "guarded_draw ms font c s =
     (let need_hide = char_overlaps_cursor ms (g_cx s) (g_cy s) s;
          s = (if need_hide then cursor_guard_enter ms s else s);
          s = draw_char font (g_cx s) (g_cy s) c s
      in if need_hide then cursor_guard_leave ms s else s)"

definition put_cell :: "mouse_ops \<Rightarrow> (u8 \<Rightarrow> u8 list) \<Rightarrow> u8 \<Rightarrow> console \<Rightarrow> console" where
  "put_cell ms font c s = (
     if c = 10 then s\<lparr>g_cx := 0, g_cy := g_cy s + 1\<rparr>
     else if c = 13 then s\<lparr>g_cx := 0\<rparr>
     else if c = 8 then
       guarded_draw ms font 32
         (if 0 < g_cx s then s\<lparr>g_cx := g_cx s - 1\<rparr>
          else if 0 < g_cy s then s\<lparr>g_cy := g_cy s - 1, g_cx := g_cols s - 1\<rparr> else s)
     else if c = 9 then s\<lparr>g_cx := (g_cx s + 4) AND NOT 3\<rparr>
     else (let s = guarded_draw ms font c s in s\<lparr>g_cx := g_cx s + 1\<rparr>))"

definition wrap_line :: "console \<Rightarrow> console" where
  "wrap_line s = (if g_cols s \<le> g_cx s then s\<lparr>g_cx := 0, g_cy := g_cy s + 1\<rparr> else s)"

definition wrap_screen :: "mouse_ops \<Rightarrow> console \<Rightarrow> console" where
  "wrap_screen ms s = (
     if g_rows s \<le> g_cy s
     then let s = cursor_guard_leave ms (scroll_up (cursor_guard_enter ms s)) in s\<lparr>g_cy := g_rows s - 1\<rparr>
     else s)"

definition console_putchar :: "mouse_ops \<Rightarrow> (u8 \<Rightarrow> u8 list) \<Rightarrow> u8 \<Rightarrow> console \<Rightarrow> console" where
  "console_putchar ms font c s = wrap_screen ms (wrap_line (put_cell ms font c s))"

definition console_get_pixels :: "console \<Rightarrow> ptr" where
  "console_get_pixels s = g_pixels s"

definition console_get_pitch :: "console \<Rightarrow> u32" where
  "console_get_pitch s = fb_pitch (g_fb s)"

definition console_get_screen_size :: "console \<Rightarrow> u32 \<times> u32" where
  "console_get_screen_size s = (fb_width (g_fb s), fb_height (g_fb s))"

definition console_set_mouse_ready :: "console \<Rightarrow> console" where
  "console_set_mouse_ready s = s\<lparr>mouse_ready := True\<rparr>"

definition console_is_writing :: "console \<Rightarrow> bool" where
  "console_is_writing s \<longleftrightarrow> 0 < cursor_hidden_depth s"

definition console_begin_batch :: "mouse_ops \<Rightarrow> console \<Rightarrow> console" where
  "console_begin_batch ms s = cursor_guard_enter ms s"

definition console_end_batch :: "mouse_ops \<Rightarrow> console \<Rightarrow> console" where
  "console_end_batch ms s = cursor_guard_leave ms s"

definition console_write :: "mouse_ops \<Rightarrow> (u8 \<Rightarrow> u8 list) \<Rightarrow> u8 list \<Rightarrow> console \<Rightarrow> console" where
  "console_write ms font str s = fold (console_putchar ms font) str s"

section \<open>Formatted output\<close>

definition digit_char :: "u64 \<Rightarrow> u8" where
  "digit_char d = (if d < 10 then 48 + ucast d else 97 + ucast d - 10)"

text \<open>The digits in the order the loop finds them, the lowest first; the bases are 10 and 16.\<close>

function digits :: "u64 \<Rightarrow> u64 \<Rightarrow> u8 list" where
  "digits base val = (if val = 0 \<or> base < 2 then [] else digit_char (val mod base) # digits base (val div base))"
  by pat_completeness auto
termination
proof (relation "measure (\<lambda>(_, val). unat val)")
  fix base val :: u64
  assume "\<not> (val = 0 \<or> base < 2)"
  then have "unat val \<noteq> 0" "2 \<le> unat base" by (auto simp: unat_eq_0 word_less_nat_alt not_less)
  then have "unat val div unat base < unat val" by (intro div_less_dividend) auto
  then show "((base, val div base), base, val) \<in> measure (\<lambda>(_, val). unat val)" by (simp add: unat_div)
qed simp

declare digits.simps [simp del]

definition uint_to_buf :: "u64 \<Rightarrow> u64 \<Rightarrow> u8 list" where
  "uint_to_buf val base = (if val = 0 then [48] else rev (digits base val))"

definition int_to_buf :: "u64 \<Rightarrow> u8 list" where
  "int_to_buf val = (if val <s 0 then 45 # uint_to_buf (- val) 10 else uint_to_buf val 10)"

definition emit_padded :: "u8 list \<Rightarrow> nat \<Rightarrow> bool \<Rightarrow> u8 list" where
  "emit_padded str width left_align =
     (let pad = replicate (width - length str) 32
      in if left_align then str @ pad else pad @ str)"

datatype arg = Str "u8 list option" | Val u64

fun parse_width :: "u8 list \<Rightarrow> nat \<Rightarrow> nat \<times> u8 list" where
  "parse_width [] w = (w, [])"
| "parse_width (c # cs) w = (if 48 \<le> c \<and> c \<le> 57 then parse_width cs (w * 10 + unat (c - 48)) else (w, c # cs))"

lemma parse_width_shorter: "length (snd (parse_width cs w)) \<le> length cs"
  by (induction cs w rule: parse_width.induct) auto

definition int_arg :: "bool \<Rightarrow> u64 \<Rightarrow> u64" where
  "int_arg is_long v = (if is_long then v else scast (ucast v :: u32))"

definition uint_arg :: "bool \<Rightarrow> u64 \<Rightarrow> u64" where
  "uint_arg is_long v = (if is_long then v else ucast (ucast v :: u32))"

definition null_str :: "u8 list" where
  "null_str = [40, 110, 117, 108, 108, 41]"

text \<open>One conversion: the characters it emits and the arguments left.\<close>

fun convert :: "u8 \<Rightarrow> bool \<Rightarrow> nat \<Rightarrow> bool \<Rightarrow> arg list \<Rightarrow> (u8 list \<times> arg list) option" where
  "convert c is_long width left args = (
     if c = 115 then (case args of Str str # as \<Rightarrow> Some (emit_padded (case str of None \<Rightarrow> null_str | Some x \<Rightarrow> x) width left, as) | _ \<Rightarrow> None)
     else if c = 100 then (case args of Val v # as \<Rightarrow> Some (emit_padded (int_to_buf (int_arg is_long v)) width left, as) | _ \<Rightarrow> None)
     else if c = 117 then (case args of Val v # as \<Rightarrow> Some (emit_padded (uint_to_buf (uint_arg is_long v) 10) width left, as) | _ \<Rightarrow> None)
     else if c = 120 then (case args of Val v # as \<Rightarrow> Some (emit_padded (uint_to_buf (uint_arg is_long v) 16) width left, as) | _ \<Rightarrow> None)
     else if c = 112 then (case args of Val v # as \<Rightarrow> Some (emit_padded ([48, 120] @ uint_to_buf v 16) width left, as) | _ \<Rightarrow> None)
     else if c = 99 then (case args of Val v # as \<Rightarrow> Some (emit_padded [ucast v] width left, as) | _ \<Rightarrow> None)
     else if c = 37 then Some ([37], args)
     else Some ([37, c], args))"

text \<open>The format loop.  A format that ends inside a conversion makes the code read on after the terminator: no result.\<close>

function format :: "u8 list \<Rightarrow> arg list \<Rightarrow> u8 list option" where
  "format [] args = Some []"
| "format (c # fmt) args = (
     if c \<noteq> 37 then map_option (\<lambda>out. c # out) (format fmt args)
     else let left = (fmt \<noteq> [] \<and> hd fmt = 45);
              fmt = (if left then tl fmt else fmt);
              (width, fmt) = parse_width fmt 0;
              is_long = (fmt \<noteq> [] \<and> hd fmt = 108);
              fmt = (if is_long then tl fmt else fmt)
          in case fmt of
               [] \<Rightarrow> None
             | k # fmt \<Rightarrow> (case convert k is_long width left args of
                 None \<Rightarrow> None
               | Some (out, args) \<Rightarrow> map_option (\<lambda>rest. out @ rest) (format fmt args)))"
  by pat_completeness auto
termination
proof (relation "measure (\<lambda>(fmt, _). length fmt)")
  fix c :: u8 and fmt fmt1 fmt2 fmt3 :: "u8 list" and left is_long x y width k and fmt4 :: "u8 list" and args args' :: "arg list" and z out
  assume l: "left = (fmt \<noteq> [] \<and> hd fmt = 45)" and 1: "fmt1 = (if left then tl fmt else fmt)" and 2: "x = parse_width fmt1 0" "(width, fmt2) = x"
    and "is_long = (fmt2 \<noteq> [] \<and> hd fmt2 = 108)" and 3: "fmt3 = (if is_long then tl fmt2 else fmt2)" "fmt3 = k # fmt4"
  have "length fmt2 \<le> length fmt1" using parse_width_shorter [of fmt1 0] 2 by (metis snd_conv)
  moreover have "length fmt1 \<le> length fmt" by (simp add: 1)
  moreover have "length fmt4 < length fmt2" using 3 by (auto split: if_splits) (metis Suc_le_eq length_Cons length_tl diff_le_self)
  ultimately show "((fmt4, args'), c # fmt, args) \<in> measure (\<lambda>(fmt, _). length fmt)" by simp
qed auto

definition kprintf :: "mouse_ops \<Rightarrow> (u8 \<Rightarrow> u8 list) \<Rightarrow> u8 list \<Rightarrow> arg list \<Rightarrow> console \<Rightarrow> console option" where
  "kprintf ms font fmt args s = map_option (\<lambda>out. fold (console_putchar ms font) out s) (format fmt args)"


section \<open>The text cursor\<close>

definition console_inv :: "console \<Rightarrow> bool" where [inv_defs]:
  "console_inv s \<longleftrightarrow> 0 < g_cols s \<and> 0 < g_rows s \<and> g_cols s \<le> 0x20000000 \<and> g_rows s \<le> 0x10000000
     \<and> g_cx s < g_cols s \<and> g_cy s < g_rows s"

lemma guard_geometry [simp]:
  "g_cols (cursor_guard_enter ms s) = g_cols s" "g_rows (cursor_guard_enter ms s) = g_rows s"
  "g_cx (cursor_guard_enter ms s) = g_cx s" "g_cy (cursor_guard_enter ms s) = g_cy s" "mouse_ready (cursor_guard_enter ms s) = mouse_ready s"
  "g_cols (cursor_guard_leave ms s) = g_cols s" "g_rows (cursor_guard_leave ms s) = g_rows s"
  "g_cx (cursor_guard_leave ms s) = g_cx s" "g_cy (cursor_guard_leave ms s) = g_cy s" "mouse_ready (cursor_guard_leave ms s) = mouse_ready s"
  by (simp_all add: cursor_guard_enter_def cursor_guard_leave_def Let_def)

lemma guard_depth [simp]:
  "cursor_hidden_depth (cursor_guard_enter ms s) = cursor_hidden_depth s + (if mouse_ready s then 1 else 0)"
  "cursor_hidden_depth (cursor_guard_leave ms s) = cursor_hidden_depth s - (if mouse_ready s then 1 else 0)"
  by (simp_all add: cursor_guard_enter_def cursor_guard_leave_def Let_def)

lemma draw_geometry [simp]:
  "g_cols (draw_char f a b c s) = g_cols s" "g_rows (draw_char f a b c s) = g_rows s" "g_cx (draw_char f a b c s) = g_cx s"
  "g_cy (draw_char f a b c s) = g_cy s" "cursor_hidden_depth (draw_char f a b c s) = cursor_hidden_depth s" "mouse_ready (draw_char f a b c s) = mouse_ready s"
  "g_cols (scroll_up s) = g_cols s" "g_rows (scroll_up s) = g_rows s" "g_cx (scroll_up s) = g_cx s" "g_cy (scroll_up s) = g_cy s"
  "cursor_hidden_depth (scroll_up s) = cursor_hidden_depth s" "mouse_ready (scroll_up s) = mouse_ready s"
  by (simp_all add: draw_char_def scroll_up_def Let_def)

lemma guarded_geometry [simp]:
  "g_cols (guarded_draw ms f c s) = g_cols s" "g_rows (guarded_draw ms f c s) = g_rows s" "g_cx (guarded_draw ms f c s) = g_cx s"
  "g_cy (guarded_draw ms f c s) = g_cy s" "cursor_hidden_depth (guarded_draw ms f c s) = cursor_hidden_depth s" "mouse_ready (guarded_draw ms f c s) = mouse_ready s"
  by (simp_all add: guarded_draw_def Let_def)

text \<open>Before the two wrap-around steps the cursor may be one row below the screen or past the end of its line.\<close>

lemma put_cell_geometry:
  assumes "console_inv s"
  shows "g_cols (put_cell ms f c s) = g_cols s" "g_rows (put_cell ms f c s) = g_rows s"
    "cursor_hidden_depth (put_cell ms f c s) = cursor_hidden_depth s" "mouse_ready (put_cell ms f c s) = mouse_ready s"
    "g_cx (put_cell ms f c s) < g_cols s \<and> g_cy (put_cell ms f c s) \<le> g_rows s \<or> g_cy (put_cell ms f c s) < g_rows s"
  using assms
  by (auto simp: put_cell_def Let_def console_inv_def word_le_nat_alt word_less_nat_alt unat_plus_if' unat_minus_one_lt unat_gt_0 [symmetric])

lemma console_putchar_inv:
  assumes "console_inv s"
  shows "console_inv (console_putchar ms f c s) \<and> cursor_hidden_depth (console_putchar ms f c s) = cursor_hidden_depth s"
proof -
  note g = put_cell_geometry [OF assms, of ms f c]
  let ?p = "put_cell ms f c s"
  define w where "w = wrap_line ?p"
  have w: "g_cols w = g_cols s" "g_rows w = g_rows s" "cursor_hidden_depth w = cursor_hidden_depth s" "mouse_ready w = mouse_ready s"
    using g by (simp_all add: w_def wrap_line_def)
  have r: "0 < unat (g_cols s)" "0 < unat (g_rows s)" "unat (g_rows s) \<le> 0x10000000"
    using assms by (simp_all add: console_inv_def word_less_nat_alt word_le_nat_alt)
  have cx: "g_cx w < g_cols s" using r g(1) by (auto simp: w_def wrap_line_def word_less_nat_alt word_le_nat_alt)
  have "unat (g_rows s - 1) = unat (g_rows s) - 1" using r(2) by (metis unat_minus_one_lt unat_0 less_numeral_extra(3))
  then have "g_rows s - 1 < g_rows s" using r by (simp add: word_less_nat_alt)
  then show ?thesis using assms cx w
    by (auto simp: console_putchar_def w_def [symmetric] wrap_screen_def Let_def console_inv_def not_le)
qed

lemma console_write_inv:
  "console_inv s \<Longrightarrow> console_inv (fold (console_putchar ms f) str s)
     \<and> cursor_hidden_depth (fold (console_putchar ms f) str s) = cursor_hidden_depth s"
proof (induction str arbitrary: s)
  case (Cons c str)
  then show ?case using console_putchar_inv [OF Cons.prems, of ms f c] Cons.IH [of "console_putchar ms f c s"] by simp
qed simp

section \<open>Digits\<close>

definition digit_val :: "u8 \<Rightarrow> nat" where
  "digit_val c = (if c < 58 then unat c - 48 else unat c - 87)"

primrec number :: "nat \<Rightarrow> u8 list \<Rightarrow> nat" where
  "number b [] = 0"
| "number b (c # cs) = digit_val c + b * number b cs"

lemma digit_val_char: "d < 16 \<Longrightarrow> digit_val (digit_char d) = unat d"
proof -
  assume "d < (16 :: u64)"
  then have "unat d < 16" by (simp add: word_less_nat_alt)
  then have "unat d \<in> set [0..<16]" by simp
  moreover have "[0..<16] = [0, 1, 2, 3, 4, 5, 6, 7, 8, 9, 10, 11, 12, 13, 14, 15::nat]" by (simp add: upt_rec)
  ultimately have "unat d \<in> {0, 1, 2, 3, 4, 5, 6, 7, 8, 9, 10, 11, 12, 13, 14, 15}" by simp
  moreover have "d = of_nat (unat d)" by simp
  ultimately have "d \<in> {0, 1, 2, 3, 4, 5, 6, 7, 8, 9, 10, 11, 12, 13, 14, 15}" by (elim insertE emptyE) simp_all
  then show ?thesis by (elim insertE emptyE) (simp_all add: digit_char_def digit_val_def)
qed

lemma number_digits:
  assumes "2 \<le> base" "base \<le> (16 :: u64)"
  shows "number (unat base) (digits base val) = unat val"
proof (induction "unat val" arbitrary: val rule: less_induct)
  case less
  have b: "2 \<le> unat base" using assms by (simp add: word_le_nat_alt)
  show ?case
  proof (cases "val = 0")
    case True
    then show ?thesis by (simp add: digits.simps)
  next
    case False
    have nb: "\<not> base < 2" using assms(1) by simp
    have "unat (val div base) < unat val" using False b by (simp add: unat_div unat_gt_0)
    then have ih: "number (unat base) (digits base (val div base)) = unat val div unat base" using less by (simp add: unat_div)
    have "unat (val mod base) < unat base" using b by (simp add: unat_mod)
    moreover have "unat base \<le> 16" using assms(2) by (simp add: word_le_nat_alt)
    ultimately have "val mod base < 16" by (simp add: word_less_nat_alt)
    then show ?thesis using False nb ih by (simp add: digits.simps [of base val] digit_val_char unat_mod)
  qed
qed

lemma length_digits:
  "2 \<le> base \<Longrightarrow> unat val < unat base ^ n \<Longrightarrow> length (digits base val) \<le> n"
proof (induction n arbitrary: val)
  case 0
  then show ?case by (simp add: digits.simps unat_eq_0 [symmetric])
next
  case (Suc n)
  have "unat val div unat base < unat base ^ n" using Suc.prems(2) by (simp add: less_mult_imp_div_less mult.commute)
  then show ?case using Suc.IH [OF Suc.prems(1), of "val div base"] by (simp add: digits.simps [of base val] unat_div)
qed

section \<open>Properties\<close>

text \<open>C15: whatever is printed, control characters, line ends and scrolling included, the text cursor stays on the screen, and the mouse cursor is
  shown again as often as it is hidden.\<close>

theorem kprintf_cursor:
  assumes "console_inv s" and "kprintf ms font fmt args s = Some s'"
  shows "g_cx s' < g_cols s' \<and> g_cy s' < g_rows s' \<and> cursor_hidden_depth s' = cursor_hidden_depth s"
  using assms console_write_inv [OF assms(1), of ms font] by (auto simp: kprintf_def console_inv_def)

definition sample_console :: console where
  "sample_console = \<lparr>mouse_ready = False, cursor_hidden_depth = 0, g_fb = \<lparr>fb_base = 0x1000, fb_width = 16, fb_height = 32, fb_pitch = 64\<rparr>,
     g_pixels = 0x1000, g_cols = 2, g_rows = 2, g_cx = 1, g_cy = 1, g_stride = 16, fbmem = (\<lambda>_. 0)\<rparr>"

definition sample_mouse_ops :: mouse_ops where
  "sample_mouse_ops = \<lparr>mouse_hide_cursor = id, mouse_show_cursor = id, mouse_x = 0, mouse_y = 0\<rparr>"

theorem kprintf_cursor_witness:
  "\<exists>s'. kprintf sample_mouse_ops (\<lambda>_. replicate 16 0) [37, 100, 10] [Val 42] sample_console = Some s' \<and> g_cx s' < g_cols s' \<and> g_cy s' < g_rows s'"
proof -
  have inv: "console_inv sample_console" by (simp add: console_inv_def sample_console_def)
  obtain s' where k: "kprintf sample_mouse_ops (\<lambda>_. replicate 16 0) [37, 100, 10] [Val 42] sample_console = Some s'"
    by (simp add: kprintf_def)
  show ?thesis using kprintf_cursor [OF inv k] k by blast
qed

text \<open>the characters \<open>uint_to_buf\<close> produces in base 10 or 16 are the digits of the number, the highest first, without a
  leading zero for a number above 0, and there are at most 20 of them, the size of the local buffer.\<close>

theorem uint_to_buf_correct:
  assumes "base = 10 \<or> base = 16"
  shows "number (unat base) (rev (uint_to_buf val base)) = unat val \<and> 1 \<le> length (uint_to_buf val base) \<and> length (uint_to_buf val base) \<le> 20"
proof -
  have b: "2 \<le> base" "base \<le> 16" using assms by auto
  have v: "unat val < 18446744073709551616" using unat_lt_u64 [of val] by simp
  have "unat val < unat base ^ 20" using assms v by auto
  then have "length (digits base val) \<le> 20" by (rule length_digits [OF b(1)])
  moreover have "val \<noteq> 0 \<Longrightarrow> digits base val \<noteq> []" using b(1) by (simp add: digits.simps [of base val])
  ultimately show ?thesis using number_digits [OF b, of val]
    by (cases "val = 0") (auto simp: uint_to_buf_def digit_val_def Suc_le_eq)
qed

theorem uint_to_buf_witness: "uint_to_buf 255 16 = [102, 102] \<and> number 16 (rev (uint_to_buf 255 16)) = 255"
  using uint_to_buf_correct [of 16 255] by (simp add: uint_to_buf_def digits.simps digit_char_def)

end
