(* ===== verification/Syscall.thy ===== *)
theory Syscall
  imports Vfs Keyboard Console
begin

text \<open>
  The system calls of \<open>kernel/syscall.c\<close>.  The state joins the file system (with the scheduler, the heap and the page
  allocator below it), the console, the keyboard, the tick counter and the dispatch table.  Registers are 64-bit words,
  read as signed where the C code does.  A call returns a pair of its result and the new state; the result \<open>None\<close> is
  a call that has not returned: the task ended, waits for another task, or waits for a key.  The whole pair is
  \<open>None\<close> where a path string never ends or a lock is never released.

  The lemmas: which memory a call may change, and what an unknown call does.
\<close>

unbundle bit_operations_syntax

abbreviation (input) USER_ADDR_LIMIT :: u64 where "USER_ADDR_LIMIT \<equiv> 0x0000800000000000"
abbreviation (input) SYSCALL_MAX_LEN :: u64 where "SYSCALL_MAX_LEN \<equiv> 65536"
abbreviation (input) SYS_MAX :: nat where "SYS_MAX \<equiv> 14"

datatype syscall_fn = Exit | Write | Read | Yield | Getpid | Sleep | Open | Close | Stat | Getppid | Waitpid | Kill

record kernel = vfs +
  con :: console
  kbd :: keyboard
  ticks :: u64
  syscall_table :: "syscall_fn option list"

type_synonym sys_result = "(u64 option \<times> kernel) option"

section \<open>The calls\<close>

definition uptr_valid :: "u64 \<Rightarrow> u64 \<Rightarrow> bool" where
  "uptr_valid addr len \<longleftrightarrow> addr < USER_ADDR_LIMIT \<and> len \<le> USER_ADDR_LIMIT - addr"

text \<open>The C conversions \<open>(int)x\<close> and \<open>(int64_t)i\<close>.\<close>

definition to_int :: "u64 \<Rightarrow> int" where
  "to_int x = sint (ucast x :: u32)"

definition ret :: "int \<Rightarrow> kernel \<Rightarrow> sys_result" where
  "ret r s = Some (Some (word_of_int r), s)"

definition user_string :: "kernel \<Rightarrow> ptr \<Rightarrow> string option option" where
  "user_string s a =
     (if a = NULL then Some None
      else do {
        n \<leftarrow> strlen (memory s) a;
        Some (Some (map (\<lambda>i. char_of (unat (memory s (a + of_nat i)))) [0..<unat n])) })"

definition sys_exit :: "u64 \<Rightarrow> kernel \<Rightarrow> sys_result" where
  "sys_exit code s = do { s \<leftarrow> sched_exit (ticks s) (to_int code) s; Some (None, s) }"

definition clamp_len :: "u64 \<Rightarrow> u64" where
  "clamp_len len = (if SYSCALL_MAX_LEN < len then SYSCALL_MAX_LEN else len)"

definition sys_write :: "mouse_ops \<Rightarrow> (u8 \<Rightarrow> u8 list) \<Rightarrow> u64 \<Rightarrow> u64 \<Rightarrow> u64 \<Rightarrow> kernel \<Rightarrow> sys_result" where
  "sys_write ms font fd buf len s =
     (if sint len < 0 then ret (-1) s
      else let len = clamp_len len
           in if \<not> uptr_valid buf len then ret (-1) s
              else if fd = 1 \<or> fd = 2 then
                ret (int (unat len)) (s\<lparr>con := fold (console_putchar ms font) (map (\<lambda>i. memory s (buf + of_nat i)) [0..<unat len]) (con s)\<rparr>)
              else let (r, s) = vfs_write (to_int fd) buf len s in ret r s)"

definition sys_read :: "u64 \<Rightarrow> u64 \<Rightarrow> u64 \<Rightarrow> kernel \<Rightarrow> sys_result" where
  "sys_read fd buf len s =
     (if sint len \<le> 0 then ret (-1) s
      else let len = clamp_len len
           in if \<not> uptr_valid buf len then ret (-1) s
              else if fd = 0 then
                (case keyboard_getchar (kbd s) of
                   None \<Rightarrow> Some (None, s)
                 | Some (key, k) \<Rightarrow>
                     if key < 128 then ret 1 (s\<lparr>kbd := k, memory := (memory s)(buf := ucast key)\<rparr>)
                     else ret 0 (s\<lparr>kbd := k\<rparr>))
              else let (r, s) = vfs_read (to_int fd) buf len s in ret r s)"

definition sys_yield :: "kernel \<Rightarrow> sys_result" where
  "sys_yield s = do { s \<leftarrow> sched_yield (ticks s) s; ret 0 s }"

definition sys_getpid :: "kernel \<Rightarrow> sys_result" where
  "sys_getpid s = Some (Some (tid (task s (sched_current s))), s)"

definition sys_sleep :: "u64 \<Rightarrow> kernel \<Rightarrow> sys_result" where
  "sys_sleep n s = (if 0 < sint n then do { s \<leftarrow> sched_sleep (ticks s) n s; ret 0 s } else ret 0 s)"

definition sys_open :: "u64 \<Rightarrow> u64 \<Rightarrow> kernel \<Rightarrow> sys_result" where
  "sys_open path_addr create s =
     (if \<not> uptr_valid path_addr 1 then ret (-1) s
      else do {
        path \<leftarrow> user_string s path_addr;
        (r, s) \<leftarrow> vfs_open path (create \<noteq> 0) s;
        ret r s })"

definition sys_close :: "u64 \<Rightarrow> kernel \<Rightarrow> sys_result" where
  "sys_close fd s = (let (r, s) = vfs_close (to_int fd) s in ret r s)"

text \<open>The structure \<open>VfsStat\<close> in memory: the type in four bytes, the size at offset 8, the name, with its terminator, at 16.\<close>

definition put_stat :: "ptr \<Rightarrow> VfsStat \<Rightarrow> mem \<Rightarrow> mem" where
  "put_stat buf st m =
     (let t = (case st_type st of VFS_FILE \<Rightarrow> 0 | VFS_DIRECTORY \<Rightarrow> 1);
          m = m(buf := t, buf + 1 := 0, buf + 2 := 0, buf + 3 := 0);
          m = store64 m (buf + 8) (st_size st);
          name = map of_char (st_name st) @ [0]
      in (\<lambda>x. if within (buf + 16) (length name) x then name ! unat (x - (buf + 16)) else m x))"

definition sys_stat :: "u64 \<Rightarrow> u64 \<Rightarrow> kernel \<Rightarrow> sys_result" where
  "sys_stat path_addr buf s =
     (if \<not> uptr_valid path_addr 1 then ret (-1) s
      else if \<not> uptr_valid buf 80 then ret (-1) s
      else do {
        path \<leftarrow> user_string s path_addr;
        (case vfs_stat path s of
           None \<Rightarrow> ret (-1) s
         | Some st \<Rightarrow> ret 0 (s\<lparr>memory := put_stat buf st (memory s)\<rparr>)) })"

definition sys_getppid :: "kernel \<Rightarrow> sys_result" where
  "sys_getppid s = Some (Some (parent_id (task s (sched_current s))), s)"

definition sys_waitpid :: "u64 \<Rightarrow> kernel \<Rightarrow> sys_result" where
  "sys_waitpid pid s =
     (if sint pid \<le> 0 then ret (-1) s
      else do {
        (r, s) \<leftarrow> sched_wait (ticks s) pid s;
        (case r of NoTask \<Rightarrow> ret (-1) s | Exited code \<Rightarrow> ret code s | Waiting \<Rightarrow> Some (None, s)) })"

definition sys_kill :: "u64 \<Rightarrow> u64 \<Rightarrow> kernel \<Rightarrow> sys_result" where
  "sys_kill pid sig s =
     (if sint pid \<le> 0 then ret (-1) s
      else let (r, s) = sched_send_signal pid (to_int sig) s in ret r s)"

section \<open>Dispatch\<close>

text \<open>No call uses its fourth argument.\<close>

definition call_fn :: "mouse_ops \<Rightarrow> (u8 \<Rightarrow> u8 list) \<Rightarrow> syscall_fn \<Rightarrow> u64 \<Rightarrow> u64 \<Rightarrow> u64 \<Rightarrow> kernel \<Rightarrow> sys_result" where
  "call_fn ms font f a0 a1 a2 s = (case f of
     Exit \<Rightarrow> sys_exit a0 s | Write \<Rightarrow> sys_write ms font a0 a1 a2 s | Read \<Rightarrow> sys_read a0 a1 a2 s
   | Yield \<Rightarrow> sys_yield s | Getpid \<Rightarrow> sys_getpid s | Sleep \<Rightarrow> sys_sleep a0 s | Open \<Rightarrow> sys_open a0 a1 s
   | Close \<Rightarrow> sys_close a0 s | Stat \<Rightarrow> sys_stat a0 a1 s | Getppid \<Rightarrow> sys_getppid s
   | Waitpid \<Rightarrow> sys_waitpid a0 s | Kill \<Rightarrow> sys_kill a0 a1 s)"

definition syscall_dispatch :: "mouse_ops \<Rightarrow> (u8 \<Rightarrow> u8 list) \<Rightarrow> u64 \<Rightarrow> u64 \<Rightarrow> u64 \<Rightarrow> u64 \<Rightarrow> u64 \<Rightarrow> kernel \<Rightarrow> sys_result" where
  "syscall_dispatch ms font num a0 a1 a2 a3 s =
     (if SYS_MAX \<le> unat num then ret (-1) s
      else case syscall_table s ! unat num of
        None \<Rightarrow> ret (-1) s
      | Some f \<Rightarrow> call_fn ms font f a0 a1 a2 s)"

record InterruptFrame =
  fr_r15 :: u64
  fr_r14 :: u64
  fr_r13 :: u64
  fr_r12 :: u64
  fr_r11 :: u64
  fr_r10 :: u64
  fr_r9 :: u64
  fr_r8 :: u64
  fr_rbp :: u64
  fr_rsi :: u64
  fr_rdi :: u64
  fr_rdx :: u64
  fr_rcx :: u64
  fr_rbx :: u64
  fr_rax :: u64
  fr_int_no :: u64
  fr_error_code :: u64
  fr_rip :: u64
  fr_cs :: u64
  fr_rflags :: u64
  fr_rsp :: u64
  fr_ss :: u64

definition int80_handler :: "mouse_ops \<Rightarrow> (u8 \<Rightarrow> u8 list) \<Rightarrow> InterruptFrame \<Rightarrow> kernel \<Rightarrow> (InterruptFrame option \<times> kernel) option" where
  "int80_handler ms font fr s = do {
     (r, s) \<leftarrow> syscall_dispatch ms font (fr_rax fr) (fr_rdi fr) (fr_rsi fr) (fr_rdx fr) (fr_r10 fr) s;
     Some (map_option (\<lambda>v. fr\<lparr>fr_rax := v\<rparr>) r, s) }"

definition syscall_init :: "kernel \<Rightarrow> kernel" where
  "syscall_init s = s\<lparr>syscall_table := (syscall_table s)[0 := Some Exit, 1 := Some Write, 2 := Some Read, 3 := Some Yield,
     4 := Some Getpid, 5 := Some Sleep, 6 := Some Open, 7 := Some Close, 8 := Some Stat, 10 := Some Getppid,
     11 := Some Waitpid, 12 := Some Kill]\<rparr>"

section \<open>What a call may change\<close>

lemma uptr_valid_range:
  assumes "uptr_valid addr len"
  shows "unat addr + unat len \<le> 2 ^ 47"
proof -
  have "addr < USER_ADDR_LIMIT" "len \<le> USER_ADDR_LIMIT - addr" using assms by (auto simp: uptr_valid_def)
  then have "unat len \<le> unat (USER_ADDR_LIMIT - addr)" "unat (USER_ADDR_LIMIT - addr) = 2 ^ 47 - unat addr" "unat addr < 2 ^ 47"
    by (simp_all add: word_le_nat_alt word_less_nat_alt unat_sub_if')
  then show ?thesis by simp
qed

lemma memcpy_loop_outside: "\<not> within d n x \<Longrightarrow> memcpy_loop m d p n x = m x"
proof (induction n arbitrary: m d p)
  case 0
  then show ?case by simp
next
  case (Suc n)
  then have "x \<noteq> d" "\<not> within (d + 1) n x" by (auto simp: within_Suc)
  with Suc.IH show ?case by simp
qed

lemma vfs_read_outside:
  assumes "\<not> within buf (unat count) x"
  shows "memory (snd (vfs_read fd buf count s)) x = memory s x"
proof -
  have "\<not> within buf (unat (if a < count then a else count)) x" for a
    using assms by (auto simp: within_def word_less_nat_alt)
  then show ?thesis by (simp add: vfs_read_def Let_def memcpy_def memcpy_loop_outside)
qed

lemma clamp_len_le: "unat (clamp_len len) \<le> 65536" "unat (clamp_len len) \<le> unat len"
  by (auto simp: clamp_len_def word_less_nat_alt not_less)

lemma sys_read_memory:
  assumes "sys_read fd buf len s = Some (r, s')" "memory s' x \<noteq> memory s x"
  shows "within buf (unat (clamp_len len)) x \<and> uptr_valid buf (clamp_len len)"
proof -
  have v: "0 < sint len" "uptr_valid buf (clamp_len len)"
    using assms by (auto simp: sys_read_def ret_def Let_def split: if_splits)
  have l: "0 < unat (clamp_len len)"
    using v(1) by (auto simp: clamp_len_def unat_gt_0 split: if_splits)
  show ?thesis
  proof (cases "fd = 0")
    case True
    then have "x = buf" using assms v by (auto simp: sys_read_def ret_def Let_def split: option.splits if_splits)
    then show ?thesis using v(2) l by simp
  next
    case False
    then have "s' = snd (vfs_read (to_int fd) buf (clamp_len len) s)"
      using assms(1) v by (auto simp: sys_read_def ret_def Let_def split: prod.splits)
    then show ?thesis using vfs_read_outside assms(2) v(2) by metis
  qed
qed

text \<open>C18: \<open>sys_read\<close> writes only where the caller asked: a byte that changed lies inside the caller's buffer, within its first 65536
  bytes, and below the limit of user addresses, for every descriptor and every length and address, so also where their
  sum would overflow.\<close>

theorem sys_read_confined:
  assumes "sys_read fd buf len s = Some (r, s')" and "memory s' x \<noteq> memory s x"
  shows "unat buf \<le> unat x \<and> unat x < unat buf + min (unat len) 65536 \<and> unat x < 2 ^ 47"
proof -
  note w = sys_read_memory [OF assms]
  note r = uptr_valid_range [OF w [THEN conjunct2]]
  have "unat buf \<le> unat x \<and> unat x < unat buf + unat (clamp_len len)"
    using w r within_iff [of buf "unat (clamp_len len)" x] by simp
  moreover have "unat (clamp_len len) \<le> min (unat len) 65536" using clamp_len_le [of len] by simp
  ultimately show ?thesis using r by linarith
qed

definition sample_kernel :: kernel where
  "sample_kernel = vfs.extend (sample_vfs\<lparr>memory := (\<lambda>_. 0)\<rparr>)
     \<lparr>con = sample_console,
      kbd = \<lparr>kbd_buffer = replicate 256 97, kbd_read = 0, kbd_write = 1, shift_held = False, caps_on = False, ctrl_held = False,
             alt_held = False, numlock_on = False, extended = False\<rparr>,
      ticks = 0, syscall_table = replicate SYS_MAX None\<rparr>"

lemma sample_kernel_facts:
  "memory sample_kernel = (\<lambda>_. 0)" "syscall_table sample_kernel = replicate SYS_MAX None"
  "keyboard_getchar (kbd sample_kernel) = Some (97, (kbd sample_kernel)\<lparr>kbd_read := 1\<rparr>)"
  by (simp_all add: sample_kernel_def vfs.defs keyboard_getchar_def)

theorem sys_read_confined_witness:
  "\<exists>s'. sys_read 0 0x5000 10 sample_kernel = Some (Some 1, s') \<and> memory s' 0x5000 \<noteq> memory sample_kernel 0x5000
     \<and> (\<forall>x. memory s' x \<noteq> memory sample_kernel x \<longrightarrow> 0x5000 \<le> unat x \<and> unat x < 0x500A)"
proof -
  let ?s = "sample_kernel\<lparr>kbd := (kbd sample_kernel)\<lparr>kbd_read := 1\<rparr>, memory := (memory sample_kernel)(0x5000 := 97)\<rparr>"
  have "sys_read 0 0x5000 10 sample_kernel = Some (Some 1, ?s)"
    by (simp add: sys_read_def clamp_len_def uptr_valid_def ret_def sample_kernel_facts)
  moreover have "memory ?s 0x5000 \<noteq> memory sample_kernel 0x5000" by (simp add: sample_kernel_facts)
  ultimately show ?thesis using sys_read_confined [of 0 "0x5000" 10 sample_kernel "Some 1" ?s] by fastforce
qed

text \<open>A number that has no call is refused: \<open>syscall_dispatch\<close> returns -1 and changes nothing.  Besides the numbers from 14 on these
  are 9 and 13, which \<open>syscall.h\<close> names \<open>SYS_SBRK\<close> and \<open>SYS_SIGRETURN\<close>.\<close>

theorem unknown_syscall_refused:
  assumes "syscall_table s = replicate SYS_MAX None" and "num \<notin> {0, 1, 2, 3, 4, 5, 6, 7, 8, 10, 11, 12}"
  shows "syscall_dispatch ms font num a0 a1 a2 a3 (syscall_init s) = Some (Some (- 1), syscall_init s)"
proof (cases "unat num < SYS_MAX")
  case True
  have "unat num \<notin> {0, 1, 2, 3, 4, 5, 6, 7, 8, 10, 11, 12}"
    using assms(2) by (auto simp: word_unat_eq_iff)
  with True have "unat num = 9 \<or> unat num = 13" by (auto simp: eval_nat_numeral less_Suc_eq)
  then show ?thesis using assms(1)
    by (auto simp: syscall_dispatch_def syscall_init_def ret_def eval_nat_numeral)
next
  case False
  then show ?thesis by (simp add: syscall_dispatch_def ret_def)
qed

theorem unknown_syscall_refused_witness:
  "syscall_dispatch sample_mouse_ops (\<lambda>_. []) 9 4096 0 0 0 (syscall_init sample_kernel) = Some (Some (- 1), syscall_init sample_kernel)"
  by (rule unknown_syscall_refused) (simp_all add: sample_kernel_facts)

end
