(* ===== verification/Idt.thy ===== *)
theory Idt
  imports Syscall
begin

text \<open>
  The interrupt descriptor table and the dispatch of interrupts of \<open>kernel/interrupts/idt.c\<close>.  A gate is a record of its
  fields; a handler is one of the exception handlers of this file, or one that a driver registered, which is called
  through the argument \<open>ext\<close>.  The addresses of the assembly stubs are the argument \<open>stubs\<close>.  Bytes written to ports are
  appended to the list \<open>ports\<close>.  A panic is an outcome of its own: nothing runs after it.

  The lemmas: the gates decode to the stubs and only the system call gate is open to user tasks; a fault of a user task
  ends that task and never the kernel, two vectors excepted.
\<close>

unbundle bit_operations_syntax

abbreviation (input) IDT_ENTRIES :: nat where "IDT_ENTRIES \<equiv> 256"
abbreviation (input) GDT_KERNEL_CODE :: u16 where "GDT_KERNEL_CODE \<equiv> 0x08"

record IDTEntry =
  offset_lo :: u16
  selector :: u16
  gate_ist :: u8
  type_attr :: u8
  offset_mid :: u16
  offset_hi :: u32

record IDTR =
  idtr_limit :: u16
  idtr_base :: u64

datatype handler = Division | Breakpoint | Overflow | Bound_range | Invalid_opcode | Double_fault | Invalid_tss | Segment_np
  | Stack_fault | Gpf | Page_fault | Alignment_check | Simd | Registered nat

record irq = kernel +
  idt :: "IDTEntry list"
  handlers :: "handler option list"
  ports :: "(u16 \<times> u8) list"

datatype outcome = Running irq | Panicked string irq

type_synonym env = "mouse_ops \<times> (u8 \<Rightarrow> u8 list)"

section \<open>Gates\<close>

definition zero_gate :: IDTEntry where
  "zero_gate = \<lparr>offset_lo = 0, selector = 0, gate_ist = 0, type_attr = 0, offset_mid = 0, offset_hi = 0\<rparr>"

definition set_gate :: "nat \<Rightarrow> u64 \<Rightarrow> u8 \<Rightarrow> u8 \<Rightarrow> irq \<Rightarrow> irq" where
  "set_gate vector handler ist attr s =
     s\<lparr>idt := (idt s)[vector := \<lparr>offset_lo = ucast (handler AND 0xFFFF), selector = GDT_KERNEL_CODE, gate_ist = ist AND 7,
        type_attr = attr, offset_mid = ucast (drop_bit 16 handler AND 0xFFFF), offset_hi = ucast (drop_bit 32 handler AND 0xFFFFFFFF)\<rparr>]\<rparr>"

definition outb :: "u16 \<Rightarrow> u8 \<Rightarrow> irq \<Rightarrow> irq" where
  "outb port b s = s\<lparr>ports := ports s @ [(port, b)]\<rparr>"

definition pic_remap :: "irq \<Rightarrow> irq" where
  "pic_remap s = fold (\<lambda>(p, b). outb p b)
     [(0x20, 0x11), (0xA0, 0x11), (0x21, 0x20), (0xA1, 0x28), (0x21, 0x04), (0xA1, 0x02), (0x21, 0x01), (0xA1, 0x01),
      (0x21, 0xFF), (0xA1, 0xFF)] s"

section \<open>Exception handlers\<close>

definition bytes_of :: "string \<Rightarrow> u8 list" where
  "bytes_of t = map of_char t"

definition say :: "env \<Rightarrow> string \<Rightarrow> arg list \<Rightarrow> irq \<Rightarrow> irq option" where
  "say e fmt args s = do { c \<leftarrow> kprintf (fst e) (snd e) (bytes_of fmt) args (con s); Some (s\<lparr>con := c\<rparr>) }"

definition nl :: string where
  "nl = [CHR 0x0A]"

primrec say_all :: "env \<Rightarrow> (string \<times> arg list) list \<Rightarrow> irq \<Rightarrow> irq option" where
  "say_all e [] s = Some s"
| "say_all e (l # ls) s = do { s \<leftarrow> say e (fst l) (snd l) s; say_all e ls s }"

definition dump_registers :: "env \<Rightarrow> InterruptFrame \<Rightarrow> irq \<Rightarrow> irq option" where
  "dump_registers e f = say_all e
     [(''  RIP = 0x%lx  RSP = 0x%lx'' @ nl, [Val (fr_rip f), Val (fr_rsp f)]),
      (''  CS  = 0x%lx  SS  = 0x%lx'' @ nl, [Val (fr_cs f), Val (fr_ss f)]),
      (''  RAX = 0x%lx  RBX = 0x%lx'' @ nl, [Val (fr_rax f), Val (fr_rbx f)]),
      (''  RCX = 0x%lx  RDX = 0x%lx'' @ nl, [Val (fr_rcx f), Val (fr_rdx f)]),
      (''  RSI = 0x%lx  RDI = 0x%lx'' @ nl, [Val (fr_rsi f), Val (fr_rdi f)]),
      (''  RBP = 0x%lx  R8  = 0x%lx'' @ nl, [Val (fr_rbp f), Val (fr_r8 f)]),
      (''  R9  = 0x%lx  R10 = 0x%lx'' @ nl, [Val (fr_r9 f), Val (fr_r10 f)]),
      (''  R11 = 0x%lx  R12 = 0x%lx'' @ nl, [Val (fr_r11 f), Val (fr_r12 f)]),
      (''  R13 = 0x%lx  R14 = 0x%lx'' @ nl, [Val (fr_r13 f), Val (fr_r14 f)]),
      (''  R15 = 0x%lx  RFLAGS = 0x%lx'' @ nl, [Val (fr_r15 f), Val (fr_rflags f)]),
      (''  Error code = 0x%lx'' @ nl, [Val (fr_error_code f)])]"

definition str :: "string \<Rightarrow> arg" where
  "str t = Str (Some (bytes_of t))"

definition panic :: "env \<Rightarrow> string \<Rightarrow> irq \<Rightarrow> outcome option" where
  "panic e msg s = do {
     s \<leftarrow> say e (nl @ ''!!! KERNEL PANIC: %s !!!'' @ nl) [str msg] s;
     Some (Panicked msg (s\<lparr>rflags := cli (rflags s)\<rparr>)) }"

text \<open>The end that the handlers share: a user task is killed, a fault of the kernel is a panic.\<close>

definition kill_current :: "env \<Rightarrow> irq \<Rightarrow> outcome option" where
  "kill_current e s = do {
     s \<leftarrow> say e (''  Killing task: %s'' @ nl) [str (tname (task s (sched_current s)))] s;
     s \<leftarrow> sched_yield (ticks s) (set_task (sched_current s) (\<lambda>t. t\<lparr>state := TASK_DEAD\<rparr>) s);
     Some (Running s) }"

definition kill_or_panic :: "env \<Rightarrow> string \<Rightarrow> InterruptFrame \<Rightarrow> irq \<Rightarrow> outcome option" where
  "kill_or_panic e msg f s = (if fr_cs f AND 3 \<noteq> 0 then kill_current e s else panic e msg s)"

definition banner :: "string \<Rightarrow> string" where
  "banner title = nl @ ''*** '' @ title @ '' ***'' @ nl"

definition fault :: "env \<Rightarrow> string \<Rightarrow> string \<Rightarrow> InterruptFrame \<Rightarrow> irq \<Rightarrow> outcome option" where
  "fault e title msg f s = do {
     s \<leftarrow> say e (banner title) [] s;
     s \<leftarrow> dump_registers e f s;
     kill_or_panic e msg f s }"

definition fatal :: "env \<Rightarrow> string \<Rightarrow> string \<Rightarrow> InterruptFrame \<Rightarrow> irq \<Rightarrow> outcome option" where
  "fatal e title msg f s = do {
     s \<leftarrow> say e (banner title) [] s;
     s \<leftarrow> dump_registers e f s;
     panic e msg s }"

definition page_fault_handler :: "env \<Rightarrow> u64 \<Rightarrow> InterruptFrame \<Rightarrow> irq \<Rightarrow> outcome option" where
  "page_fault_handler e cr2 f s = do {
     s \<leftarrow> say e (banner ''PAGE FAULT'') [] s;
     s \<leftarrow> say e (''  Faulting address: 0x%lx'' @ nl) [Val cr2] s;
     s \<leftarrow> say e (''  Error: %s %s %s%s'' @ nl)
       [str (if fr_error_code f AND 1 \<noteq> 0 then ''protection-violation'' else ''not-present''),
        str (if fr_error_code f AND 2 \<noteq> 0 then ''write'' else ''read''),
        str (if fr_error_code f AND 4 \<noteq> 0 then ''user'' else ''kernel''),
        str (if fr_error_code f AND 16 \<noteq> 0 then '' instruction-fetch'' else [])] s;
     s \<leftarrow> dump_registers e f s;
     kill_or_panic e ''kernel page fault'' f s }"

definition gpf_handler :: "env \<Rightarrow> InterruptFrame \<Rightarrow> irq \<Rightarrow> outcome option" where
  "gpf_handler e = fault e ''GENERAL PROTECTION FAULT'' ''kernel GPF''"

definition double_fault_handler :: "env \<Rightarrow> InterruptFrame \<Rightarrow> irq \<Rightarrow> outcome option" where
  "double_fault_handler e = fatal e ''DOUBLE FAULT'' ''double fault''"

definition invalid_opcode_handler :: "env \<Rightarrow> InterruptFrame \<Rightarrow> irq \<Rightarrow> outcome option" where
  "invalid_opcode_handler e = fault e ''INVALID OPCODE'' ''invalid opcode''"

definition division_handler :: "env \<Rightarrow> InterruptFrame \<Rightarrow> irq \<Rightarrow> outcome option" where
  "division_handler e = fault e ''DIVISION BY ZERO'' ''division by zero''"

definition breakpoint_handler :: "env \<Rightarrow> InterruptFrame \<Rightarrow> irq \<Rightarrow> outcome option" where
  "breakpoint_handler e f s =
     (if fr_cs f AND 3 \<noteq> 0 then do {
        s \<leftarrow> say e (banner ''BREAKPOINT'') [] s;
        s \<leftarrow> dump_registers e f s;
        kill_current e s }
      else Some (Running s))"

definition overflow_handler :: "env \<Rightarrow> InterruptFrame \<Rightarrow> irq \<Rightarrow> outcome option" where
  "overflow_handler e = fault e ''OVERFLOW'' ''overflow exception''"

definition bound_range_handler :: "env \<Rightarrow> InterruptFrame \<Rightarrow> irq \<Rightarrow> outcome option" where
  "bound_range_handler e = fault e ''BOUND RANGE EXCEEDED'' ''bound range exceeded''"

definition invalid_tss_handler :: "env \<Rightarrow> InterruptFrame \<Rightarrow> irq \<Rightarrow> outcome option" where
  "invalid_tss_handler e = fatal e ''INVALID TSS'' ''invalid TSS''"

definition segment_np_handler :: "env \<Rightarrow> InterruptFrame \<Rightarrow> irq \<Rightarrow> outcome option" where
  "segment_np_handler e = fault e ''SEGMENT NOT PRESENT'' ''segment not present''"

definition stack_fault_handler :: "env \<Rightarrow> InterruptFrame \<Rightarrow> irq \<Rightarrow> outcome option" where
  "stack_fault_handler e = fault e ''STACK-SEGMENT FAULT'' ''stack-segment fault''"

definition alignment_check_handler :: "env \<Rightarrow> InterruptFrame \<Rightarrow> irq \<Rightarrow> outcome option" where
  "alignment_check_handler e = fault e ''ALIGNMENT CHECK'' ''alignment check''"

definition simd_handler :: "env \<Rightarrow> InterruptFrame \<Rightarrow> irq \<Rightarrow> outcome option" where
  "simd_handler e = fault e ''SIMD FLOATING-POINT EXCEPTION'' ''SIMD floating-point exception''"

section \<open>Dispatch\<close>

definition exception_names :: "string list" where
  "exception_names =
     [''Division by Zero'', ''Debug'', ''NMI'', ''Breakpoint'', ''Overflow'', ''Bound Range Exceeded'', ''Invalid Opcode'',
      ''Device Not Available'', ''Double Fault'', ''Coprocessor Segment Overrun'', ''Invalid TSS'', ''Segment Not Present'',
      ''Stack-Segment Fault'', ''General Protection Fault'', ''Page Fault'', ''Reserved'', ''x87 FP Exception'', ''Alignment Check'',
      ''Machine Check'', ''SIMD FP Exception'', ''Virtualisation'', ''Control Protection'', ''Reserved'', ''Reserved'', ''Reserved'',
      ''Reserved'', ''Reserved'', ''Reserved'', ''Hypervisor Injection'', ''VMM Communication'', ''Security Exception'', ''Reserved'']"

definition call_handler :: "env \<Rightarrow> u64 \<Rightarrow> (nat \<Rightarrow> InterruptFrame \<Rightarrow> irq \<Rightarrow> outcome option) \<Rightarrow> handler \<Rightarrow> InterruptFrame \<Rightarrow> irq \<Rightarrow> outcome option" where
  "call_handler e cr2 ext h = (case h of
     Division \<Rightarrow> division_handler e | Breakpoint \<Rightarrow> breakpoint_handler e | Overflow \<Rightarrow> overflow_handler e
   | Bound_range \<Rightarrow> bound_range_handler e | Invalid_opcode \<Rightarrow> invalid_opcode_handler e | Double_fault \<Rightarrow> double_fault_handler e
   | Invalid_tss \<Rightarrow> invalid_tss_handler e | Segment_np \<Rightarrow> segment_np_handler e | Stack_fault \<Rightarrow> stack_fault_handler e
   | Gpf \<Rightarrow> gpf_handler e | Page_fault \<Rightarrow> page_fault_handler e cr2 | Alignment_check \<Rightarrow> alignment_check_handler e
   | Simd \<Rightarrow> simd_handler e | Registered n \<Rightarrow> ext n)"

definition send_eoi :: "u64 \<Rightarrow> irq \<Rightarrow> irq" where
  "send_eoi vector s = outb 0x20 0x20 (if 40 \<le> vector then outb 0xA0 0x20 s else s)"

definition isr_dispatch :: "env \<Rightarrow> u64 \<Rightarrow> (nat \<Rightarrow> InterruptFrame \<Rightarrow> irq \<Rightarrow> outcome option) \<Rightarrow> InterruptFrame \<Rightarrow> irq \<Rightarrow> outcome option" where
  "isr_dispatch e cr2 ext f s =
     (let vector = fr_int_no f
      in case (if unat vector < IDT_ENTRIES then handlers s ! unat vector else None) of
           Some h \<Rightarrow> do {
             r \<leftarrow> call_handler e cr2 ext h f s;
             Some (case r of
               Running s \<Rightarrow> Running (if 32 \<le> vector \<and> vector < 48 then send_eoi vector s else s)
             | Panicked m s \<Rightarrow> Panicked m s) }
         | None \<Rightarrow>
             if vector < 32 then do {
               s \<leftarrow> say e (nl @ ''*** EXCEPTION %u: %s ***'' @ nl) [Val vector, str (exception_names ! unat vector)] s;
               s \<leftarrow> dump_registers e f s;
               kill_or_panic e ''unhandled exception'' f s }
             else Some (Running (send_eoi vector s)))"

definition idt_register_handler :: "u8 \<Rightarrow> nat \<Rightarrow> irq \<Rightarrow> irq" where
  "idt_register_handler vector h s = s\<lparr>handlers := (handlers s)[unat vector := Some (Registered h)]\<rparr>"

primrec gates :: "nat \<Rightarrow> u64 list \<Rightarrow> irq \<Rightarrow> irq" where
  "gates 0 stubs s = s"
| "gates (Suc i) stubs s = set_gate i (stubs ! i) (if i = 2 \<or> i = 8 then 1 else 0) 0x8E (gates i stubs s)"

definition idt_init :: "u64 \<Rightarrow> u64 list \<Rightarrow> irq \<Rightarrow> IDTR \<times> irq" where
  "idt_init idt_addr stubs s =
     (let s = s\<lparr>idt := replicate IDT_ENTRIES zero_gate, handlers := replicate IDT_ENTRIES None\<rparr>;
          s = pic_remap s;
          s = gates IDT_ENTRIES stubs s;
          s = set_gate 0x80 (stubs ! 0x80) 0 0xEE s;
          s = s\<lparr>handlers := (handlers s)[0 := Some Division, 3 := Some Breakpoint, 4 := Some Overflow, 5 := Some Bound_range,
               6 := Some Invalid_opcode, 8 := Some Double_fault, 10 := Some Invalid_tss, 11 := Some Segment_np,
               12 := Some Stack_fault, 13 := Some Gpf, 14 := Some Page_fault, 17 := Some Alignment_check, 19 := Some Simd]\<rparr>
      in (\<lparr>idtr_limit = 4095, idtr_base = idt_addr\<rparr>, s))"

section \<open>The table\<close>

text \<open>The target of a gate and the privilege level that may call it, as the processor reads them.\<close>

definition gate_target :: "IDTEntry \<Rightarrow> u64" where
  "gate_target g = ucast (offset_lo g) OR push_bit 16 (ucast (offset_mid g)) OR push_bit 32 (ucast (offset_hi g))"

definition gate_dpl :: "IDTEntry \<Rightarrow> u8" where
  "gate_dpl g = drop_bit 5 (type_attr g) AND 3"

lemma mask_bits: "(0xFFFF :: u64) = mask 16" "(0xFFFFFFFF :: u64) = mask 32"
  by (simp_all add: mask_eq_exp_minus_1)

lemma target_roundtrip:
  "ucast (ucast (a AND 0xFFFF) :: u16) OR push_bit 16 (ucast (ucast (drop_bit 16 a AND 0xFFFF) :: u16))
     OR push_bit 32 (ucast (ucast (drop_bit 32 a AND 0xFFFFFFFF) :: u32)) = (a :: u64)"
  unfolding mask_bits
proof (rule bit_word_eqI)
  fix n assume "n < LENGTH(64)"
  consider "n < 16" | "16 \<le> n" "n < 32" | "32 \<le> n" by linarith
  then show "bit (ucast (ucast (a AND mask 16) :: u16) OR push_bit 16 (ucast (ucast (drop_bit 16 a AND mask 16) :: u16))
     OR push_bit 32 (ucast (ucast (drop_bit 32 a AND mask 32) :: u32)) :: u64) n = bit a n"
    using \<open>n < LENGTH(64)\<close> by cases (auto simp: bit_simps less_diff_conv2)
qed

definition gate_for :: "u64 \<Rightarrow> nat \<Rightarrow> IDTEntry \<Rightarrow> bool" where
  "gate_for a i g \<longleftrightarrow> gate_target g = a \<and> selector g = GDT_KERNEL_CODE \<and> gate_ist g = (if i = 2 \<or> i = 8 then 1 else 0)"

lemma gates_idt:
  assumes "length (idt s) = IDT_ENTRIES" "n \<le> IDT_ENTRIES"
  shows "length (idt (gates n stubs s)) = IDT_ENTRIES
    \<and> (\<forall>i < n. gate_for (stubs ! i) i (idt (gates n stubs s) ! i) \<and> type_attr (idt (gates n stubs s) ! i) = 0x8E)
    \<and> handlers (gates n stubs s) = handlers s"
  using assms(2)
proof (induction n)
  case 0
  then show ?case using assms(1) by simp
next
  case (Suc n)
  then have IH: "length (idt (gates n stubs s)) = IDT_ENTRIES" "handlers (gates n stubs s) = handlers s"
    "\<forall>i < n. gate_for (stubs ! i) i (idt (gates n stubs s) ! i) \<and> type_attr (idt (gates n stubs s) ! i) = 0x8E" by simp_all
  have "gate_for (stubs ! i) i (idt (gates (Suc n) stubs s) ! i) \<and> type_attr (idt (gates (Suc n) stubs s) ! i) = 0x8E" if "i < Suc n" for i
  proof (cases "i = n")
    case True
    then show ?thesis using IH(1) Suc.prems by (simp add: set_gate_def gate_for_def gate_target_def target_roundtrip)
  next
    case False
    then show ?thesis using IH(3) that by (simp add: set_gate_def)
  qed
  then show ?case using IH by (simp add: set_gate_def)
qed

text \<open>after \<open>idt_init\<close> each of the 256 gates leads to its stub through the kernel's code segment, non-maskable interrupts and double
  faults on their own stack, and a user task can call none of them but the system call.\<close>

theorem idt_init_gates:
  assumes "idt_init a stubs s = (r, s')" and "i < IDT_ENTRIES"
  shows "gate_for (stubs ! i) i (idt s' ! i) \<and> (gate_dpl (idt s' ! i) = (if i = 0x80 then 3 else 0))"
proof -
  let ?s = "pic_remap (s\<lparr>idt := replicate IDT_ENTRIES zero_gate, handlers := replicate IDT_ENTRIES None\<rparr>)"
  have "length (idt ?s) = IDT_ENTRIES" by (simp add: pic_remap_def outb_def)
  note g = gates_idt [OF this order_refl, of stubs]
  have s': "idt s' = idt (set_gate 0x80 (stubs ! 0x80) 0 0xEE (gates IDT_ENTRIES stubs ?s))"
    using assms(1) by (auto simp: idt_init_def Let_def simp del: gates.simps)
  show ?thesis
  proof (cases "i = 0x80")
    case True
    have "gate_dpl (g\<lparr>type_attr := 0xEE\<rparr>) = 3" for g by (simp add: gate_dpl_def)
    then show ?thesis using g True
      by (simp add: s' set_gate_def gate_for_def gate_target_def gate_dpl_def target_roundtrip del: gates.simps)
  next
    case False
    then show ?thesis using g assms(2) by (simp add: s' set_gate_def gate_dpl_def del: gates.simps)
  qed
qed

definition sample_irq :: irq where
  "sample_irq = kernel.extend sample_kernel \<lparr>idt = [], handlers = [], ports = []\<rparr>"

theorem idt_init_gates_witness:
  "gate_for 7 14 (idt (snd (idt_init 0 (replicate 256 7) sample_irq)) ! 14)"
proof -
  obtain r s' where "idt_init 0 (replicate 256 7) sample_irq = (r, s')" by (cases "idt_init 0 (replicate 256 7) sample_irq")
  from idt_init_gates [OF this, of 14] show ?thesis by (simp add: \<open>idt_init 0 (replicate 256 7) sample_irq = (r, s')\<close> del: replicate.simps)
qed

section \<open>Messages return\<close>

definition returns :: "u8 list \<Rightarrow> arg list \<Rightarrow> bool" where
  "returns fmt args \<longleftrightarrow> format fmt args \<noteq> None"

lemma returns_simps [simp]:
  "returns [] args" "c \<noteq> 37 \<Longrightarrow> returns (c # fmt) args = returns fmt args"
  "returns (37 # 108 # 120 # fmt) (Val v # args) = returns fmt args" "returns (37 # 117 # fmt) (Val v # args) = returns fmt args"
  "returns (37 # 115 # fmt) (Str t # args) = returns fmt args"
  by (auto simp: returns_def split: option.splits)

lemma say_ok: "returns (bytes_of fmt) args \<Longrightarrow> \<exists>c. say e fmt args s = Some (s\<lparr>con := c\<rparr>)"
  by (auto simp: say_def kprintf_def returns_def)

lemma say_all_ok: "\<forall>l \<in> set ls. returns (bytes_of (fst l)) (snd l) \<Longrightarrow> \<exists>c. say_all e ls s = Some (s\<lparr>con := c\<rparr>)"
proof (induction ls arbitrary: s)
  case Nil
  show ?case by (rule exI [of _ "con s"]) simp
next
  case (Cons l ls)
  obtain c where c: "say e (fst l) (snd l) s = Some (s\<lparr>con := c\<rparr>)" using say_ok Cons.prems by (meson list.set_intros(1))
  with Cons.IH [of "s\<lparr>con := c\<rparr>"] Cons.prems show ?case by auto
qed

lemma dump_ok: "\<exists>c. dump_registers e f s = Some (s\<lparr>con := c\<rparr>)"
  unfolding dump_registers_def by (rule say_all_ok) (simp add: bytes_of_def nl_def)

section \<open>Faults of user tasks\<close>

text \<open>The task is marked dead and the scheduler runs another; the rest of the state is as it was, the console apart.\<close>

definition killed :: "irq \<Rightarrow> outcome option \<Rightarrow> bool" where
  "killed s r \<longleftrightarrow> (\<exists>c. r = map_option Running
     (sched_yield (ticks s) (set_task (current_task s) (\<lambda>t. t\<lparr>state := TASK_DEAD\<rparr>) (s\<lparr>con := c\<rparr>))))"

lemma killed_con: "killed (s\<lparr>con := c\<rparr>) r \<longleftrightarrow> killed s r"
  by (simp add: killed_def)

lemma kill_current_killed: "killed s (kill_current e s)"
proof -
  obtain c where c: "say e (''  Killing task: %s'' @ nl) [str (tname (task s (sched_current s)))] s = Some (s\<lparr>con := c\<rparr>)"
    using say_ok [of "''  Killing task: %s'' @ nl" "[str (tname (task s (sched_current s)))]" e s] by (auto simp: bytes_of_def nl_def str_def)
  show ?thesis unfolding killed_def kill_current_def c
    by (rule exI [of _ c]) (simp add: sched_current_def map_option_case split: option.splits)
qed

lemma dump_then:
  assumes "\<And>c. killed (s\<lparr>con := c\<rparr>) (k (s\<lparr>con := c\<rparr>))"
  shows "killed s (dump_registers e f s \<bind> k)"
  using dump_ok [of e f s] assms by (auto simp: killed_con)

lemma say_then:
  assumes "returns (bytes_of fmt) args" "\<And>c. killed (s\<lparr>con := c\<rparr>) (k (s\<lparr>con := c\<rparr>))"
  shows "killed s (say e fmt args s \<bind> k)"
  using say_ok [OF assms(1), of e s] assms(2) by (auto simp: killed_con)

lemma kill_or_panic_user: "fr_cs f AND 3 \<noteq> 0 \<Longrightarrow> killed s (kill_or_panic e msg f s)"
  by (simp add: kill_or_panic_def kill_current_killed)

lemma fault_user:
  assumes "fr_cs f AND 3 \<noteq> 0" "returns (bytes_of (banner title)) []"
  shows "killed s (fault e title msg f s)"
  unfolding fault_def by (intro say_then dump_then kill_or_panic_user assms)

lemmas fault_handlers = gpf_handler_def invalid_opcode_handler_def division_handler_def overflow_handler_def bound_range_handler_def
  segment_np_handler_def stack_fault_handler_def alignment_check_handler_def simd_handler_def

lemmas message = bytes_of_def banner_def nl_def str_def

lemma page_fault_user: "fr_cs f AND 3 \<noteq> 0 \<Longrightarrow> killed s (page_fault_handler e cr2 f s)"
  unfolding page_fault_handler_def by (intro say_then dump_then kill_or_panic_user) (simp_all add: message)

lemma breakpoint_user: "fr_cs f AND 3 \<noteq> 0 \<Longrightarrow> killed s (breakpoint_handler e f s)"
  unfolding breakpoint_handler_def by (simp, intro say_then dump_then kill_current_killed) (simp_all add: message)

lemma call_handler_user:
  assumes "fr_cs f AND 3 \<noteq> 0" "h \<noteq> Double_fault" "h \<noteq> Invalid_tss" "\<forall>n. h \<noteq> Registered n"
  shows "killed s (call_handler e cr2 ext h f s)"
  using assms by (cases h)
    (simp_all add: call_handler_def page_fault_user breakpoint_user fault_handlers fault_user message)

lemma gates_handlers: "handlers (gates n stubs s) = handlers s"
  by (induction n) (simp_all add: set_gate_def)

lemma idt_init_handlers:
  "handlers (snd (idt_init a stubs s)) = (replicate IDT_ENTRIES None)[0 := Some Division, 3 := Some Breakpoint, 4 := Some Overflow,
     5 := Some Bound_range, 6 := Some Invalid_opcode, 8 := Some Double_fault, 10 := Some Invalid_tss, 11 := Some Segment_np,
     12 := Some Stack_fault, 13 := Some Gpf, 14 := Some Page_fault, 17 := Some Alignment_check, 19 := Some Simd]"
  by (simp add: idt_init_def Let_def set_gate_def gates_handlers pic_remap_def outb_def del: gates.simps replicate.simps)

lemma builtin_handler:
  assumes "n < IDT_ENTRIES" "n \<noteq> 8" "n \<noteq> 10" "handlers (snd (idt_init a stubs s)) ! n = Some h"
  shows "h \<noteq> Double_fault \<and> h \<noteq> Invalid_tss \<and> (\<forall>k. h \<noteq> Registered k)"
  using assms by (auto simp: idt_init_handlers nth_list_update split: if_splits simp del: replicate.simps)


definition user_frame :: InterruptFrame where
  "user_frame = \<lparr>fr_r15 = 0, fr_r14 = 0, fr_r13 = 0, fr_r12 = 0, fr_r11 = 0, fr_r10 = 0, fr_r9 = 0, fr_r8 = 0, fr_rbp = 0, fr_rsi = 0,
     fr_rdi = 0, fr_rdx = 0, fr_rcx = 0, fr_rbx = 0, fr_rax = 0, fr_int_no = 13, fr_error_code = 0, fr_rip = 0x400000, fr_cs = 0x23,
     fr_rflags = 0x202, fr_rsp = 0x7000, fr_ss = 0x1B\<rparr>"


end
