(* ===== verification/Mouse.thy ===== *)
theory Mouse
  imports Console Sched
begin

text \<open>
  The PS/2 mouse driver of \<open>kernel/drivers/mouse.c\<close>: the packets, the position, and the cursor it draws into the
  framebuffer of the console.  What the ports deliver are arguments; what is written to them is a list of port and byte.

  The lemmas: the position stays on the screen, and erasing the cursor restores the picture.
\<close>

unbundle bit_operations_syntax

abbreviation (input) CURSOR_W :: nat where "CURSOR_W \<equiv> 8"
abbreviation (input) CURSOR_H :: nat where "CURSOR_H \<equiv> 12"

definition cursor_bitmap :: "u8 list list" where
  "cursor_bitmap =
    [[2,0,0,0,0,0,0,0],
     [2,2,0,0,0,0,0,0],
     [2,1,2,0,0,0,0,0],
     [2,1,1,2,0,0,0,0],
     [2,1,1,1,2,0,0,0],
     [2,1,1,1,1,2,0,0],
     [2,1,1,1,1,1,2,0],
     [2,1,1,1,1,1,1,2],
     [2,1,1,1,1,2,2,0],
     [2,1,2,2,1,2,0,0],
     [2,2,0,0,2,1,2,0],
     [0,0,0,0,0,2,0,0]]"

type_synonym cell = "nat \<times> nat"

text \<open>The positions are 32-bit integers; the theorems show that they never leave the screen, so that they do not overflow.\<close>

record mouse =
  mouse_px :: int
  mouse_py :: int
  btn_left :: bool
  btn_right :: bool
  btn_middle :: bool
  last_dx :: int
  last_dy :: int
  screen_w :: u32
  screen_h :: u32
  packet :: "u8 list"
  packet_idx :: nat
  saved_under :: "cell \<Rightarrow> u32"
  saved_cx :: int
  saved_cy :: int
  cursor_visible :: bool

section \<open>Drawing the cursor\<close>

definition load32 :: "mem \<Rightarrow> ptr \<Rightarrow> u32" where
  "load32 m a = ucast (m a) OR push_bit 8 (ucast (m (a + 1))) OR push_bit 16 (ucast (m (a + 2))) OR push_bit 24 (ucast (m (a + 3)))"

text \<open>The cells of the loops over \<open>y\<close> and \<open>x\<close>, and the address of a pixel: its index is computed in 32 bits.\<close>

definition cells :: "cell list" where
  "cells = List.product [0..<CURSOR_H] [0..<CURSOR_W]"

definition off_screen :: "int \<Rightarrow> int \<Rightarrow> cell \<Rightarrow> mouse \<Rightarrow> bool" where
  "off_screen cx cy c s \<longleftrightarrow> cx + int (snd c) < 0 \<or> sint (screen_w s) \<le> cx + int (snd c)
     \<or> cy + int (fst c) < 0 \<or> sint (screen_h s) \<le> cy + int (fst c)"

definition pixel :: "ptr \<Rightarrow> u32 \<Rightarrow> int \<Rightarrow> int \<Rightarrow> cell \<Rightarrow> ptr" where
  "pixel pixels pitch cx cy c =
     pixels + 4 * ucast (word_of_int (cy + int (fst c)) * pitch + word_of_int (cx + int (snd c)) :: u32)"

definition draw_cell :: "ptr \<Rightarrow> u32 \<Rightarrow> int \<Rightarrow> int \<Rightarrow> cell \<Rightarrow> mouse \<times> mem \<Rightarrow> mouse \<times> mem" where
  "draw_cell pixels pitch cx cy c = (\<lambda>(s, m).
     if off_screen cx cy c s then (s\<lparr>saved_under := (saved_under s)(c := 0)\<rparr>, m)
     else let a = pixel pixels pitch cx cy c; v = cursor_bitmap ! fst c ! snd c
          in (s\<lparr>saved_under := (saved_under s)(c := load32 m a)\<rparr>,
              if v = 1 then store32 m a 0x00FFFFFF else if v = 2 then store32 m a 0 else m))"

definition draw_cursor :: "int \<Rightarrow> int \<Rightarrow> console \<Rightarrow> mouse \<times> mem \<Rightarrow> mouse \<times> mem" where
  "draw_cursor cx cy con sm =
     (let (s, m) = fold (draw_cell (console_get_pixels con) (console_get_pitch con div 4) cx cy) cells sm
      in (s\<lparr>saved_cx := cx, saved_cy := cy, cursor_visible := True\<rparr>, m))"

definition erase_cell :: "ptr \<Rightarrow> u32 \<Rightarrow> mouse \<Rightarrow> cell \<Rightarrow> mem \<Rightarrow> mem" where
  "erase_cell pixels pitch s c m =
     (if off_screen (saved_cx s) (saved_cy s) c s then m
      else if cursor_bitmap ! fst c ! snd c \<noteq> 0 then store32 m (pixel pixels pitch (saved_cx s) (saved_cy s) c) (saved_under s c)
      else m)"

definition erase_cursor :: "console \<Rightarrow> mouse \<times> mem \<Rightarrow> mouse \<times> mem" where
  "erase_cursor con sm =
     (let (s, m) = sm
      in if \<not> cursor_visible s then (s, m)
         else (s\<lparr>cursor_visible := False\<rparr>, fold (erase_cell (console_get_pixels con) (console_get_pitch con div 4) s) cells m))"

section \<open>The interrupt handler\<close>

definition clamp :: "int \<Rightarrow> u32 \<Rightarrow> int" where
  "clamp p w = (let p = (if p < 0 then 0 else p) in if sint w \<le> p then sint (w - 1) else p)"

definition delta :: "u8 \<Rightarrow> bool \<Rightarrow> int" where
  "delta b neg = int (unat b) - (if neg then 256 else 0)"

text \<open>\<open>redraw\<close> is the last part of the handler, where the console is not writing; a full packet is processed by \<open>mouse_packet\<close>.\<close>

definition redraw :: "console \<Rightarrow> mouse \<times> mem \<Rightarrow> mouse \<times> mem" where
  "redraw con sm = (if console_is_writing con then sm
     else let sm = erase_cursor con sm in draw_cursor (mouse_px (fst sm)) (mouse_py (fst sm)) con sm)"

definition mouse_packet :: "console \<Rightarrow> mouse \<times> mem \<Rightarrow> mouse \<times> mem" where
  "mouse_packet con sm =
     (let (s, m) = sm; flags = packet s ! 0
      in if flags AND 0xC0 \<noteq> 0 then (s, m)
         else if flags AND 0x08 = 0 then (s, m)
         else let dx = delta (packet s ! 1) (flags AND 0x10 \<noteq> 0);
                  dy = delta (packet s ! 2) (flags AND 0x20 \<noteq> 0);
                  s = s\<lparr>btn_left := flags AND 1 \<noteq> 0, btn_right := flags AND 2 \<noteq> 0, btn_middle := flags AND 4 \<noteq> 0,
                        last_dx := signed_take_bit 7 dx, last_dy := signed_take_bit 7 dy,
                        mouse_px := clamp (mouse_px s + dx) (screen_w s),
                        mouse_py := clamp (mouse_py s - dy) (screen_h s)\<rparr>
              in redraw con (s, m))"

definition mouse_handler :: "u8 \<Rightarrow> u8 \<Rightarrow> console \<Rightarrow> mouse \<Rightarrow> mouse \<times> console" where
  "mouse_handler status data con s =
     (if status AND 0x20 = 0 then (s, con)
      else let s = s\<lparr>packet := (packet s)[packet_idx s := data], packet_idx := packet_idx s + 1\<rparr>
           in if packet_idx s < 3 then (s, con)
              else let (s, m) = mouse_packet con (s\<lparr>packet_idx := 0\<rparr>, fbmem con) in (s, con\<lparr>fbmem := m\<rparr>))"

section \<open>The interface\<close>

text \<open>The bytes that \<open>mouse_init\<close> writes to the controller and to the mouse, in their order; \<open>config\<close> is the configuration byte it
  reads, \<open>slave\<close> and \<open>master\<close> the interrupt masks.  Waiting for the controller ends with it ready or after a bounded number of polls.\<close>

definition mouse_write :: "u8 \<Rightarrow> (u16 \<times> u8) list" where
  "mouse_write b = [(0x64, 0xD4), (0x60, b)]"

definition mouse_init :: "u8 \<Rightarrow> u8 \<Rightarrow> u8 \<Rightarrow> console \<Rightarrow> mouse \<Rightarrow> (u16 \<times> u8) list \<times> mouse \<times> console" where
  "mouse_init config slave master con s =
     (let (w, h) = console_get_screen_size con;
          s = s\<lparr>screen_w := w, screen_h := h, mouse_px := sint (w div 2), mouse_py := sint (h div 2),
               btn_left := False, btn_right := False, btn_middle := False, last_dx := 0, last_dy := 0,
               packet_idx := 0, cursor_visible := False\<rparr>;
          out = [(0x64, 0xA8), (0x64, 0x20), (0x64, 0x60), (0x60, (config OR 0x02) AND NOT 0x20)]
                @ mouse_write 0xFF @ mouse_write 0xF6 @ mouse_write 0xF4
                @ [(0xA1, slave AND NOT 0x10), (0x21, master AND NOT 0x04)];
          (s, m) = draw_cursor (mouse_px s) (mouse_py s) con (s, fbmem con)
      in (out, s, console_set_mouse_ready (con\<lparr>fbmem := m\<rparr>)))"

record MouseState =
  st_x :: int
  st_y :: int
  st_left :: bool
  st_right :: bool
  st_middle :: bool
  st_dx :: int
  st_dy :: int

definition mouse_get_state :: "mouse \<Rightarrow> MouseState" where
  "mouse_get_state s = \<lparr>st_x = mouse_px s, st_y = mouse_py s, st_left = btn_left s, st_right = btn_right s, st_middle = btn_middle s,
     st_dx = last_dx s, st_dy = last_dy s\<rparr>"

definition mouse_hide :: "console \<Rightarrow> u64 \<times> mouse \<times> mem \<Rightarrow> u64 \<times> mouse \<times> mem" where
  "mouse_hide con = (\<lambda>(rf, sm). (sti (cli rf), erase_cursor con sm))"

definition mouse_show :: "console \<Rightarrow> u64 \<times> mouse \<times> mem \<Rightarrow> u64 \<times> mouse \<times> mem" where
  "mouse_show con = (\<lambda>(rf, s, m).
     (sti (cli rf), if \<not> cursor_visible s then draw_cursor (mouse_px s) (mouse_py s) con (s, m) else (s, m)))"

section \<open>The position\<close>

definition mouse_inv :: "mouse \<Rightarrow> bool" where [inv_defs]:
  "mouse_inv s \<longleftrightarrow> 0 \<le> mouse_px s \<and> mouse_px s < sint (screen_w s) \<and> 0 \<le> mouse_py s \<and> mouse_py s < sint (screen_h s)
     \<and> packet_idx s < 3 \<and> length (packet s) = 3"

lemma sint_minus_one: "0 < sint (w :: u32) \<Longrightarrow> sint (w - 1) = sint w - 1"
proof -
  assume w: "0 < sint w"
  have "sint w < 2 ^ 31" using sint_lt [of w] by simp
  then show ?thesis using w by (simp add: sint_word_ariths signed_take_bit_int_eq_self)
qed

lemma clamp_bounds: "0 < sint w \<Longrightarrow> 0 \<le> clamp p w \<and> clamp p w < sint w"
  by (simp add: clamp_def sint_minus_one)

lemma draw_cell_fst: "\<exists>u. fst (draw_cell p w cx cy c sm) = (fst sm)\<lparr>saved_under := u\<rparr>"
  by (cases sm) (auto simp: draw_cell_def Let_def)

lemma draw_fold_fst: "\<exists>u. fst (fold (draw_cell p w cx cy) cs sm) = (fst sm)\<lparr>saved_under := u\<rparr>"
proof (induction cs arbitrary: sm)
  case Nil
  show ?case by (rule exI [of _ "saved_under (fst sm)"]) simp
next
  case (Cons c cs)
  obtain u where "fst (draw_cell p w cx cy c sm) = (fst sm)\<lparr>saved_under := u\<rparr>" using draw_cell_fst by blast
  with Cons [of "draw_cell p w cx cy c sm"] show ?case by auto
qed

lemma draw_cursor_fst:
  "\<exists>u. fst (draw_cursor cx cy con sm) = (fst sm)\<lparr>saved_under := u, saved_cx := cx, saved_cy := cy, cursor_visible := True\<rparr>"
  using draw_fold_fst [of "console_get_pixels con" "console_get_pitch con div 4" cx cy cells sm]
  by (auto simp: draw_cursor_def split_beta Let_def)

lemma erase_cursor_fst: "fst (erase_cursor con sm) = (fst sm)\<lparr>cursor_visible := False\<rparr>"
  by (cases sm) (simp add: erase_cursor_def)

lemma redraw_pos:
  "mouse_px (fst (redraw con sm)) = mouse_px (fst sm)" "mouse_py (fst (redraw con sm)) = mouse_py (fst sm)"
  "screen_w (fst (redraw con sm)) = screen_w (fst sm)" "screen_h (fst (redraw con sm)) = screen_h (fst sm)"
  "packet_idx (fst (redraw con sm)) = packet_idx (fst sm)" "packet (fst (redraw con sm)) = packet (fst sm)"
proof -
  obtain u where "fst (draw_cursor (mouse_px (fst sm)) (mouse_py (fst sm)) con (erase_cursor con sm))
     = (fst (erase_cursor con sm))\<lparr>saved_under := u, saved_cx := mouse_px (fst sm), saved_cy := mouse_py (fst sm), cursor_visible := True\<rparr>"
    using draw_cursor_fst by blast
  then show "mouse_px (fst (redraw con sm)) = mouse_px (fst sm)" "mouse_py (fst (redraw con sm)) = mouse_py (fst sm)"
    "screen_w (fst (redraw con sm)) = screen_w (fst sm)" "screen_h (fst (redraw con sm)) = screen_h (fst sm)"
    "packet_idx (fst (redraw con sm)) = packet_idx (fst sm)" "packet (fst (redraw con sm)) = packet (fst sm)"
    by (simp_all add: redraw_def Let_def erase_cursor_fst)
qed

lemma mouse_packet_inv:
  assumes "mouse_inv (fst sm)"
  shows "mouse_inv (fst (mouse_packet con sm))"
proof -
  obtain s m where sm: "sm = (s, m)" by (cases sm)
  have "0 < sint (screen_w s)" "0 < sint (screen_h s)" using assms by (simp_all add: sm mouse_inv_def)
  then show ?thesis using assms by (simp add: sm mouse_packet_def Let_def mouse_inv_def redraw_pos clamp_bounds)
qed

lemma mouse_handler_keeps:
  assumes "mouse_inv s"
  shows "mouse_inv (fst (mouse_handler st d con s))"
proof -
  let ?s = "s\<lparr>packet := (packet s)[packet_idx s := d], packet_idx := packet_idx s + 1\<rparr>"
  have "mouse_inv (?s\<lparr>packet_idx := 0\<rparr>)" using assms by (simp add: mouse_inv_def)
  then have "mouse_inv (fst (mouse_packet con (?s\<lparr>packet_idx := 0\<rparr>, fbmem con)))" by (intro mouse_packet_inv) simp
  then show ?thesis using assms by (simp add: mouse_handler_def Let_def split_beta) (simp add: mouse_inv_def)
qed

lemma mouse_run_keeps: "mouse_inv s \<Longrightarrow> mouse_inv (fst (fold (\<lambda>(st, d) (s, con). mouse_handler st d con s) bytes (s, con)))"
proof (induction bytes arbitrary: s con)
  case Nil
  then show ?case by simp
next
  case (Cons b bs)
  obtain st d where b: "b = (st, d)" by (cases b)
  show ?case using Cons.IH [OF mouse_handler_keeps [OF Cons.prems, of st d con], of "snd (mouse_handler st d con s)"] by (simp add: b)
qed

lemma sint_small: "unat (w :: u32) < 2 ^ 31 \<Longrightarrow> sint w = int (unat w)"
proof -
  assume "unat w < 2 ^ 31"
  then have "int (unat w) < int (2 ^ 31)" by (simp only: of_nat_less_iff)
  then have "uint w < 2 ^ 31" by simp
  moreover have "- (2 ^ 31) \<le> uint w" by (rule order_trans [of _ 0]) simp_all
  ultimately have "signed_take_bit 31 (uint w) = uint w" by (intro signed_take_bit_int_eq_self)
  then show ?thesis by (simp add: sint_uint)
qed

lemma sint_pos: "0 < sint (w :: u32) \<Longrightarrow> sint w = int (unat w) \<and> unat w < 2 ^ 31"
proof -
  assume w: "0 < sint w"
  have lt: "uint w < 2 ^ 32" using uint_bounded [of w] by simp
  have "sint w = uint w - 2 ^ 32 * of_bool (bit (uint w) 31)"
    using lt by (simp add: sint_uint signed_take_bit_eq_take_bit_minus take_bit_int_eq_self)
  with w lt have "sint w = uint w" by (cases "bit (uint w) 31") simp_all
  moreover from this have "int (unat w) < int (2 ^ 31)" using sint_lt [of w] by simp
  then have "unat w < 2 ^ 31" by (simp only: of_nat_less_iff)
  ultimately show ?thesis by simp
qed

lemma sint_half: "0 < sint (w :: u32) \<Longrightarrow> 0 \<le> sint (w div 2) \<and> sint (w div 2) < sint w"
proof -
  assume p: "0 < sint w"
  then have w: "sint w = int (unat w)" "unat w < 2 ^ 31" using sint_pos by blast+
  then have "0 < unat w" using p by (metis of_nat_0_less_iff)
  have u: "unat (w div 2) = unat w div 2" by (simp add: unat_div)
  then have "unat (w div 2) < 2 ^ 31" using w(2) by simp
  then have "sint (w div 2) = int (unat w div 2)" using sint_small [of "w div 2"] u by metis
  then show ?thesis using w(1) \<open>0 < unat w\<close> by linarith
qed

lemma mouse_init_inv:
  assumes "0 < sint (fb_width (g_fb con))" "0 < sint (fb_height (g_fb con))" "length (packet s) = 3"
  shows "mouse_inv (fst (snd (mouse_init c sl ma con s)))"
proof -
  let ?w = "fb_width (g_fb con)" and ?h = "fb_height (g_fb con)"
  let ?s = "s\<lparr>screen_w := ?w, screen_h := ?h, mouse_px := sint (?w div 2), mouse_py := sint (?h div 2),
               btn_left := False, btn_right := False, btn_middle := False, last_dx := 0, last_dy := 0,
               packet_idx := 0, cursor_visible := False\<rparr>"
  obtain u where "fst (draw_cursor (mouse_px ?s) (mouse_py ?s) con (?s, fbmem con))
    = ?s\<lparr>saved_under := u, saved_cx := mouse_px ?s, saved_cy := mouse_py ?s, cursor_visible := True\<rparr>"
    using draw_cursor_fst [of "mouse_px ?s" "mouse_py ?s" con "(?s, fbmem con)"] by (auto simp del: mouse.simps)
  then show ?thesis using assms sint_half
    by (simp add: mouse_init_def console_get_screen_size_def split_beta Let_def) (simp add: mouse_inv_def)
qed

text \<open>the mouse never leaves the screen.  After \<open>mouse_init\<close> on a screen that has pixels, whatever sequence of bytes the
  interrupts deliver, the position lies on the screen and the packet buffer is never overrun.\<close>

theorem mouse_stays_on_screen:
  assumes "0 < sint (fb_width (g_fb con))" and "0 < sint (fb_height (g_fb con))" and "length (packet s) = 3"
  shows "mouse_inv (fst (fold (\<lambda>(status, data) (s, con). mouse_handler status data con s) input (snd (mouse_init config slave master con s))))"
  using mouse_run_keeps [OF mouse_init_inv [OF assms]] by (metis prod.collapse)

definition sample_mouse :: mouse where
  "sample_mouse = \<lparr>mouse_px = 0, mouse_py = 0, btn_left = False, btn_right = False, btn_middle = False, last_dx = 0, last_dy = 0,
     screen_w = 0, screen_h = 0, packet = [0, 0, 0], packet_idx = 0, saved_under = (\<lambda>_. 0), saved_cx = -1, saved_cy = -1,
     cursor_visible = False\<rparr>"

theorem mouse_stays_on_screen_witness:
  "mouse_inv (fst (fold (\<lambda>(status, data) (s, con). mouse_handler status data con s) [(0x20, 0x18), (0x20, 0), (0x20, 0xFF)]
     (snd (mouse_init 0 0xFF 0xFF sample_console sample_mouse))))"
  by (rule mouse_stays_on_screen) (simp_all add: sample_console_def sample_mouse_def)

section \<open>Erasing restores the picture\<close>

lemma within_4: "within a 4 x \<longleftrightarrow> x = a \<or> x = a + 1 \<or> x = a + 2 \<or> x = a + 3"
proof
  assume "within a 4 x"
  then obtain i where "i < 4" "x = a + of_nat i" by (auto dest: within_ex)
  then show "x = a \<or> x = a + 1 \<or> x = a + 2 \<or> x = a + 3" by (auto simp: eval_nat_numeral less_Suc_eq)
qed (auto simp: within_def)

lemma store32_apply: "store32 m a v x = (if within a 4 x then ucast (drop_bit (8 * unat (x - a)) v) else m x)"
  by (auto simp: store32_def within_4)

lemma load32_byte:
  assumes "within a 4 x"
  shows "ucast (drop_bit (8 * unat (x - a)) (load32 m a)) = m x"
proof -
  have b: "ucast (drop_bit 0 (load32 m a)) = m a" "ucast (drop_bit 8 (load32 m a)) = m (a + 1)"
    "ucast (drop_bit 16 (load32 m a)) = m (a + 2)" "ucast (drop_bit 24 (load32 m a)) = m (a + 3)"
    by (rule bit_word_eqI, auto simp: load32_def bit_simps not_bit_u8)+
  show ?thesis using assms b by (auto simp: within_4)
qed

lemma load32_cong: "(\<And>x. within a 4 x \<Longrightarrow> m x = m' x) \<Longrightarrow> load32 m a = load32 m' a"
  by (simp add: load32_def within_4)

definition drawn :: "int \<Rightarrow> int \<Rightarrow> mouse \<Rightarrow> cell \<Rightarrow> bool" where
  "drawn cx cy s c \<longleftrightarrow> \<not> off_screen cx cy c s \<and> cursor_bitmap ! fst c ! snd c \<noteq> 0"

definition apart :: "ptr \<Rightarrow> u32 \<Rightarrow> int \<Rightarrow> int \<Rightarrow> mouse \<Rightarrow> cell set \<Rightarrow> bool" where
  "apart p w cx cy s C \<longleftrightarrow> (\<forall>c \<in> C. \<forall>d \<in> C. \<forall>x. \<not> off_screen cx cy c s \<longrightarrow> \<not> off_screen cx cy d s \<longrightarrow>
     within (pixel p w cx cy c) 4 x \<longrightarrow> within (pixel p w cx cy d) 4 x \<longrightarrow> c = d)"

lemma draw_fold:
  assumes "distinct cs" "apart p w cx cy s (set cs)"
  shows "(\<forall>c \<in> set cs. \<not> off_screen cx cy c s \<longrightarrow> saved_under (fst (fold (draw_cell p w cx cy) cs (s, m))) c = load32 m (pixel p w cx cy c))
    \<and> (\<forall>c. c \<notin> set cs \<longrightarrow> saved_under (fst (fold (draw_cell p w cx cy) cs (s, m))) c = saved_under s c)
    \<and> (\<forall>x. (\<forall>c \<in> set cs. drawn cx cy s c \<longrightarrow> \<not> within (pixel p w cx cy c) 4 x) \<longrightarrow> snd (fold (draw_cell p w cx cy) cs (s, m)) x = m x)"
  using assms
proof (induction cs arbitrary: s m)
  case Nil
  then show ?case by simp
next
  case (Cons c cs)
  obtain s1 m1 where d: "draw_cell p w cx cy c (s, m) = (s1, m1)" by (cases "draw_cell p w cx cy c (s, m)")
  have off: "off_screen cx cy e s1 = off_screen cx cy e s" for e
    using d by (auto simp: draw_cell_def off_screen_def Let_def split: if_splits)
  have dr: "drawn cx cy s1 e = drawn cx cy s e" for e by (simp add: drawn_def off)
  have sv: "e \<noteq> c \<Longrightarrow> saved_under s1 e = saved_under s e" "\<not> off_screen cx cy c s \<Longrightarrow> saved_under s1 c = load32 m (pixel p w cx cy c)" for e
    using d by (auto simp: draw_cell_def Let_def split: if_splits)
  have m1: "m1 x = m x" if "drawn cx cy s c \<longrightarrow> \<not> within (pixel p w cx cy c) 4 x" for x
    using d that by (auto simp: draw_cell_def drawn_def Let_def store32_apply split: if_splits)
  have ap: "apart p w cx cy s1 (set cs)" using Cons.prems(2) by (simp add: apart_def off)
  note IH = Cons.IH [OF _ ap, of m1]
  have same: "load32 m1 (pixel p w cx cy e) = load32 m (pixel p w cx cy e)" if "e \<in> set cs" "\<not> off_screen cx cy e s" for e
  proof (rule load32_cong)
    fix x assume x: "within (pixel p w cx cy e) 4 x"
    have "e \<noteq> c" using that(1) Cons.prems(1) by auto
    then have "drawn cx cy s c \<longrightarrow> \<not> within (pixel p w cx cy c) 4 x"
      using Cons.prems(2) x that unfolding apart_def drawn_def by auto
    then show "m1 x = m x" by (rule m1)
  qed
  have r: "fold (draw_cell p w cx cy) (c # cs) (s, m) = fold (draw_cell p w cx cy) cs (s1, m1)" by (simp add: d)
  have dist: "distinct cs" "c \<notin> set cs" using Cons.prems(1) by simp_all
  note IH = IH [OF dist(1), unfolded off dr]
  have "saved_under (fst (fold (draw_cell p w cx cy) cs (s1, m1))) e = load32 m (pixel p w cx cy e)"
    if "e \<in> set (c # cs)" "\<not> off_screen cx cy e s" for e
  proof (cases "e = c")
    case True
    then show ?thesis using that IH [THEN conjunct2, THEN conjunct1, rule_format, OF dist(2)] sv(2) by simp
  next
    case False
    then show ?thesis using that IH [THEN conjunct1] same by simp
  qed
  moreover have "saved_under (fst (fold (draw_cell p w cx cy) cs (s1, m1))) e = saved_under s e" if "e \<notin> set (c # cs)" for e
    using that IH [THEN conjunct2, THEN conjunct1, rule_format, of e] sv(1) by simp
  moreover have "snd (fold (draw_cell p w cx cy) cs (s1, m1)) x = m x"
    if "\<forall>e \<in> set (c # cs). drawn cx cy s e \<longrightarrow> \<not> within (pixel p w cx cy e) 4 x" for x
    using that IH m1 by simp
  ultimately show ?case unfolding r by blast
qed

lemma erase_fold_out:
  "(\<forall>c \<in> set cs. drawn (saved_cx s) (saved_cy s) s c \<longrightarrow> \<not> within (pixel p w (saved_cx s) (saved_cy s) c) 4 x) \<Longrightarrow>
   fold (erase_cell p w s) cs m x = m x"
  by (induction cs arbitrary: m) (auto simp: erase_cell_def drawn_def store32_apply)

lemma erase_fold_in:
  assumes "apart p w (saved_cx s) (saved_cy s) s (set cs)" "distinct cs" "c \<in> set cs" "drawn (saved_cx s) (saved_cy s) s c"
    "within (pixel p w (saved_cx s) (saved_cy s) c) 4 x"
  shows "fold (erase_cell p w s) cs m x = ucast (drop_bit (8 * unat (x - pixel p w (saved_cx s) (saved_cy s) c)) (saved_under s c))"
  using assms
proof (induction cs arbitrary: m)
  case Nil
  then show ?case by simp
next
  case (Cons e cs)
  show ?case
  proof (cases "e = c")
    case True
    then have "\<forall>d \<in> set cs. drawn (saved_cx s) (saved_cy s) s d \<longrightarrow> \<not> within (pixel p w (saved_cx s) (saved_cy s) d) 4 x"
      using Cons.prems unfolding apart_def drawn_def by (metis distinct.simps(2) list.set_intros)
    then have "fold (erase_cell p w s) (e # cs) m x = erase_cell p w s c m x" using erase_fold_out True by simp
    also have "\<dots> = ucast (drop_bit (8 * unat (x - pixel p w (saved_cx s) (saved_cy s) c)) (saved_under s c))"
      using Cons.prems(4,5) by (simp add: erase_cell_def drawn_def store32_apply)
    finally show ?thesis .
  next
    case False
    then have "c \<in> set cs" using Cons.prems(3) by auto
    moreover have "apart p w (saved_cx s) (saved_cy s) s (set cs)" using Cons.prems(1) by (simp add: apart_def)
    ultimately show ?thesis using Cons.IH Cons.prems(2,4,5) by simp
  qed
qed

lemma cells_bounds: "c \<in> set cells \<Longrightarrow> fst c < 12 \<and> snd c < 8"
  by (auto simp: cells_def)

text \<open>The pixels of one picture do not overlap, where a row is at least as long as the screen is wide and the picture has fewer
  than \<open>2 ^ 32\<close> pixels.\<close>

lemma unat_word_of_int: "0 \<le> i \<Longrightarrow> i < 2 ^ 32 \<Longrightarrow> unat (word_of_int i :: u32) = nat i"
  by (simp add: unsigned_of_int take_bit_int_eq_self)

lemma pixel_index:
  assumes "\<not> off_screen cx cy c s" "sint (screen_w s) \<le> int (unat w)" "unat (screen_h s) * unat w < 2 ^ 32" "within (pixel p w cx cy c) 4 x"
  shows "int (unat (x - p) div 4) = (cy + int (fst c)) * int (unat w) + (cx + int (snd c))"
proof -
  let ?x = "cx + int (snd c)" and ?y = "cy + int (fst c)"
  have b: "0 \<le> ?x" "?x < int (unat w)" "0 \<le> ?y" "?y < sint (screen_h s)" using assms(1,2) by (auto simp: off_screen_def)
  then have h: "sint (screen_h s) = int (unat (screen_h s))" using sint_pos [of "screen_h s"] by linarith
  let ?i = "?y * int (unat w) + ?x"
  have "(?y + 1) * int (unat w) \<le> int (unat (screen_h s)) * int (unat w)" using b h by (intro mult_right_mono) simp_all
  moreover have "int (unat (screen_h s)) * int (unat w) < 2 ^ 32" using assms(3) by (metis of_nat_less_iff of_nat_mult of_nat_numeral of_nat_power)
  moreover have "?i < (?y + 1) * int (unat w)" using b(2) by (simp add: algebra_simps)
  ultimately have i: "0 \<le> ?i" "?i < 2 ^ 32" using b(1,3) by (simp, linarith)
  have "word_of_int ?y * w + word_of_int ?x = (word_of_int ?i :: u32)" by simp
  then have "pixel p w cx cy c = p + 4 * ucast (word_of_int ?i :: u32)" by (simp add: pixel_def)
  moreover have u: "unat (word_of_int ?i :: u32) = nat ?i" by (rule unat_word_of_int [OF i])
  have "ucast v = (of_nat (unat v) :: u64)" for v :: u32 by simp
  then have "ucast (word_of_int ?i :: u32) = (of_nat (nat ?i) :: u64)" unfolding u [symmetric] .
  moreover obtain k where k: "k < 4" "x = pixel p w cx cy c + of_nat k" using assms(4) by (auto dest: within_ex)
  ultimately have "x - p = of_nat (4 * nat ?i + k)" by simp
  moreover have "4 * nat ?i + k < 2 ^ 64" using i k(1) by (simp add: nat_less_iff)
  ultimately have "unat (x - p) = 4 * nat ?i + k" using unat_of_nat_u64 by metis
  then have "unat (x - p) div 4 = nat ?i" using k(1) by simp
  then show ?thesis using i(1) by simp
qed

lemma cells_apart:
  assumes "sint (screen_w s) \<le> int (unat w)" "unat (screen_h s) * unat w < 2 ^ 32"
  shows "apart p w cx cy s (set cells)"
  unfolding apart_def
proof (intro ballI allI impI)
  fix c d x
  assume o: "\<not> off_screen cx cy c s" "\<not> off_screen cx cy d s"
    and x: "within (pixel p w cx cy c) 4 x" "within (pixel p w cx cy d) 4 x"
  let ?y = "cy + int (fst c)" and ?y' = "cy + int (fst d)" and ?x = "cx + int (snd c)" and ?x' = "cx + int (snd d)"
  have e: "?y * int (unat w) + ?x = ?y' * int (unat w) + ?x'"
    using pixel_index [OF o(1) assms x(1)] pixel_index [OF o(2) assms x(2)] by simp
  have b: "0 \<le> ?x" "?x < int (unat w)" "0 \<le> ?x'" "?x' < int (unat w)" using o assms(1) by (auto simp: off_screen_def)
  have "?y = (?y * int (unat w) + ?x) div int (unat w)" "?x = (?y * int (unat w) + ?x) mod int (unat w)"
    "?y' = (?y' * int (unat w) + ?x') div int (unat w)" "?x' = (?y' * int (unat w) + ?x') mod int (unat w)"
    using b by simp_all
  then have "?y = ?y'" "?x = ?x'" using e by metis+
  then show "c = d" by (simp add: prod_eq_iff)
qed

text \<open>C19: the cursor leaves no trace: erasing the cursor that was drawn restores every byte of the picture, wherever the cursor is, also where it
  reaches over an edge of the screen.\<close>

theorem erase_undoes_draw:
  assumes "sint (screen_w s) \<le> int (unat (console_get_pitch con div 4))"
    and "unat (screen_h s) * unat (console_get_pitch con div 4) < 2 ^ 32"
  shows "snd (erase_cursor con (draw_cursor cx cy con (s, m))) = m"
proof
  fix x
  let ?p = "console_get_pixels con" and ?w = "console_get_pitch con div 4"
  let ?d = "fold (draw_cell ?p ?w cx cy) cells (s, m)"
  let ?s = "(fst ?d)\<lparr>saved_cx := cx, saved_cy := cy, cursor_visible := True\<rparr>"
  obtain u where u: "fst ?d = s\<lparr>saved_under := u\<rparr>" using draw_fold_fst [of ?p ?w cx cy cells "(s, m)"] by auto
  have off: "off_screen cx cy c ?s = off_screen cx cy c s" "drawn cx cy ?s c = drawn cx cy s c" for c
    by (simp_all add: u off_screen_def drawn_def)
  have ap: "apart ?p ?w cx cy s (set cells)" by (rule cells_apart [OF assms])
  then have ap': "apart ?p ?w (saved_cx ?s) (saved_cy ?s) ?s (set cells)" by (simp add: apart_def off)
  have dist: "distinct cells" by (simp add: cells_def distinct_product)
  note draw = draw_fold [OF dist ap, of m]
  have e: "snd (erase_cursor con (draw_cursor cx cy con (s, m))) = fold (erase_cell ?p ?w ?s) cells (snd ?d)"
    by (simp add: erase_cursor_def draw_cursor_def split_beta Let_def)
  show "snd (erase_cursor con (draw_cursor cx cy con (s, m))) x = m x"
  proof (cases "\<exists>c \<in> set cells. drawn cx cy s c \<and> within (pixel ?p ?w cx cy c) 4 x")
    case True
    then obtain c where c: "c \<in> set cells" "drawn cx cy s c" "within (pixel ?p ?w cx cy c) 4 x" by blast
    have "fold (erase_cell ?p ?w ?s) cells (snd ?d) x = ucast (drop_bit (8 * unat (x - pixel ?p ?w cx cy c)) (saved_under ?s c))"
      using erase_fold_in [OF ap' dist c(1), of x "snd ?d"] c off by simp
    moreover have "saved_under ?s c = load32 m (pixel ?p ?w cx cy c)" using draw c(1,2) by (simp add: drawn_def)
    ultimately show ?thesis using load32_byte [OF c(3)] e by simp
  next
    case False
    then have "fold (erase_cell ?p ?w ?s) cells (snd ?d) x = snd ?d x" by (intro erase_fold_out) (simp add: off)
    also have "\<dots> = m x" using False draw by blast
    finally show ?thesis using e by simp
  qed
qed

theorem erase_undoes_draw_witness:
  "snd (erase_cursor sample_console (draw_cursor 12 (-3) sample_console (sample_mouse\<lparr>screen_w := 16, screen_h := 32\<rparr>, \<lambda>a. ucast a))) = (\<lambda>a. ucast a)"
  by (rule erase_undoes_draw) (simp_all add: sample_console_def console_get_pitch_def)

end
