(* ===== verification/Pci.thy ===== *)
theory Pci
  imports Prelude
begin

text \<open>
  The PCI bus scan of \<open>kernel/drivers/pci.c\<close>.  The configuration space is a function from the address that is put on port
  0xCF8 to the 32-bit register there; writing a register goes through the argument \<open>wr\<close>, since a device decides which bits
  it keeps.  Scanning a bus and scanning a device call each other; the model joins them into one recursion over the bus and the
  device number, and \<open>None\<close> is a scan that never ends.

  The lemmas: what the scan records is what the configuration space holds, it finds every device of a bus it scans, it ends
  where bridges lead to higher bus numbers, and it does not end at a bridge that leads to its own bus.
\<close>

unbundle bit_operations_syntax

abbreviation (input) PCI_MAX_DEVICES :: nat where "PCI_MAX_DEVICES \<equiv> 64"
abbreviation (input) PCI_VENDOR_ID :: u8 where "PCI_VENDOR_ID \<equiv> 0x00"
abbreviation (input) PCI_DEVICE_ID :: u8 where "PCI_DEVICE_ID \<equiv> 0x02"
abbreviation (input) PCI_COMMAND :: u8 where "PCI_COMMAND \<equiv> 0x04"
abbreviation (input) PCI_PROG_IF :: u8 where "PCI_PROG_IF \<equiv> 0x09"
abbreviation (input) PCI_SUBCLASS :: u8 where "PCI_SUBCLASS \<equiv> 0x0A"
abbreviation (input) PCI_CLASS :: u8 where "PCI_CLASS \<equiv> 0x0B"
abbreviation (input) PCI_HEADER_TYPE :: u8 where "PCI_HEADER_TYPE \<equiv> 0x0E"
abbreviation (input) PCI_BAR0 :: u8 where "PCI_BAR0 \<equiv> 0x10"
abbreviation (input) PCI_SECONDARY_BUS :: u8 where "PCI_SECONDARY_BUS \<equiv> 0x19"
abbreviation (input) PCI_INTERRUPT_LINE :: u8 where "PCI_INTERRUPT_LINE \<equiv> 0x3C"
abbreviation (input) PCI_CLASS_BRIDGE :: u8 where "PCI_CLASS_BRIDGE \<equiv> 0x06"

type_synonym config = "u32 \<Rightarrow> u32"

record PciDevice =
  pbus :: u8
  pdevice :: u8
  pfunction :: u8
  vendor_id :: u16
  device_id :: u16
  class_code :: u8
  sub_class :: u8
  prog_if :: u8
  header_type :: u8
  irq_line :: u8
  bar :: "u32 list"

record pci =
  devices :: "PciDevice list"
  num_devices :: nat

section \<open>Configuration space\<close>

definition PCI_ADDR :: "u8 \<Rightarrow> u8 \<Rightarrow> u8 \<Rightarrow> u8 \<Rightarrow> u32" where
  "PCI_ADDR bus dev func off =
     0x80000000 OR push_bit 16 (ucast bus) OR push_bit 11 (ucast dev) OR push_bit 8 (ucast func) OR (ucast off AND 0xFC)"

definition pci_read32 :: "config \<Rightarrow> u8 \<Rightarrow> u8 \<Rightarrow> u8 \<Rightarrow> u8 \<Rightarrow> u32" where
  "pci_read32 cfg bus dev func off = cfg (PCI_ADDR bus dev func off)"

definition pci_read16 :: "config \<Rightarrow> u8 \<Rightarrow> u8 \<Rightarrow> u8 \<Rightarrow> u8 \<Rightarrow> u16" where
  "pci_read16 cfg bus dev func off = ucast (drop_bit (unat (off AND 2) * 8) (cfg (PCI_ADDR bus dev func off)))"

definition pci_read8 :: "config \<Rightarrow> u8 \<Rightarrow> u8 \<Rightarrow> u8 \<Rightarrow> u8 \<Rightarrow> u8" where
  "pci_read8 cfg bus dev func off = ucast (drop_bit (unat (off AND 3) * 8) (cfg (PCI_ADDR bus dev func off)))"

definition pci_write32 :: "(u32 \<Rightarrow> u32 \<Rightarrow> config \<Rightarrow> config) \<Rightarrow> u8 \<Rightarrow> u8 \<Rightarrow> u8 \<Rightarrow> u8 \<Rightarrow> u32 \<Rightarrow> config \<Rightarrow> config" where
  "pci_write32 wr bus dev func off val cfg = wr (PCI_ADDR bus dev func off) val cfg"

definition pci_write16 :: "(u32 \<Rightarrow> u32 \<Rightarrow> config \<Rightarrow> config) \<Rightarrow> u8 \<Rightarrow> u8 \<Rightarrow> u8 \<Rightarrow> u8 \<Rightarrow> u16 \<Rightarrow> config \<Rightarrow> config" where
  "pci_write16 wr bus dev func off val cfg =
     (let a = PCI_ADDR bus dev func off;
          shift = unat (off AND 2) * 8;
          tmp = cfg a AND NOT (push_bit shift 0xFFFF)
      in wr a (tmp OR push_bit shift (ucast val)) cfg)"

definition pci_enable_bus_master :: "(u32 \<Rightarrow> u32 \<Rightarrow> config \<Rightarrow> config) \<Rightarrow> PciDevice \<Rightarrow> config \<Rightarrow> config" where
  "pci_enable_bus_master wr d cfg =
     (let cmd = pci_read16 cfg (pbus d) (pdevice d) (pfunction d) PCI_COMMAND
      in pci_write16 wr (pbus d) (pdevice d) (pfunction d) PCI_COMMAND (cmd OR (0x0004 OR 0x0002 OR 0x0001)) cfg)"

section \<open>Scanning\<close>

definition scan_function :: "config \<Rightarrow> u8 \<Rightarrow> u8 \<Rightarrow> u8 \<Rightarrow> pci \<Rightarrow> pci" where
  "scan_function cfg bus dev func s =
     (let vendor = pci_read16 cfg bus dev func PCI_VENDOR_ID
      in if vendor = 0xFFFF then s
         else if PCI_MAX_DEVICES \<le> num_devices s then s
         else let header = pci_read8 cfg bus dev func PCI_HEADER_TYPE;
                  d = \<lparr>pbus = bus, pdevice = dev, pfunction = func, vendor_id = vendor,
                     device_id = pci_read16 cfg bus dev func PCI_DEVICE_ID,
                     class_code = pci_read8 cfg bus dev func PCI_CLASS,
                     sub_class = pci_read8 cfg bus dev func PCI_SUBCLASS,
                     prog_if = pci_read8 cfg bus dev func PCI_PROG_IF,
                     header_type = header,
                     irq_line = pci_read8 cfg bus dev func PCI_INTERRUPT_LINE,
                     bar = (if header AND 0x7F = 0 then map (\<lambda>i. pci_read32 cfg bus dev func (PCI_BAR0 + of_nat i * 4)) [0..<6]
                            else bar (devices s ! num_devices s))\<rparr>
              in s\<lparr>devices := (devices s)[num_devices s := d], num_devices := num_devices s + 1\<rparr>)"

definition scan_functions :: "config \<Rightarrow> u8 \<Rightarrow> u8 \<Rightarrow> pci \<Rightarrow> pci" where
  "scan_functions cfg bus dev s =
     (let s = scan_function cfg bus dev 0 s
      in if pci_read8 cfg bus dev 0 PCI_HEADER_TYPE AND 0x80 \<noteq> 0
         then fold (\<lambda>func. scan_function cfg bus dev (of_nat func)) [1..<8] s else s)"

definition bridge_to :: "config \<Rightarrow> u8 \<Rightarrow> u8 \<Rightarrow> u8 option" where
  "bridge_to cfg bus dev =
     (if pci_read8 cfg bus dev 0 PCI_CLASS = PCI_CLASS_BRIDGE \<and> pci_read8 cfg bus dev 0 PCI_SUBCLASS = 0x04
      then let secondary = pci_read8 cfg bus dev 0 PCI_SECONDARY_BUS
           in if secondary \<noteq> 0 then Some secondary else None
      else None)"

partial_function (option) scan_devices :: "config \<Rightarrow> u8 \<Rightarrow> u8 \<Rightarrow> pci \<Rightarrow> pci option" where
  "scan_devices cfg bus dev s =
     (if \<not> dev < 32 then Some s
      else do {
        s \<leftarrow> (if pci_read16 cfg bus dev 0 PCI_VENDOR_ID = 0xFFFF then Some s
             else (case bridge_to cfg bus dev of
                     None \<Rightarrow> Some (scan_functions cfg bus dev s)
                   | Some secondary \<Rightarrow> scan_devices cfg secondary 0 (scan_functions cfg bus dev s)));
        scan_devices cfg bus (dev + 1) s })"

definition scan_bus :: "config \<Rightarrow> u8 \<Rightarrow> pci \<Rightarrow> pci option" where
  "scan_bus cfg bus s = scan_devices cfg bus 0 s"

primrec scan_hosts :: "config \<Rightarrow> nat list \<Rightarrow> pci \<Rightarrow> pci option" where
  "scan_hosts cfg [] s = Some s"
| "scan_hosts cfg (func # fs) s = do {
     s \<leftarrow> (if pci_read16 cfg 0 0 (of_nat func) PCI_VENDOR_ID \<noteq> 0xFFFF then scan_bus cfg (of_nat func) s else Some s);
     scan_hosts cfg fs s }"

definition pci_init :: "config \<Rightarrow> pci \<Rightarrow> pci option" where
  "pci_init cfg s =
     (let s = s\<lparr>num_devices := 0\<rparr>
      in if pci_read8 cfg 0 0 0 PCI_HEADER_TYPE AND 0x80 \<noteq> 0 then scan_hosts cfg [0..<8] s else scan_bus cfg 0 s)"

section \<open>Queries\<close>

definition pci_device_count :: "pci \<Rightarrow> int" where
  "pci_device_count s = int (num_devices s)"

definition pci_get_device :: "int \<Rightarrow> pci \<Rightarrow> PciDevice option" where
  "pci_get_device index s = (if index < 0 \<or> int (num_devices s) \<le> index then None else Some (devices s ! nat index))"

definition pci_find_device :: "u8 \<Rightarrow> u8 \<Rightarrow> pci \<Rightarrow> PciDevice option" where
  "pci_find_device c sc s = List.find (\<lambda>d. class_code d = c \<and> sub_class d = sc) (take (num_devices s) (devices s))"

definition pci_find_by_id :: "u16 \<Rightarrow> u16 \<Rightarrow> pci \<Rightarrow> PciDevice option" where
  "pci_find_by_id v d s = List.find (\<lambda>x. vendor_id x = v \<and> device_id x = d) (take (num_devices s) (devices s))"

definition class_name :: "u8 \<Rightarrow> u8 \<Rightarrow> string" where
  "class_name c sc = (
     if c = 0x00 then (if sc = 0x00 then ''Legacy device'' else ''VGA-compatible'')
     else if c = 0x01 then
       (if sc = 0x00 then ''SCSI controller'' else if sc = 0x01 then ''IDE controller'' else if sc = 0x05 then ''ATA controller''
        else if sc = 0x06 then ''SATA controller'' else if sc = 0x08 then ''NVMe controller'' else ''Storage controller'')
     else if c = 0x02 then (if sc = 0x00 then ''Ethernet controller'' else ''Network controller'')
     else if c = 0x03 then (if sc = 0x00 then ''VGA controller'' else ''Display controller'')
     else if c = 0x04 then ''Multimedia device''
     else if c = 0x05 then ''Memory controller''
     else if c = 0x06 then
       (if sc = 0x00 then ''Host bridge'' else if sc = 0x01 then ''ISA bridge'' else if sc = 0x04 then ''PCI-PCI bridge'' else ''Bridge device'')
     else if c = 0x07 then ''Serial controller''
     else if c = 0x08 then ''System peripheral''
     else if c = 0x0C then
       (if sc = 0x00 then ''FireWire controller'' else if sc = 0x03 then ''USB controller'' else if sc = 0x05 then ''SMBus controller''
        else ''Serial bus controller'')
     else if c = 0x0D then ''Wireless controller''
     else ''Unknown device'')"

text \<open>The rows that \<open>pci_list_devices\<close> prints, by their values.\<close>

definition pci_list_devices :: "pci \<Rightarrow> (u8 \<times> u8 \<times> u8 \<times> u16 \<times> u16 \<times> u8 \<times> string) list" where
  "pci_list_devices s = map (\<lambda>d. (pbus d, pdevice d, pfunction d, vendor_id d, device_id d, irq_line d, class_name (class_code d) (sub_class d)))
     (take (num_devices s) (devices s))"

section \<open>What a scan records\<close>

definition describes :: "config \<Rightarrow> PciDevice \<Rightarrow> bool" where
  "describes cfg d \<longleftrightarrow> (let rd16 = pci_read16 cfg (pbus d) (pdevice d) (pfunction d); rd8 = pci_read8 cfg (pbus d) (pdevice d) (pfunction d)
     in vendor_id d = rd16 PCI_VENDOR_ID \<and> vendor_id d \<noteq> 0xFFFF \<and> device_id d = rd16 PCI_DEVICE_ID
      \<and> class_code d = rd8 PCI_CLASS \<and> sub_class d = rd8 PCI_SUBCLASS \<and> prog_if d = rd8 PCI_PROG_IF
      \<and> header_type d = rd8 PCI_HEADER_TYPE \<and> irq_line d = rd8 PCI_INTERRUPT_LINE
      \<and> (header_type d AND 0x7F = 0 \<longrightarrow>
           bar d = map (\<lambda>i. pci_read32 cfg (pbus d) (pdevice d) (pfunction d) (PCI_BAR0 + of_nat i * 4)) [0..<6]))"

definition pci_inv :: "config \<Rightarrow> pci \<Rightarrow> bool" where [inv_defs]:
  "pci_inv cfg s \<longleftrightarrow> length (devices s) = PCI_MAX_DEVICES \<and> num_devices s \<le> PCI_MAX_DEVICES
     \<and> (\<forall>i < num_devices s. describes cfg (devices s ! i))"

text \<open>A scan keeps what is in the table and appends.\<close>

definition extends :: "pci \<Rightarrow> pci \<Rightarrow> bool" where
  "extends s s' \<longleftrightarrow> num_devices s \<le> num_devices s' \<and> (\<forall>i < num_devices s. devices s' ! i = devices s ! i)"

definition grown :: "config \<Rightarrow> pci \<Rightarrow> pci \<Rightarrow> bool" where
  "grown cfg s s' \<longleftrightarrow> (pci_inv cfg s \<longrightarrow> pci_inv cfg s' \<and> extends s s')"

definition recorded :: "u8 \<Rightarrow> u8 \<Rightarrow> u8 \<Rightarrow> pci \<Rightarrow> bool" where
  "recorded bus dev func s \<longleftrightarrow>
     (\<exists>i < num_devices s. pbus (devices s ! i) = bus \<and> pdevice (devices s ! i) = dev \<and> pfunction (devices s ! i) = func)"

lemma extends_refl [simp]: "extends s s"
  by (simp add: extends_def)

lemma extends_trans: "extends s s1 \<Longrightarrow> extends s1 s2 \<Longrightarrow> extends s s2"
  by (auto simp: extends_def)

lemma grown_refl [simp]: "grown cfg s s"
  by (simp add: grown_def)

lemma grown_trans: "grown cfg s s1 \<Longrightarrow> grown cfg s1 s2 \<Longrightarrow> grown cfg s s2"
  using extends_trans by (auto simp: grown_def)

lemma recorded_extends: "recorded bus dev func s \<Longrightarrow> extends s s' \<Longrightarrow> recorded bus dev func s'"
  unfolding recorded_def extends_def by (metis order_less_le_trans)

lemma scan_function_grown: "grown cfg s (scan_function cfg bus dev func s)"
  by (auto simp: grown_def scan_function_def pci_inv_def extends_def Let_def describes_def nth_list_update less_Suc_eq)

lemma scan_function_recorded:
  assumes "pci_read16 cfg bus dev func PCI_VENDOR_ID \<noteq> 0xFFFF" "pci_inv cfg s"
    "num_devices (scan_function cfg bus dev func s) < PCI_MAX_DEVICES"
  shows "recorded bus dev func (scan_function cfg bus dev func s)"
  using assms by (auto simp: scan_function_def recorded_def Let_def pci_inv_def split: if_splits intro!: exI [of _ "num_devices s"])

lemma fold_grown: "(\<And>x s. grown cfg s (f x s)) \<Longrightarrow> grown cfg s (fold f xs s)"
  by (induction xs arbitrary: s) (auto intro: grown_trans)

lemma scan_functions_rest: "grown cfg (scan_function cfg bus dev 0 s) (scan_functions cfg bus dev s)"
  unfolding scan_functions_def Let_def by (simp add: fold_grown scan_function_grown)

lemma scan_functions_grown: "grown cfg s (scan_functions cfg bus dev s)"
  using scan_function_grown scan_functions_rest by (rule grown_trans)

lemma scan_functions_recorded:
  assumes "pci_read16 cfg bus dev 0 PCI_VENDOR_ID \<noteq> 0xFFFF" "pci_inv cfg s"
    "num_devices (scan_functions cfg bus dev s) < PCI_MAX_DEVICES"
  shows "recorded bus dev 0 (scan_functions cfg bus dev s)"
proof -
  let ?s = "scan_function cfg bus dev 0 s"
  have "pci_inv cfg ?s" using scan_function_grown assms(2) unfolding grown_def by blast
  then have e: "extends ?s (scan_functions cfg bus dev s)" using scan_functions_rest unfolding grown_def by blast
  then have "num_devices ?s < PCI_MAX_DEVICES" using assms(3) by (simp add: extends_def)
  then show ?thesis using scan_function_recorded [OF assms(1,2)] recorded_extends e by blast
qed

section \<open>The scan ends\<close>

text \<open>The bridges of a bus number their secondary buses upwards, as firmware does.\<close>

definition bridges_ascend :: "config \<Rightarrow> bool" where
  "bridges_ascend cfg \<longleftrightarrow> (\<forall>bus dev secondary. dev < 32 \<longrightarrow> pci_read16 cfg bus dev 0 PCI_VENDOR_ID \<noteq> 0xFFFF \<longrightarrow>
     bridge_to cfg bus dev = Some secondary \<longrightarrow> bus < secondary)"

definition bus_done :: "config \<Rightarrow> u8 \<Rightarrow> u8 \<Rightarrow> pci \<Rightarrow> bool" where
  "bus_done cfg bus from s \<longleftrightarrow> (num_devices s < PCI_MAX_DEVICES \<longrightarrow>
     (\<forall>dev < 32. from \<le> dev \<longrightarrow> pci_read16 cfg bus dev 0 PCI_VENDOR_ID \<noteq> 0xFFFF \<longrightarrow> recorded bus dev 0 s))"

lemma scan_devices_ends:
  assumes up: "bridges_ascend cfg"
  shows "pci_inv cfg s \<Longrightarrow> \<exists>s'. scan_devices cfg bus dev s = Some s' \<and> pci_inv cfg s' \<and> extends s s' \<and> bus_done cfg bus dev s'"
proof (induction "(255 - unat bus) * 33 + (32 - unat dev)" arbitrary: bus dev s rule: less_induct)
  case less
  show ?case
  proof (cases "dev < 32")
    case False
    then show ?thesis using less.prems by (auto simp: scan_devices.simps bus_done_def)
  next
    case True
    then have d: "unat dev < 32" "unat (dev + 1) = unat dev + 1" by (simp_all add: word_less_nat_alt unat_word_ariths)
    let ?v = "pci_read16 cfg bus dev 0 PCI_VENDOR_ID" and ?s = "scan_functions cfg bus dev s"
    have f: "pci_inv cfg ?s" "extends s ?s" using scan_functions_grown less.prems unfolding grown_def by blast+
    have "\<exists>s1. (if ?v = 0xFFFF then Some s
             else (case bridge_to cfg bus dev of None \<Rightarrow> Some ?s | Some secondary \<Rightarrow> scan_devices cfg secondary 0 ?s)) = Some s1
        \<and> pci_inv cfg s1 \<and> extends s s1 \<and> (?v \<noteq> 0xFFFF \<longrightarrow> extends ?s s1)"
    proof (cases "?v = 0xFFFF \<or> bridge_to cfg bus dev = None")
      case True
      then show ?thesis using less.prems f by auto
    next
      case False
      then obtain sec where sec: "bridge_to cfg bus dev = Some sec" by auto
      then have "unat bus < unat sec" using up False True by (auto simp: bridges_ascend_def word_less_nat_alt)
      moreover have "unat sec < 256" using unsigned_less [of sec] by simp
      ultimately have "(255 - unat sec) * 33 + (32 - unat (0 :: u8)) < (255 - unat bus) * 33 + (32 - unat dev)" using d(1) by simp
      from less.hyps [OF this f(1)] show ?thesis using sec False f(2) extends_trans by auto
    qed
    then obtain s1 where s1: "(if ?v = 0xFFFF then Some s
             else (case bridge_to cfg bus dev of None \<Rightarrow> Some ?s | Some secondary \<Rightarrow> scan_devices cfg secondary 0 ?s)) = Some s1"
        "pci_inv cfg s1" "extends s s1" "?v \<noteq> 0xFFFF \<longrightarrow> extends ?s s1" by blast
    have "(255 - unat bus) * 33 + (32 - unat (dev + 1)) < (255 - unat bus) * 33 + (32 - unat dev)" using d by simp
    from less.hyps [OF this s1(2)] obtain s2 where s2: "scan_devices cfg bus (dev + 1) s1 = Some s2" "pci_inv cfg s2" "extends s1 s2"
      "bus_done cfg bus (dev + 1) s2" by blast
    have "bus_done cfg bus dev s2"
      unfolding bus_done_def
    proof (intro impI allI)
      fix e assume n: "num_devices s2 < PCI_MAX_DEVICES" and e: "e < 32" "dev \<le> e" "pci_read16 cfg bus e 0 PCI_VENDOR_ID \<noteq> 0xFFFF"
      show "recorded bus e 0 s2"
      proof (cases "e = dev")
        case True
        then have x: "extends ?s s2" using s1(4) s2(3) e(3) extends_trans by blast
        then have "num_devices ?s < PCI_MAX_DEVICES" using n by (simp add: extends_def)
        then show ?thesis using scan_functions_recorded less.prems e(3) True x recorded_extends by blast
      next
        case False
        then have "dev + 1 \<le> e" using e(2) d(2) by (simp add: word_le_nat_alt word_unat_eq_iff)
        then show ?thesis using s2(4) n e by (simp add: bus_done_def)
      qed
    qed
    moreover have "scan_devices cfg bus dev s = Some s2" using True s1(1) s2(1) by (subst scan_devices.simps) simp
    ultimately show ?thesis using s2 s1(3) extends_trans by blast
  qed
qed

lemma scan_bus_ends:
  assumes "bridges_ascend cfg" "pci_inv cfg s"
  obtains s' where "scan_bus cfg bus s = Some s'" "pci_inv cfg s'" "bus_done cfg bus 0 s'"
  using scan_devices_ends [OF assms, of bus 0] unfolding scan_bus_def by blast

lemma scan_hosts_ends: "bridges_ascend cfg \<Longrightarrow> pci_inv cfg s \<Longrightarrow> \<exists>s'. scan_hosts cfg fs s = Some s' \<and> pci_inv cfg s'"
proof (induction fs arbitrary: s)
  case Nil
  then show ?case by simp
next
  case (Cons f fs)
  show ?case
  proof (cases "pci_read16 cfg 0 0 (of_nat f) PCI_VENDOR_ID = 0xFFFF")
    case True
    then show ?thesis using Cons by simp
  next
    case False
    obtain s' where "scan_bus cfg (of_nat f) s = Some s'" "pci_inv cfg s'" using scan_bus_ends [OF Cons.prems] by blast
    then show ?thesis using False Cons.IH [OF Cons.prems(1), of s'] by simp
  qed
qed

text \<open>C21: the bus scan ends and is right.  Where every bridge leads to a bus with a higher number, \<open>pci_init\<close> returns; each entry of its table
  holds what the configuration space of that function holds; and with a single host bridge, unless the table is full, every device
  on bus 0 is in it.\<close>

theorem pci_init_terminates:
  assumes "bridges_ascend cfg" and "length (devices s) = PCI_MAX_DEVICES"
  shows "\<exists>s'. pci_init cfg s = Some s' \<and> num_devices s' \<le> PCI_MAX_DEVICES \<and> (\<forall>i < num_devices s'. describes cfg (devices s' ! i))
    \<and> (pci_read8 cfg 0 0 0 PCI_HEADER_TYPE AND 0x80 = 0 \<longrightarrow> bus_done cfg 0 0 s')"
proof -
  have inv: "pci_inv cfg (s\<lparr>num_devices := 0\<rparr>)" using assms(2) by (simp add: pci_inv_def)
  show ?thesis
  proof (cases "pci_read8 cfg 0 0 0 PCI_HEADER_TYPE AND 0x80 = 0")
    case True
    obtain s' where "scan_bus cfg 0 (s\<lparr>num_devices := 0\<rparr>) = Some s'" "pci_inv cfg s'" "bus_done cfg 0 0 s'"
      using scan_bus_ends [OF assms(1) inv] by blast
    then show ?thesis using True by (auto simp: pci_init_def pci_inv_def)
  next
    case False
    then show ?thesis using scan_hosts_ends [OF assms(1) inv, of "[0..<8]"] by (auto simp: pci_init_def pci_inv_def)
  qed
qed

text \<open>The fields of an address do not overlap.\<close>

lemma bit_top: "bit (0x80000000 :: u32) n \<longleftrightarrow> n = 31"
proof -
  have "(0x80000000 :: u32) = 2 ^ 31" by simp
  then show ?thesis by (simp only: bit_exp_iff) (auto simp: possible_bit_def)
qed

lemma bit_low: "bit (0xFC :: u32) n \<Longrightarrow> n < 8"
proof -
  have "(0xFC :: u32) = 0xFC AND mask 8" by (simp add: mask_eq_exp_minus_1)
  then show "bit (0xFC :: u32) n \<Longrightarrow> n < 8" by (metis bit_and_iff bit_mask_iff)
qed

lemma PCI_ADDR_fields:
  assumes "dev < 32"
  shows "drop_bit 16 (PCI_ADDR bus dev 0 off) AND mask 8 = ucast bus" "drop_bit 11 (PCI_ADDR bus dev 0 off) AND mask 5 = ucast dev"
proof -
  have d: "\<not> bit dev n" if "5 \<le> n" for n
  proof -
    have "dev = take_bit 5 dev" using assms by (simp add: word_unat_eq_iff unsigned_take_bit_eq take_bit_nat_eq_self word_less_nat_alt)
    then show ?thesis using that by (metis bit_take_bit_iff not_le)
  qed
  have b: "\<not> bit bus n" if "8 \<le> n" for n using that by (rule not_bit_u8)
  note bits = PCI_ADDR_def bit_and_iff bit_or_iff bit_drop_bit_eq bit_push_bit_iff bit_unsigned_iff bit_mask_iff bit_top comp_def
  show "drop_bit 16 (PCI_ADDR bus dev 0 off) AND mask 8 = ucast bus"
    by (rule bit_word_eqI, simp only: bits) (use b d bit_low in \<open>force simp: possible_bit_def\<close>)
  show "drop_bit 11 (PCI_ADDR bus dev 0 off) AND mask 5 = ucast dev"
    by (rule bit_word_eqI, simp only: bits) (use b d bit_low in \<open>force simp: possible_bit_def\<close>)
qed

text \<open>A configuration space with a bridge to bus 1 as device 1 of bus 0, and a network card as device 0 of bus 1.\<close>

definition sample_config :: config where
  "sample_config a =
     (let bus = drop_bit 16 a AND mask 8; dev = drop_bit 11 a AND mask 5; off = a AND 0xFC
      in if bus = 0 \<and> dev = 1 then
           (if off = 0 then 0x00011B36 else if off = 8 then 0x06040000 else if off = 0x18 then 0x00010100 else 0)
         else if bus = 1 \<and> dev = 0 then (if off = 0 then 0x10001AF4 else if off = 8 then 0x02000000 else 0)
         else 0xFFFFFFFF)"

definition sample_pci :: pci where
  "sample_pci = \<lparr>devices = replicate PCI_MAX_DEVICES \<lparr>pbus = 0, pdevice = 0, pfunction = 0, vendor_id = 0, device_id = 0, class_code = 0,
     sub_class = 0, prog_if = 0, header_type = 0, irq_line = 0, bar = [0, 0, 0, 0, 0, 0]\<rparr>, num_devices = 0\<rparr>"

lemma sample_ascends: "bridges_ascend sample_config"
  unfolding bridges_ascend_def
proof (intro allI impI)
  fix bus dev secondary :: u8
  assume d: "dev < 32" and v: "pci_read16 sample_config bus dev 0 PCI_VENDOR_ID \<noteq> 0xFFFF" and b: "bridge_to sample_config bus dev = Some secondary"
  consider "bus = 0" "dev = 1" | "bus = 1" "dev = 0" | "\<not> (bus = 0 \<and> dev = 1)" "\<not> (bus = 1 \<and> dev = 0)" by blast
  then show "bus < secondary"
  proof cases
    case 1
    have "bridge_to sample_config 0 1 = Some 1" by code_simp
    then show ?thesis using b 1 by simp
  next
    case 2
    have "bridge_to sample_config 1 0 = None" by code_simp
    then show ?thesis using b 2 by simp
  next
    case 3
    have l: "unat x < 2 ^ 32" for x :: u8 by (rule order_less_trans [OF unsigned_less]) simp
    have u: "ucast x = (0 :: u32) \<longleftrightarrow> x = 0" "ucast x = (1 :: u32) \<longleftrightarrow> x = 1" for x :: u8
      using take_bit_nat_eq_self [OF l] by (simp_all add: word_unat_eq_iff unsigned_ucast_eq)
    have "sample_config (PCI_ADDR bus dev 0 PCI_VENDOR_ID) = 0xFFFFFFFF"
      using 3 by (simp add: sample_config_def Let_def PCI_ADDR_fields [OF d] u)
    then show ?thesis using v by (simp add: pci_read16_def)
  qed
qed

theorem pci_init_terminates_witness:
  "\<exists>s'. pci_init sample_config sample_pci = Some s' \<and> num_devices s' \<le> PCI_MAX_DEVICES"
  using pci_init_terminates [OF sample_ascends, of sample_pci] by (auto simp: sample_pci_def)

section \<open>A bridge to its own bus\<close>

lemma scan_devices_loops:
  assumes d: "d < 32" and v: "pci_read16 cfg b d 0 PCI_VENDOR_ID \<noteq> 0xFFFF" and br: "bridge_to cfg b d = Some b"
    and r: "scan_devices cfg0 bus dev s = Some r"
  shows "cfg0 = cfg \<longrightarrow> bus = b \<longrightarrow> \<not> dev \<le> d"
proof (rule scan_devices.raw_induct [where P = "\<lambda>cfg0 bus dev s r. cfg0 = cfg \<longrightarrow> bus = b \<longrightarrow> \<not> dev \<le> d", OF _ r], intro impI notI)
  fix scan :: "config \<Rightarrow> u8 \<Rightarrow> u8 \<Rightarrow> pci \<Rightarrow> pci option" and cfg0 bus dev s r
  assume IH: "\<And>cfg0 bus dev s r. scan cfg0 bus dev s = Some r \<Longrightarrow> cfg0 = cfg \<longrightarrow> bus = b \<longrightarrow> \<not> dev \<le> d"
    and e: "cfg0 = cfg" "bus = b" "dev \<le> d"
    and step: "(if \<not> dev < 32 then Some s
      else do {
        s \<leftarrow> (if pci_read16 cfg0 bus dev 0 PCI_VENDOR_ID = 0xFFFF then Some s
             else (case bridge_to cfg0 bus dev of
                     None \<Rightarrow> Some (scan_functions cfg0 bus dev s)
                   | Some secondary \<Rightarrow> scan cfg0 secondary 0 (scan_functions cfg0 bus dev s)));
        scan cfg0 bus (dev + 1) s }) = Some r"
  have 32: "dev < 32" using e(3) d by (rule order_le_less_trans)
  then obtain s1 where s1: "(if pci_read16 cfg0 bus dev 0 PCI_VENDOR_ID = 0xFFFF then Some s
             else (case bridge_to cfg0 bus dev of
                     None \<Rightarrow> Some (scan_functions cfg0 bus dev s)
                   | Some secondary \<Rightarrow> scan cfg0 secondary 0 (scan_functions cfg0 bus dev s))) = Some s1"
    and nxt: "scan cfg0 bus (dev + 1) s1 = Some r" using step by (auto simp: bind_eq_Some_conv)
  show False
  proof (cases "dev = d")
    case True
    then have "scan cfg b 0 (scan_functions cfg b d s) = Some s1" using s1 e v br by simp
    from IH [OF this] show False by simp
  next
    case False
    then have "dev < d" using e(3) by simp
    then have "dev + 1 \<le> d" by (simp add: word_le_nat_alt word_less_nat_alt unat_word_ariths)
    with IH [OF nxt] e show False by simp
  qed
qed

text \<open>C22: the scan has no guard against cycles: on a bus with a bridge that names that bus as its secondary bus the scan never returns.\<close>

theorem self_bridge_scan_never_ends:
  assumes "dev < 32" and "pci_read16 cfg bus dev 0 PCI_VENDOR_ID \<noteq> 0xFFFF" and "bridge_to cfg bus dev = Some bus"
  shows "scan_bus cfg bus s = None"
proof (cases "scan_bus cfg bus s")
  case (Some r)
  then show ?thesis using scan_devices_loops [OF assms, of cfg bus 0 s r] by (simp add: scan_bus_def)
qed

definition loop_config :: config where
  "loop_config a = (if a AND 0xFC = 8 then 0x06040000 else if a AND 0xFC = 0x18 then 0x00050500 else 0x00011B36)"

theorem self_bridge_scan_never_ends_witness: "scan_bus loop_config 5 sample_pci = None"
proof (rule self_bridge_scan_never_ends [of 3])
  show "pci_read16 loop_config 5 3 0 PCI_VENDOR_ID \<noteq> 0xFFFF" by code_simp
  show "bridge_to loop_config 5 3 = Some 5" by code_simp
qed simp

end
