(* ===== verification/Bytes.thy ===== *)
theory Bytes
  imports Prelude
begin

text \<open>
  Little-endian numbers of any width in memory, for the structures that the kernel shares with devices and finds in files.
\<close>

unbundle bit_operations_syntax

definition load_le :: "nat \<Rightarrow> mem \<Rightarrow> ptr \<Rightarrow> 'a::len word" where
  "load_le n m a = fold (\<lambda>i w. w OR push_bit (8 * i) (ucast (m (a + of_nat i)))) [0..<n] 0"

definition store_le :: "nat \<Rightarrow> mem \<Rightarrow> ptr \<Rightarrow> 'a::len word \<Rightarrow> mem" where
  "store_le n m a v = (\<lambda>x. if within a n x then ucast (drop_bit (8 * unat (x - a)) v) else m x)"

abbreviation ld16 :: "mem \<Rightarrow> ptr \<Rightarrow> u16" where "ld16 \<equiv> load_le 2"
abbreviation ld32 :: "mem \<Rightarrow> ptr \<Rightarrow> u32" where "ld32 \<equiv> load_le 4"
abbreviation st16 :: "mem \<Rightarrow> ptr \<Rightarrow> u16 \<Rightarrow> mem" where "st16 \<equiv> store_le 2"
abbreviation st32 :: "mem \<Rightarrow> ptr \<Rightarrow> u32 \<Rightarrow> mem" where "st32 \<equiv> store_le 4"

lemma load_le_cong: "(\<And>i. i < n \<Longrightarrow> m (a + of_nat i) = m' (a + of_nat i)) \<Longrightarrow> load_le n m a = load_le n m' a"
  unfolding load_le_def by (rule fold_cong) auto

lemma store_le_other: "\<not> within a n x \<Longrightarrow> store_le n m a v x = m x"
  by (simp add: store_le_def)

lemma within_below: "unat a + n \<le> unat x \<Longrightarrow> unat a + n \<le> 2 ^ 64 \<Longrightarrow> \<not> within a n x"
  by (simp add: within_iff)

lemma unat_offset: "unat a + k < 2 ^ 64 \<Longrightarrow> unat (a + of_nat k :: u64) = unat a + k"
  by (simp add: unat_word_ariths unat_of_nat_u64)

end
