(* ===== verification/Virtio.thy ===== *)
theory Virtio
  imports Heap Pci Bytes
begin

text \<open>
  The network card driver of \<open>kernel/drivers/virtio_net.c\<close>: two queues whose rings lie in memory, where the card reads and writes
  them.  What the card answers on its ports is the argument \<open>card\<close>; what the driver writes to ports is appended to \<open>outs\<close>.  The
  card writes packets and the used ring into the memory of the state between two calls.

  The lemmas: setting up a queue takes a run of pages or gives back every page it took; polling ends, having handed over each
  packet that the card reported; and where the card has more entries than the driver uses, the two disagree about the
  entry that an index names.
\<close>

unbundle bit_operations_syntax

section \<open>Queues\<close>

abbreviation (input) VIRTQ_SIZE :: u16 where "VIRTQ_SIZE \<equiv> 128"
abbreviation (input) VIRTIO_NET_HDR_SIZE :: u64 where "VIRTIO_NET_HDR_SIZE \<equiv> 10"
abbreviation (input) PKT_BUF_SIZE :: u64 where "PKT_BUF_SIZE \<equiv> 1528"
abbreviation (input) VIRTQ_DESC_F_WRITE :: u16 where "VIRTQ_DESC_F_WRITE \<equiv> 2"
abbreviation (input) VIRTIO_DEV_FEATURES :: u16 where "VIRTIO_DEV_FEATURES \<equiv> 0x00"
abbreviation (input) VIRTIO_GUEST_FEATURES :: u16 where "VIRTIO_GUEST_FEATURES \<equiv> 0x04"
abbreviation (input) VIRTIO_QUEUE_ADDR :: u16 where "VIRTIO_QUEUE_ADDR \<equiv> 0x08"
abbreviation (input) VIRTIO_QUEUE_SEL :: u16 where "VIRTIO_QUEUE_SEL \<equiv> 0x0E"
abbreviation (input) VIRTIO_QUEUE_NOTIFY :: u16 where "VIRTIO_QUEUE_NOTIFY \<equiv> 0x10"
abbreviation (input) VIRTIO_DEV_STATUS :: u16 where "VIRTIO_DEV_STATUS \<equiv> 0x12"
abbreviation (input) VIRTIO_VENDOR :: u16 where "VIRTIO_VENDOR \<equiv> 0x1AF4"
abbreviation (input) VIRTIO_NET_DEV :: u16 where "VIRTIO_NET_DEV \<equiv> 0x1000"

record Virtqueue =
  desc :: ptr
  avail :: ptr
  used :: ptr
  vsize :: u16
  last_used :: u16
  buffers :: "ptr list"

text \<open>What the card answers: the size of each queue, its features, and the bytes of its address.\<close>

record card =
  queue_size :: "u16 \<Rightarrow> u16"
  features :: u32
  mac_reg :: "u16 \<Rightarrow> u8"

datatype out = Outb u16 u8 | Outw u16 u16 | Outl u16 u32 | Io_wait

record virtio = heap +
  initialised :: bool
  iobase :: u16
  mac_addr :: "u8 list"
  rxq :: Virtqueue
  txq :: Virtqueue
  tx_next_desc :: u16
  outs :: "out list"

definition emit :: "out list \<Rightarrow> 'a virtio_scheme \<Rightarrow> 'a virtio_scheme" where
  "emit os s = s\<lparr>outs := outs s @ os\<rparr>"

definition align_up :: "u64 \<Rightarrow> u64 \<Rightarrow> u64" where
  "align_up val align = (val + align - 1) AND NOT (align - 1)"

definition capped :: "u16 \<Rightarrow> u16" where
  "capped dev_size = (if VIRTQ_SIZE < dev_size then VIRTQ_SIZE else dev_size)"

definition avail_off :: "u16 \<Rightarrow> u64" where
  "avail_off dev_size = ucast dev_size * 16"

definition used_off :: "u16 \<Rightarrow> u64" where
  "used_off dev_size = align_up (avail_off dev_size + (6 + ucast dev_size * 2)) 4096"

definition ring_pages :: "u16 \<Rightarrow> u64" where
  "ring_pages dev_size = (used_off dev_size + (6 + ucast dev_size * 8) + 4095) div 4096"

primrec free_run :: "nat \<Rightarrow> ptr \<Rightarrow> 'a pmm_scheme \<Rightarrow> 'a pmm_scheme option" where
  "free_run 0 base s = Some s"
| "free_run (Suc j) base s = do {
     s \<leftarrow> free_run j base s;
     pmm_free_page (base + of_nat j * 4096) s }"

primrec take_pages :: "nat \<Rightarrow> ptr \<Rightarrow> u64 \<Rightarrow> 'a pmm_scheme \<Rightarrow> (bool \<times> 'a pmm_scheme) option" where
  "take_pages 0 base i s = Some (True, s)"
| "take_pages (Suc n) base i s = do {
     (p, s) \<leftarrow> pmm_alloc_page s;
     if p = NULL \<or> p \<noteq> base + i * 4096
     then do {
       s \<leftarrow> (if p \<noteq> NULL then pmm_free_page p s else Some s);
       s \<leftarrow> free_run (unat i) base s;
       Some (False, s) }
     else take_pages n base (i + 1) s }"

definition virtq_init :: "card \<Rightarrow> Virtqueue \<Rightarrow> u16 \<Rightarrow> 'a virtio_scheme \<Rightarrow> (int \<times> Virtqueue \<times> 'a virtio_scheme) option" where
  "virtq_init c vq qsel s = (
     let s = emit [Outw (iobase s + VIRTIO_QUEUE_SEL) qsel] s;
         dev_size = queue_size c qsel
     in if dev_size = 0 then Some (-1, vq, s)
        else let vq = vq\<lparr>vsize := capped dev_size\<rparr>; npages = ring_pages dev_size
        in do {
          (base, s) \<leftarrow> pmm_alloc_page s;
          if base = NULL then Some (-1, vq, s)
          else do {
            (ok, s) \<leftarrow> take_pages (unat npages - 1) base 1 s;
            if \<not> ok then Some (-1, vq, s)
            else Some (0,
              vq\<lparr>desc := base, avail := base + avail_off dev_size, used := base + used_off dev_size, last_used := 0\<rparr>,
              emit [Outl (iobase s + VIRTIO_QUEUE_ADDR) (ucast (drop_bit 12 base))]
                (s\<lparr>memory := memset (memory s) base 0 (npages * 4096)\<rparr>)) } })"

text \<open>The fields of a descriptor, and the entry of the available ring that the driver fills.\<close>

definition set_desc :: "Virtqueue \<Rightarrow> u64 \<Rightarrow> ptr \<Rightarrow> u32 \<Rightarrow> u16 \<Rightarrow> mem \<Rightarrow> mem" where
  "set_desc vq i a n flags m =
     (let d = desc vq + i * 16
      in st16 (st32 (store64 m d a) (d + 8) n) (d + 12) flags)"

definition set_next :: "Virtqueue \<Rightarrow> u64 \<Rightarrow> u16 \<Rightarrow> mem \<Rightarrow> mem" where
  "set_next vq i v m = st16 m (desc vq + i * 16 + 14) v"

definition avail_idx :: "Virtqueue \<Rightarrow> mem \<Rightarrow> u16" where
  "avail_idx vq m = ld16 m (avail vq + 2)"

definition used_idx :: "Virtqueue \<Rightarrow> mem \<Rightarrow> u16" where
  "used_idx vq m = ld16 m (used vq + 2)"

definition slot :: "Virtqueue \<Rightarrow> u16 \<Rightarrow> u16" where
  "slot vq idx = idx mod vsize vq"

definition push_avail :: "Virtqueue \<Rightarrow> u16 \<Rightarrow> mem \<Rightarrow> mem" where
  "push_avail vq di m =
     (let m = st16 m (avail vq + 4 + ucast (slot vq (avail_idx vq m)) * 2) di
      in st16 m (avail vq + 2) (avail_idx vq m + 1))"

section \<open>Setting up\<close>

definition set_rx_buffer :: "nat \<Rightarrow> ptr \<Rightarrow> 'a virtio_scheme \<Rightarrow> 'a virtio_scheme" where
  "set_rx_buffer i p s = s\<lparr>rxq := (rxq s)\<lparr>buffers := (buffers (rxq s))[i := p]\<rparr>\<rparr>"

definition set_tx_buffer :: "nat \<Rightarrow> ptr \<Rightarrow> 'a virtio_scheme \<Rightarrow> 'a virtio_scheme" where
  "set_tx_buffer i p s = s\<lparr>txq := (txq s)\<lparr>buffers := (buffers (txq s))[i := p]\<rparr>\<rparr>"

primrec rx_fill_loop :: "nat \<Rightarrow> nat \<Rightarrow> 'a virtio_scheme \<Rightarrow> 'a virtio_scheme option" where
  "rx_fill_loop 0 i s = Some s"
| "rx_fill_loop (Suc n) i s = do {
     s \<leftarrow> (if buffers (rxq s) ! i = NULL
          then do { (p, s) \<leftarrow> kmalloc PKT_BUF_SIZE s; Some (set_rx_buffer i p s) }
          else Some s);
     if buffers (rxq s) ! i = NULL then Some s
     else
       let vq = rxq s;
           m = set_desc vq (of_nat i) (buffers vq ! i) (ucast PKT_BUF_SIZE) VIRTQ_DESC_F_WRITE (memory s);
           m = set_next vq (of_nat i) 0 m
       in rx_fill_loop n (i + 1) (s\<lparr>memory := push_avail vq (of_nat i) m\<rparr>) }"

definition rx_fill :: "'a virtio_scheme \<Rightarrow> 'a virtio_scheme option" where
  "rx_fill s = do {
     s \<leftarrow> rx_fill_loop (unat (vsize (rxq s))) 0 s;
     Some (emit [Outw (iobase s + VIRTIO_QUEUE_NOTIFY) 0] s) }"

definition virtio_net_init ::
  "card \<Rightarrow> (u32 \<Rightarrow> u32 \<Rightarrow> config \<Rightarrow> config) \<Rightarrow> pci \<Rightarrow> config \<Rightarrow> 'a virtio_scheme \<Rightarrow> (int \<times> config \<times> 'a virtio_scheme) option" where
  "virtio_net_init c wr pc cfg s = (case pci_find_by_id VIRTIO_VENDOR VIRTIO_NET_DEV pc of
     None \<Rightarrow> Some (-1, cfg, s)
   | Some dev \<Rightarrow>
       if bar dev ! 0 AND 1 = 0 then Some (-1, cfg, s)
       else
         let s = s\<lparr>iobase := ucast (bar dev ! 0 AND 0xFFFC)\<rparr>;
             io = iobase s;
             cfg = pci_enable_bus_master wr dev cfg;
             s = emit [Outb (io + VIRTIO_DEV_STATUS) 0, Io_wait, Outb (io + VIRTIO_DEV_STATUS) 1,
                       Outb (io + VIRTIO_DEV_STATUS) (1 OR 2), Outl (io + VIRTIO_GUEST_FEATURES) (features c AND push_bit 5 1)] s
         in do {
           (r, q, s) \<leftarrow> virtq_init c (rxq s) 0 s;
           let s = s\<lparr>rxq := q\<rparr>;
           if r < 0 then Some (-1, cfg, s)
           else do {
             (r, q, s) \<leftarrow> virtq_init c (txq s) 1 s;
             let s = s\<lparr>txq := q\<rparr>;
             if r < 0 then Some (-1, cfg, s)
             else do {
               let s = emit [Outb (io + VIRTIO_DEV_STATUS) (1 OR 2 OR 4)] s;
               let s = s\<lparr>mac_addr := map (\<lambda>i. mac_reg c (of_nat i)) [0..<6]\<rparr>;
               s \<leftarrow> rx_fill s;
               Some (0, cfg, s\<lparr>initialised := True\<rparr>) } } })"

definition virtio_net_available :: "'a virtio_scheme \<Rightarrow> bool" where
  "virtio_net_available s = initialised s"

definition virtio_net_get_mac :: "'a virtio_scheme \<Rightarrow> u8 list" where
  "virtio_net_get_mac s = map (\<lambda>i. mac_addr s ! i) [0..<6]"

section \<open>Sending and receiving\<close>

definition virtio_net_tx :: "ptr \<Rightarrow> u16 \<Rightarrow> 'a virtio_scheme \<Rightarrow> (int \<times> 'a virtio_scheme) option" where
  "virtio_net_tx frame len s = (
     if \<not> initialised s \<or> 1518 < len then Some (-1, s)
     else
       let di = slot (txq s) (tx_next_desc s)
       in do {
         s \<leftarrow> (if buffers (txq s) ! unat di = NULL
              then do { (p, s) \<leftarrow> kmalloc PKT_BUF_SIZE s; Some (set_tx_buffer (unat di) p s) }
              else Some s);
         let vq = txq s;
         let b = buffers vq ! unat di;
         if b = NULL then Some (-1, s)
         else
           let m = memset (memory s) b 0 VIRTIO_NET_HDR_SIZE;
               m = memcpy m (b + VIRTIO_NET_HDR_SIZE) frame (ucast len);
               m = set_desc vq (ucast di) b (10 + ucast len) 0 m;
               m = set_next vq (ucast di) 0 m;
               s = s\<lparr>memory := push_avail vq di m, tx_next_desc := tx_next_desc s + 1\<rparr>
           in Some (0, emit [Outw (iobase s + VIRTIO_QUEUE_NOTIFY) 1] s) })"

text \<open>The callback \<open>cb\<close> is given the address and the length of a packet.\<close>

definition requeue :: "u32 \<Rightarrow> 'a virtio_scheme \<Rightarrow> 'a virtio_scheme" where
  "requeue di s =
     (let vq = rxq s;
          m = set_desc vq (ucast di) (buffers vq ! unat di) (ucast PKT_BUF_SIZE) VIRTQ_DESC_F_WRITE (memory s)
      in s\<lparr>memory := push_avail vq (ucast di) m\<rparr>)"

definition advance :: "'a virtio_scheme \<Rightarrow> 'a virtio_scheme" where
  "advance s = s\<lparr>rxq := (rxq s)\<lparr>last_used := last_used (rxq s) + 1\<rparr>\<rparr>"

definition used_elem :: "Virtqueue \<Rightarrow> mem \<Rightarrow> u16 \<Rightarrow> u32 \<times> u32" where
  "used_elem vq m idx =
     (let a = used vq + 4 + ucast (slot vq idx) * 8
      in (ld32 m a, ld32 m (a + 4)))"

partial_function (option) rx_loop ::
  "(ptr \<Rightarrow> u16 \<Rightarrow> 'a virtio_scheme \<Rightarrow> 'a virtio_scheme option) \<Rightarrow> int \<Rightarrow> 'a virtio_scheme \<Rightarrow> (int \<times> 'a virtio_scheme) option" where
  "rx_loop cb count s =
     (if last_used (rxq s) = used_idx (rxq s) (memory s) then Some (count, s)
      else
        let di = fst (used_elem (rxq s) (memory s) (last_used (rxq s)));
            plen = snd (used_elem (rxq s) (memory s) (last_used (rxq s)))
        in if ucast (vsize (rxq s)) \<le> di then rx_loop cb count (advance s)
           else do {
             s \<leftarrow> (if 10 < plen \<and> buffers (rxq s) ! unat di \<noteq> NULL
                  then cb (buffers (rxq s) ! unat di + VIRTIO_NET_HDR_SIZE) (ucast (plen - 10)) s
                  else Some s);
             rx_loop cb (count + 1) (advance (requeue di s)) })"

definition virtio_net_rx_poll ::
  "(ptr \<Rightarrow> u16 \<Rightarrow> 'a virtio_scheme \<Rightarrow> 'a virtio_scheme option) \<Rightarrow> 'a virtio_scheme \<Rightarrow> (int \<times> 'a virtio_scheme) option" where
  "virtio_net_rx_poll cb s =
     (if \<not> initialised s then Some (0, s)
      else do {
        (count, s) \<leftarrow> rx_loop cb 0 s;
        Some (count, if 0 < count then emit [Outw (iobase s + VIRTIO_QUEUE_NOTIFY) 0] s else s) })"

section \<open>Setting up a queue\<close>

lemma unat_ucast_u16: "unat (ucast (d :: u16) :: u64) = unat d"
proof -
  have "unat d < 2 ^ 64" by (rule order_less_trans [OF unsigned_less]) simp
  then show ?thesis by (simp add: unsigned_ucast_eq take_bit_nat_eq_self)
qed

lemma unat_avail_off: "unat (avail_off d) = 16 * unat d"
proof -
  have "unat d < 65536" using unsigned_less [of d] by simp
  then show ?thesis by (simp add: avail_off_def unat_word_ariths unat_ucast_u16)
qed

lemma unat_used_off: "unat (used_off d) = (18 * unat d + 4101) div 4096 * 4096"
proof -
  have d: "unat d < 65536" using unsigned_less [of d] by simp
  have "unat (avail_off d + (6 + ucast d * 2) + 4096 - 1 :: u64) = 18 * unat d + 4101"
    using d by (simp add: avail_off_def unat_word_ariths unat_ucast_u16)
  then show ?thesis
    unfolding used_off_def align_up_def using unat_align_down(1) [of "avail_off d + (6 + ucast d * 2) + 4096 - 1"] by simp
qed

lemma unat_ring_pages:
  "unat (ring_pages d) * 4096 \<ge> unat (used_off d) + 6 + 8 * unat d" "unat (ring_pages d) \<le> 500" "0 < unat (ring_pages d)"
proof -
  have d: "unat d < 65536" using unsigned_less [of d] by simp
  have u: "unat (used_off d) < 1200000" unfolding unat_used_off using d by linarith
  have "unat (used_off d + (6 + ucast d * 8) + 4095 :: u64) = unat (used_off d) + 8 * unat d + 4101"
    using d u by (simp add: unat_word_ariths unat_ucast_u16)
  then have e: "unat (ring_pages d) = (unat (used_off d) + 8 * unat d + 4101) div 4096"
    by (simp add: ring_pages_def unat_div)
  show "unat (ring_pages d) * 4096 \<ge> unat (used_off d) + 6 + 8 * unat d" "unat (ring_pages d) \<le> 500" "0 < unat (ring_pages d)"
    unfolding e using d u by linarith+
qed

lemma page_base: "aligned 4096 p \<Longrightarrow> p = of_nat (page_of p) * 4096"
proof -
  assume "aligned 4096 p"
  then have "unat p = page_of p * 4096" by (auto simp: aligned_def page_of_def)
  moreover have "p = of_nat (unat p)" by simp
  ultimately show ?thesis by simp
qed

lemma free_run_spec:
  assumes "pmm_inv s" and "0 < b" and "b + j \<le> unat (total_pages s)"
  shows "\<exists>s'. free_run j (of_nat b * 4096) s = Some s' \<and> pmm_inv s' \<and> free_set s' = free_set s \<union> {b..<b + j}
    \<and> total_pages s' = total_pages s \<and> pmm.more s' = pmm.more s"
  using assms(3)
proof (induction j)
  case 0
  then show ?case using assms(1) by simp
next
  case (Suc j)
  then obtain s1 where s1: "free_run j (of_nat b * 4096) s = Some s1" "pmm_inv s1" "free_set s1 = free_set s \<union> {b..<b + j}"
    "total_pages s1 = total_pages s" "pmm.more s1 = pmm.more s" by auto
  have e: "of_nat b * 4096 + of_nat j * 4096 = (of_nat (b + j) * PAGE_SIZE :: u64)" by (simp add: algebra_simps)
  have "unat (total_pages s) \<le> 2 ^ 52" using assms(1) by (simp add: pmm_inv_def)
  then have lt: "b + j < 2 ^ 52" using Suc.prems by linarith
  have p: "page_of (of_nat (b + j) * PAGE_SIZE) = b + j" using lt by (rule page_of_page)
  obtain s2 where s2: "pmm_free_page (of_nat (b + j) * PAGE_SIZE) s1 = Some s2" "pmm_inv s2" "free_set s2 = insert (b + j) (free_set s1)"
    "total_pages s2 = total_pages s1" "pmm.more s2 = pmm.more s1"
    using pmm_free_page_spec [OF s1(2), of "of_nat (b + j) * PAGE_SIZE"] p assms(2) Suc.prems s1(4) by auto
  have "free_run (Suc j) (of_nat b * 4096) s = Some s2"
    using s1(1) s2(1) unfolding e [symmetric] by simp
  moreover have "free_set s2 = free_set s \<union> {b..<b + Suc j}"
  proof -
    have "{b..<b + Suc j} = insert (b + j) {b..<b + j}" by auto
    then show ?thesis using s1(3) s2(3) by blast
  qed
  ultimately show ?case using s1 s2 by simp
qed

lemma take_pages_spec:
  assumes "pmm_inv s" and "0 < b" and "b + i \<le> unat (total_pages s)" and "i + n < 2 ^ 32"
    and "free_set s = F - {b..<b + i}" and "{b..<b + i} \<subseteq> F"
  shows "\<exists>ok s'. take_pages n (of_nat b * 4096) (of_nat i) s = Some (ok, s') \<and> pmm_inv s' \<and> pmm.more s' = pmm.more s
    \<and> total_pages s' = total_pages s
    \<and> free_set s' = (if ok then F - {b..<b + i + n} else F) \<and> (ok \<longrightarrow> {b..<b + i + n} \<subseteq> F)"
  using assms
proof (induction n arbitrary: i s)
  case 0
  then show ?case by (intro exI [of _ True]) simp
next
  case (Suc n)
  have ui: "unat (of_nat i :: u64) = i" using Suc.prems(4) by (simp add: unat_of_nat_u64)
  have t52: "unat (total_pages s) \<le> 2 ^ 52" using Suc.prems(1) by (simp add: pmm_inv_def)
  show ?case
  proof (cases rule: pmm_alloc_page_cases [OF Suc.prems(1)])
    case 1
    obtain s2 where r: "free_run i (of_nat b * 4096) (unlocked s) = Some s2" "pmm_inv s2" "free_set s2 = free_set (unlocked s) \<union> {b..<b + i}"
      "total_pages s2 = total_pages s" "pmm.more s2 = pmm.more s"
      using free_run_spec [OF 1(3) Suc.prems(2), of i] Suc.prems(3) by auto
    have "take_pages (Suc n) (of_nat b * 4096) (of_nat i) s = Some (False, s2)" using 1(1) r(1) ui by simp
    moreover have "free_set s2 = F" using r(3) 1(4) Suc.prems(5,6) by blast
    ultimately show ?thesis using r by (intro exI [of _ False] exI [of _ s2]) simp
  next
    case (2 p s1)
    have pf: "page_of p \<in> free_set s" using 2(5) by (simp add: allocatable_def free_set_def)
    have pt: "page_of p \<noteq> 0" "page_of p < unat (total_pages s)" using pf Suc.prems(1) by (auto simp: pmm_inv_def free_set_def)
    show ?thesis
    proof (cases "p = of_nat b * 4096 + of_nat i * 4096")
      case True
      then have pe: "p = of_nat (b + i) * PAGE_SIZE" by (simp add: algebra_simps)
      have "b + i < 2 ^ 52 \<or> b + i = 2 ^ 52" using Suc.prems(3) t52 by linarith
      then have pg: "page_of p = b + i"
      proof
        assume "b + i < 2 ^ 52"
        then show ?thesis unfolding pe by (rule page_of_page)
      next
        assume "b + i = 2 ^ 52"
        then have "p = NULL" unfolding pe by simp
        then show ?thesis using 2(3) by simp
      qed
      have set: "{b..<b + Suc i} = insert (b + i) {b..<b + i}" by auto
      have f1: "free_set s1 = F - {b..<b + Suc i}" unfolding set 2(7) pg Suc.prems(5) by blast
      have f2: "{b..<b + Suc i} \<subseteq> F" unfolding set using pf Suc.prems(5,6) by (simp add: pg)
      have f3: "b + Suc i \<le> unat (total_pages s1)" using pt(2) pg 2(10) by simp
      have f4: "Suc i + n < 2 ^ 32" using Suc.prems(4) by simp
      obtain ok s' where r: "take_pages n (of_nat b * 4096) (of_nat (Suc i)) s1 = Some (ok, s')" "pmm_inv s'" "pmm.more s' = pmm.more s1"
        "total_pages s' = total_pages s1" "free_set s' = (if ok then F - {b..<b + Suc i + n} else F)" "ok \<longrightarrow> {b..<b + Suc i + n} \<subseteq> F"
        using Suc.IH [OF 2(2) Suc.prems(2) f3 f4 f1 f2] by blast
      have "take_pages (Suc n) (of_nat b * 4096) (of_nat i) s = Some (ok, s')" using 2(1,3) True r(1) by (simp add: add.commute)
      then show ?thesis using r 2(10,11) by (intro exI [of _ ok] exI [of _ s']) simp
    next
      case False
      obtain s2 where s2: "pmm_free_page p s1 = Some s2" "pmm_inv s2" "free_set s2 = insert (page_of p) (free_set s1)"
        "total_pages s2 = total_pages s1" "pmm.more s2 = pmm.more s1"
        using pmm_free_page_spec [OF 2(2), of p] pt 2(10) by auto
      have f: "free_set s2 = free_set s" using s2(3) 2(7) pf by auto
      obtain s3 where r: "free_run i (of_nat b * 4096) s2 = Some s3" "pmm_inv s3" "free_set s3 = free_set s2 \<union> {b..<b + i}"
        "total_pages s3 = total_pages s2" "pmm.more s3 = pmm.more s2"
        using free_run_spec [OF s2(2) Suc.prems(2), of i] Suc.prems(3) s2(4) 2(10) by auto
      have "take_pages (Suc n) (of_nat b * 4096) (of_nat i) s = Some (False, s3)" using 2(1,3) False s2(1) r(1) ui by simp
      moreover have "free_set s3 = F" using r(3) f Suc.prems(5,6) by blast
      ultimately show ?thesis using r s2(4,5) 2(10,11) by (intro exI [of _ False] exI [of _ s3]) simp
    qed
  qed
qed

text \<open>The rings of a queue lie one behind the other.\<close>

definition ring_ok :: "Virtqueue \<Rightarrow> bool" where
  "ring_ok vq \<longleftrightarrow> 0 < unat (vsize vq) \<and> unat (vsize vq) \<le> 128
     \<and> unat (desc vq) + 16 * unat (vsize vq) \<le> unat (avail vq)
     \<and> unat (avail vq) + 6 + 2 * unat (vsize vq) \<le> unat (used vq)
     \<and> unat (used vq) + 6 + 8 * unat (vsize vq) \<le> 2 ^ 64"

lemma pmm_inv_emit [simp]: "pmm_inv (emit os s) = pmm_inv s" "free_set (emit os s) = free_set s" "total_pages (emit os s) = total_pages s"
  "memory (emit os s) = memory s" "iobase (emit os s) = iobase s"
  by (simp_all add: emit_def pmm_inv_def free_set_def)

lemma pmm_inv_memory [simp]: "pmm_inv (memory_update f s) = pmm_inv s" "free_set (memory_update f s) = free_set s"
  by (simp_all add: pmm_inv_def free_set_def)

lemma unat_capped: "unat (capped d) = min 128 (unat d)"
  by (simp add: capped_def min_def word_less_nat_alt)

lemma ring_ok_layout:
  assumes "0 < unat d" and "unat base + unat (ring_pages d) * 4096 \<le> 2 ^ 64"
  shows "ring_ok (vq\<lparr>vsize := capped d, desc := base, avail := base + avail_off d, used := base + used_off d, last_used := 0\<rparr>)"
proof -
  have d: "unat d < 65536" using unsigned_less [of d] by simp
  have l: "unat base + unat (used_off d) + 6 + 8 * unat d \<le> 2 ^ 64" using unat_ring_pages(1) [of d] assms(2) by linarith
  have o: "16 * unat d + 6 + 2 * unat d \<le> unat (used_off d)" unfolding unat_used_off by linarith
  have "unat base + unat (used_off d) < 2 ^ 64" using l by linarith
  then have u: "unat (base + used_off d) = unat base + unat (used_off d)" using unat_add_lem [of base "used_off d"] by simp
  have "unat base + unat (avail_off d) < 2 ^ 64" using l o unat_avail_off [of d] by linarith
  then have a: "unat (base + avail_off d) = unat base + 16 * unat d" using unat_add_lem [of base "avail_off d"] unat_avail_off [of d] by simp
  have "min 128 (unat d) \<le> unat d" by simp
  then show ?thesis
    unfolding ring_ok_def using assms(1) l o by (auto simp: u a unat_capped)
qed


section \<open>Polling\<close>

lemma slot_less: "ring_ok vq \<Longrightarrow> unat (slot vq i) < unat (vsize vq)"
  by (simp add: ring_ok_def slot_def unat_mod)

text \<open>Writing descriptors and the available ring leaves the used ring alone.\<close>

lemma set_desc_above:
  assumes "ring_ok vq" and "unat i < unat (vsize vq)" and "unat (avail vq) \<le> unat x"
  shows "set_desc vq i a n f m x = m x"
proof -
  define k where "k = 16 * unat i"
  have d: "desc vq + i * 16 = desc vq + of_nat k" by (simp add: k_def mult.commute)
  have l: "unat (desc vq) + k + 16 \<le> unat x" using assms by (simp add: ring_ok_def k_def)
  have b: "unat (desc vq) + k + 16 < 2 ^ 64" using l unat_lt_u64 [of x] by linarith
  have e: "desc vq + of_nat k + 8 = desc vq + of_nat (k + 8)" "desc vq + of_nat k + 12 = desc vq + of_nat (k + 12)" by simp_all
  have w: "\<not> within (desc vq + of_nat k) 8 x" "\<not> within (desc vq + of_nat (k + 8)) 4 x" "\<not> within (desc vq + of_nat (k + 12)) 2 x"
    using l b by (intro within_below; simp only: unat_offset)+
  show ?thesis
    unfolding set_desc_def Let_def d e using w by (simp add: store_le_other store64_def)
qed

lemma push_avail_above:
  assumes "ring_ok vq" and "unat (used vq) \<le> unat x"
  shows "push_avail vq di m x = m x"
proof -
  define k where "k = 2 * unat (slot vq (avail_idx vq m))"
  have d: "avail vq + 4 + ucast (slot vq (avail_idx vq m)) * 2 = avail vq + of_nat (4 + k)"
    by (simp add: k_def mult.commute unat_ucast_u16)
  have l: "unat (avail vq) + 4 + k + 2 \<le> unat x" using assms slot_less [OF assms(1), of "avail_idx vq m"] by (simp add: ring_ok_def k_def)
  have b: "unat (avail vq) + 4 + k + 2 < 2 ^ 64" using l unat_lt_u64 [of x] by linarith
  have w: "\<not> within (avail vq + of_nat (4 + k)) 2 x" "\<not> within (avail vq + of_nat 2) 2 x"
    using l b by (intro within_below; simp only: unat_offset)+
  show ?thesis
    unfolding push_avail_def Let_def d using w by (simp add: store_le_other)
qed

lemma unat_used_elem:
  assumes "ring_ok vq" and "k < 8"
  shows "unat (used vq) \<le> unat (used vq + 4 + ucast (slot vq i) * 8 + of_nat k)"
proof -
  let ?j = "4 + 8 * unat (slot vq i) + k"
  have l: "unat (used vq) + ?j < 2 ^ 64" using slot_less [OF assms(1), of i] assms by (simp add: ring_ok_def)
  have "used vq + 4 + ucast (slot vq i) * 8 + of_nat k = used vq + of_nat ?j"
    by (simp add: unat_ucast_u16 [symmetric] mult.commute add.assoc)
  then show ?thesis using unat_offset [OF l] by (simp only: le_add1)
qed

lemma used_elem_cong:
  assumes "ring_ok vq" and "\<And>x. unat (used vq) \<le> unat x \<Longrightarrow> m x = m' x"
  shows "used_elem vq m i = used_elem vq m' i"
proof -
  let ?a = "used vq + 4 + ucast (slot vq i) * 8"
  have "ld32 m ?a = ld32 m' ?a"
    using unat_used_elem [OF assms(1), of _ i] by (intro load_le_cong assms(2)) simp
  moreover have "ld32 m (?a + 4) = ld32 m' (?a + 4)"
  proof (intro load_le_cong assms(2))
    fix k :: nat assume "k < 4"
    then show "unat (used vq) \<le> unat (?a + 4 + of_nat k)" using unat_used_elem [OF assms(1), of "4 + k" i] by (simp add: add.assoc)
  qed
  ultimately show ?thesis by (simp add: used_elem_def Let_def)
qed

lemma used_idx_cong:
  assumes "ring_ok vq" and "\<And>x. unat (used vq) \<le> unat x \<Longrightarrow> m x = m' x"
  shows "used_idx vq m = used_idx vq m'"
  unfolding used_idx_def
proof (intro load_le_cong assms(2))
  fix k :: nat assume "k < 2"
  then have "unat (used vq) + (2 + k) < 2 ^ 64" using assms(1) by (simp add: ring_ok_def)
  then show "unat (used vq) \<le> unat (used vq + 2 + of_nat k)" using unat_offset [of "used vq" "2 + k"] by (simp add: add.assoc)
qed

text \<open>The packets that the used ring reports and the driver has not seen.\<close>

definition packet :: "Virtqueue \<Rightarrow> mem \<Rightarrow> u16 \<Rightarrow> (ptr \<times> u16) list" where
  "packet vq m idx =
     (let di = fst (used_elem vq m idx); plen = snd (used_elem vq m idx)
      in if \<not> ucast (vsize vq) \<le> di \<and> 10 < plen \<and> buffers vq ! unat di \<noteq> NULL
         then [(buffers vq ! unat di + VIRTIO_NET_HDR_SIZE, ucast (plen - 10))] else [])"

definition reported :: "Virtqueue \<Rightarrow> mem \<Rightarrow> (ptr \<times> u16) list" where
  "reported vq m = concat (map (\<lambda>k. packet vq m (last_used vq + of_nat k)) [0..<unat (used_idx vq m - last_used vq)])"

definition deliver :: "(ptr \<Rightarrow> u16 \<Rightarrow> 'a \<Rightarrow> 'a) \<Rightarrow> ptr \<Rightarrow> u16 \<Rightarrow> 'a virtio_scheme \<Rightarrow> 'a virtio_scheme option" where
  "deliver f p n s = Some (virtio.more_update (f p n) s)"

lemma requeue_above:
  assumes "ring_ok (rxq s)" and "\<not> ucast (vsize (rxq s)) \<le> di" and "unat (used (rxq s)) \<le> unat x"
  shows "memory (requeue di s) x = memory s x"
proof -
  have u: "unat (ucast (vsize (rxq s)) :: u32) = unat (vsize (rxq s))"
  proof -
    have "unat (vsize (rxq s)) < 2 ^ 32" by (rule order_less_trans [OF unsigned_less]) simp
    then show ?thesis by (simp add: unsigned_ucast_eq take_bit_nat_eq_self)
  qed
  have "unat (ucast di :: u64) = unat di"
  proof -
    have "unat di < 2 ^ 64" by (rule order_less_trans [OF unsigned_less]) simp
    then show ?thesis by (simp add: unsigned_ucast_eq take_bit_nat_eq_self)
  qed
  then have "unat (ucast di :: u64) < unat (vsize (rxq s))" using assms(2) u by (simp add: word_le_nat_alt)
  moreover have "unat (avail (rxq s)) \<le> unat x" using assms(1,3) by (simp add: ring_ok_def)
  ultimately show ?thesis
    using assms by (simp add: requeue_def Let_def push_avail_above set_desc_above)
qed

lemma reported_step:
  assumes "last_used vq \<noteq> used_idx vq m" and "ring_ok vq" and "\<And>x. unat (used vq) \<le> unat x \<Longrightarrow> m' x = m x"
  shows "reported vq m = packet vq m (last_used vq) @ reported (vq\<lparr>last_used := last_used vq + 1\<rparr>) m'"
    and "unat (used_idx vq m - last_used vq) = Suc (unat (used_idx vq m' - (last_used vq + 1)))"
proof -
  have i: "used_idx vq m' = used_idx vq m" using used_idx_cong [OF assms(2)] assms(3) by metis
  show n: "unat (used_idx vq m - last_used vq) = Suc (unat (used_idx vq m' - (last_used vq + 1)))"
  proof -
    have "used_idx vq m - last_used vq \<noteq> 0" using assms(1) by simp
    then have "unat (used_idx vq m - last_used vq - 1) = unat (used_idx vq m - last_used vq) - 1" "0 < unat (used_idx vq m - last_used vq)"
      by (simp_all add: unat_minus_one_lt unat_gt_0)
    moreover have "used_idx vq m - (last_used vq + 1) = used_idx vq m - last_used vq - 1" by (rule diff_diff_add [symmetric])
    ultimately show ?thesis unfolding i by (simp only: Suc_diff_1)
  qed
  have p: "packet (vq\<lparr>last_used := l\<rparr>) m' j = packet vq m j" for l j
  proof -
    have "used_elem vq m' j = used_elem vq m j" using used_elem_cong [OF assms(2)] assms(3) by metis
    moreover have "used_elem (vq\<lparr>last_used := l\<rparr>) m' j = used_elem vq m' j" by (simp add: used_elem_def slot_def)
    ultimately show ?thesis by (simp add: packet_def Let_def)
  qed
  have ui: "used_idx (vq\<lparr>last_used := l\<rparr>) m' = used_idx vq m'" for l by (simp add: used_idx_def)
  have "[0..<Suc k] = 0 # map Suc [0..<k]" for k by (simp add: map_Suc_upt upt_conv_Cons)
  then show "reported vq m = packet vq m (last_used vq) @ reported (vq\<lparr>last_used := last_used vq + 1\<rparr>) m'"
    unfolding reported_def n p ui by (simp add: comp_def add.assoc)
qed

lemma advance_simps [simp]:
  "rxq (advance s) = (rxq s)\<lparr>last_used := last_used (rxq s) + 1\<rparr>" "memory (advance s) = memory s"
  "virtio.more (advance s) = virtio.more s" "rxq (requeue di s) = rxq s" "virtio.more (requeue di s) = virtio.more s"
  by (simp_all add: advance_def requeue_def Let_def)

lemma rx_loop_delivers:
  assumes "ring_ok (rxq s)"
  shows "\<exists>count' s'. rx_loop (deliver f) count s = Some (count', s')
    \<and> virtio.more s' = fold (\<lambda>(p, n). f p n) (reported (rxq s) (memory s)) (virtio.more s)
    \<and> last_used (rxq s') = used_idx (rxq s) (memory s)
    \<and> count + int (length (reported (rxq s) (memory s))) \<le> count' \<and> count' \<le> count + int (unat (used_idx (rxq s) (memory s) - last_used (rxq s)))"
  using assms
proof (induction "unat (used_idx (rxq s) (memory s) - last_used (rxq s))" arbitrary: count s)
  case 0
  then have "last_used (rxq s) = used_idx (rxq s) (memory s)" by (simp add: unat_eq_0)
  then show ?case by (simp add: rx_loop.simps [of _ count s] reported_def)
next
  case (Suc n)
  let ?vq = "rxq s" and ?m = "memory s"
  have ne: "last_used ?vq \<noteq> used_idx ?vq ?m" using Suc.hyps(2) by auto
  define di plen where "di = fst (used_elem ?vq ?m (last_used ?vq))" and "plen = snd (used_elem ?vq ?m (last_used ?vq))"
  have ring': "ring_ok (?vq\<lparr>last_used := l\<rparr>)" for l using Suc.prems by (simp add: ring_ok_def)
  have ui: "used_idx (?vq\<lparr>last_used := l\<rparr>) m' = used_idx ?vq m'" for l m' by (simp add: used_idx_def)
  show ?case
  proof (cases "ucast (vsize ?vq) \<le> di")
    case True
    then have "packet ?vq ?m (last_used ?vq) = []" by (simp add: packet_def di_def)
    then have r: "reported ?vq ?m = reported (rxq (advance s)) (memory (advance s))"
      using reported_step(1) [OF ne Suc.prems, of ?m] by simp
    have k: "n = unat (used_idx (rxq (advance s)) (memory (advance s)) - last_used (rxq (advance s)))"
      using reported_step(2) [OF ne Suc.prems, of ?m] Suc.hyps(2) by (simp add: ui)
    have "rx_loop (deliver f) count s = rx_loop (deliver f) count (advance s)"
      using ne True by (simp add: rx_loop.simps [of _ count s] di_def Let_def)
    moreover obtain c s' where "rx_loop (deliver f) count (advance s) = Some (c, s')"
      "virtio.more s' = fold (\<lambda>(p, n). f p n) (reported ?vq ?m) (virtio.more s)" "last_used (rxq s') = used_idx ?vq ?m"
      "count + int (length (reported ?vq ?m)) \<le> c" "c \<le> count + int n"
      using Suc.hyps(1) [OF k, of count] ring' r k by (auto simp: ui)
    ultimately show ?thesis unfolding Suc.hyps(2) [symmetric] by auto
  next
    case False
    define s1 where "s1 = (if 10 < plen \<and> buffers ?vq ! unat di \<noteq> NULL
        then virtio.more_update (f (buffers ?vq ! unat di + VIRTIO_NET_HDR_SIZE) (ucast (plen - 10))) s else s)"
    have s1: "rxq s1 = ?vq" "memory s1 = ?m" by (simp_all add: s1_def)
    have mr: "virtio.more s1 = fold (\<lambda>(p, n). f p n) (packet ?vq ?m (last_used ?vq)) (virtio.more s)"
      using False by (simp add: s1_def packet_def di_def plen_def Let_def)
    let ?s2 = "advance (requeue di s1)"
    have m2: "memory ?s2 x = ?m x" if "unat (used ?vq) \<le> unat x" for x
      using requeue_above [of s1 di x] Suc.prems False that s1 by simp
    have r: "reported ?vq ?m = packet ?vq ?m (last_used ?vq) @ reported (rxq ?s2) (memory ?s2)"
      using reported_step(1) [OF ne Suc.prems m2] s1 by simp
    have k: "n = unat (used_idx (rxq ?s2) (memory ?s2) - last_used (rxq ?s2))"
      using reported_step(2) [OF ne Suc.prems m2] Suc.hyps(2) s1 by (simp add: ui)
    have u: "used_idx (rxq ?s2) (memory ?s2) = used_idx ?vq ?m"
      using used_idx_cong [OF Suc.prems, of "memory ?s2" ?m] m2 s1 by (simp add: ui)
    have e: "rx_loop (deliver f) count s = rx_loop (deliver f) (count + 1) ?s2"
      using ne False by (simp add: rx_loop.simps [of _ count s] di_def plen_def Let_def deliver_def s1_def)
    have "ring_ok (rxq ?s2)" using ring' s1 by simp
    from Suc.hyps(1) [OF k this, of "count + 1"] obtain c s' where IH: "rx_loop (deliver f) (count + 1) ?s2 = Some (c, s')"
      "virtio.more s' = fold (\<lambda>(p, n). f p n) (reported (rxq ?s2) (memory ?s2)) (virtio.more ?s2)"
      "last_used (rxq s') = used_idx (rxq ?s2) (memory ?s2)"
      "count + 1 + int (length (reported (rxq ?s2) (memory ?s2))) \<le> c" "c \<le> count + 1 + int n"
      using k by auto
    have "length (packet ?vq ?m (last_used ?vq)) \<le> 1" by (simp add: packet_def Let_def)
    then have "count + int (length (reported ?vq ?m)) \<le> c" unfolding r length_append using IH(4) by linarith
    moreover have "virtio.more s' = fold (\<lambda>(p, n). f p n) (reported ?vq ?m) (virtio.more s)"
      unfolding r fold_append comp_def using IH(2) mr by simp
    ultimately show ?thesis unfolding Suc.hyps(2) [symmetric] using e IH(1,3,5) u by auto
  qed
qed


section \<open>A card with more entries than the driver uses\<close>

text \<open>C25: the driver uses at most 128 entries of each ring, but the card counts modulo its own size, a power of two.  After a
  successful set-up of a queue of more than 128 entries, the entry that the driver uses for an index is the one that the card uses
  exactly if the index, modulo the size of the card's queue, is below 128; for the other indices they use different entries.\<close>

theorem ring_slots_differ:
  assumes "virtq_init c vq qsel s = Some (0, vq', s')" and "unat (queue_size c qsel) = 2 ^ k" and "7 < k"
  shows "slot vq' idx = idx mod queue_size c qsel \<longleftrightarrow> idx mod queue_size c qsel < 128"
proof -
  have "(2 :: nat) ^ 7 < 2 ^ k" using assms(3) by (intro power_strict_increasing) simp_all
  then have "128 < queue_size c qsel" using assms(2) by (simp add: word_less_nat_alt)
  then have v: "vsize vq' = 128"
    using assms(1) by (auto simp: virtq_init_def Let_def capped_def bind_eq_Some_conv split: if_splits)
  have "(2 :: nat) ^ 7 dvd 2 ^ k" using assms(3) by (intro le_imp_power_dvd) simp
  then have c: "unat idx mod 2 ^ k mod 2 ^ 7 = unat idx mod 2 ^ 7" by (rule mod_mod_cancel)
  have "unat idx mod 128 = unat idx mod 2 ^ k \<longleftrightarrow> unat idx mod 2 ^ k < 128"
    using c mod_less_divisor [of 128 "unat idx mod 2 ^ k"] by auto
  then show ?thesis
    using v assms(2) by (simp add: slot_def word_unat_eq_iff unat_mod word_less_nat_alt)
qed

section \<open>Concrete queues\<close>

lemma alloc_lowest:
  assumes "pmm_inv s" and "free_set s = {b..<e}" and "b < e" and "e \<le> 2 ^ 20"
  shows "\<exists>s'. pmm_alloc_page s = Some (of_nat b * 4096, s') \<and> pmm_inv s' \<and> free_set s' = {Suc b..<e}"
proof -
  have a: "allocatable s = {b..<e}" using assms(2,4) by (auto simp: allocatable_def free_set_def)
  show ?thesis
  proof (cases rule: pmm_alloc_page_cases [OF assms(1)])
    case 1
    then show ?thesis using a assms(3) by simp
  next
    case (2 p s')
    have "page_of p = b" using 2(5,6) a assms(3) by (metis atLeastLessThan_iff le_refl order_antisym)
    moreover have "{b..<e} - {b} = {Suc b..<e}" by auto
    ultimately show ?thesis using 2(1,2,7) assms(2) page_base [OF 2(4)] by auto
  qed
qed

lemma take_pages_lowest:
  assumes "pmm_inv s" and "free_set s = {b + i..<b + i + n}" and "b + i + n \<le> 2 ^ 20" and "0 < b"
  shows "\<exists>s'. take_pages n (of_nat b * 4096) (of_nat i) s = Some (True, s')"
  using assms
proof (induction n arbitrary: i s)
  case 0
  then show ?case by simp
next
  case (Suc n)
  obtain s1 where s1: "pmm_alloc_page s = Some (of_nat (b + i) * 4096, s1)" "pmm_inv s1" "free_set s1 = {Suc (b + i)..<b + i + Suc n}"
    using alloc_lowest [OF Suc.prems(1,2)] Suc.prems(3) by auto
  have lt: "b + i < 2 ^ 52" using Suc.prems(3) by simp
  have "unat (of_nat (b + i) * 4096 :: u64) = (b + i) * 4096" using lt by (rule page_of_page)
  then have nz: "of_nat (b + i) * 4096 \<noteq> NULL" using Suc.prems(4) by (metis add_is_0 less_numeral_extra(3) mult_is_0 unat_0 zero_neq_numeral)
  have e: "of_nat (b + i) * 4096 = (of_nat b * 4096 + of_nat i * 4096 :: u64)" by (simp add: algebra_simps)
  obtain s' where "take_pages n (of_nat b * 4096) (of_nat (Suc i)) s1 = Some (True, s')"
    using Suc.IH [OF s1(2), of "Suc i"] s1(3) Suc.prems(3,4) by auto
  then show ?case using s1(1) nz unfolding e by (simp add: add.commute)
qed

definition sample_vq :: Virtqueue where
  "sample_vq = \<lparr>desc = 0x1000, avail = 0x1100, used = 0x2000, vsize = 4, last_used = 0, buffers = (replicate 128 0)[2 := 0x3000]\<rparr>"

text \<open>A card with queues of 256 entries, pages 1 to 3 free, and one packet of 60 bytes that the card put into buffer 2.\<close>

definition sample_card :: card where
  "sample_card = \<lparr>queue_size = (\<lambda>_. 256), features = 0x20, mac_reg = (\<lambda>_. 0x52)\<rparr>"

definition sample_virtio :: "(ptr \<times> u16) list virtio_scheme" where
  "sample_virtio = \<lparr>rflags = 0x202, pmm_lock = SPINLOCK_INIT, bitmap = [14], bitmap_ptr = 0x1000, bitmap_size = 8, total_pages = 64,
     free_count = 3, highest_page = 64, memory = (\<lambda>_. 0)(0x2002 := 1, 0x2004 := 2, 0x2008 := 60), heap_lock = SPINLOCK_INIT, heap_start = 0, heap_end = 0,
     free_list = 0, initialised = True, iobase = 0xC000, mac_addr = replicate 6 0, rxq = sample_vq, txq = sample_vq, tx_next_desc = 0, outs = [], \<dots> = []\<rparr>"

lemma bit_14: "bit (14 :: u64) n \<longleftrightarrow> n = 1 \<or> n = 2 \<or> n = 3"
proof -
  have "(14 :: u64) = 2 ^ 1 OR 2 ^ 2 OR 2 ^ 3" by simp
  then show ?thesis by (simp only: bit_or_iff bit_single) auto
qed

lemma sample_virtio_pmm: "pmm_inv sample_virtio" "free_set sample_virtio = {1..<4}"
proof -
  have b: "bits [14] = {1..<4}" by (simp only: bits_singleton bit_14) auto
  then show "free_set sample_virtio = {1..<4}" by (simp add: free_set_def sample_virtio_def)
  show "pmm_inv sample_virtio" using b by (auto simp add: pmm_inv_def sample_virtio_def SPINLOCK_INIT_def)
qed



theorem ring_slots_differ_witness:
  "\<exists>vq' s'. virtq_init sample_card sample_vq 0 sample_virtio = Some (0, vq', s') \<and> slot vq' 128 \<noteq> 128 mod 256"
proof -
  let ?s = "emit [Outw (iobase sample_virtio + VIRTIO_QUEUE_SEL) 0] sample_virtio"
  have n: "ring_pages 256 = 3" by code_simp
  obtain s1 where s1: "pmm_alloc_page ?s = Some (of_nat 1 * 4096, s1)" "pmm_inv s1" "free_set s1 = {Suc 1..<4}"
    using alloc_lowest [of ?s 1 4] sample_virtio_pmm by auto
  have f: "free_set s1 = {1 + 1..<1 + 1 + 2}" using s1(3) by (simp add: eval_nat_numeral)
  obtain s2 where "take_pages 2 (of_nat 1 * 4096) (of_nat 1) s1 = Some (True, s2)"
    using take_pages_lowest [OF s1(2) f] by auto
  then have "\<exists>vq' s'. virtq_init sample_card sample_vq 0 sample_virtio = Some (0, vq', s')"
    using s1(1) by (simp add: virtq_init_def Let_def sample_card_def n)
  then obtain vq' s' where v: "virtq_init sample_card sample_vq 0 sample_virtio = Some (0, vq', s')" by blast
  have "slot vq' 128 = 128 mod queue_size sample_card 0 \<longleftrightarrow> 128 mod queue_size sample_card 0 < 128"
    by (rule ring_slots_differ [OF v, of 8]) (simp_all add: sample_card_def)
  then show ?thesis using v by (simp add: sample_card_def)
qed

end
