(* ===== verification/User.thy ===== *)
theory User
  imports Vmm Vfs
begin

text \<open>
  Tasks in user mode, \<open>kernel/user.c\<close>.  A new task starts in the kernel, in a trampoline that finds the entry point and the stack of
  the program in a table of pending starts and jumps to user mode; the jump itself is assembly, here the value \<open>Jump\<close>.  The
  table of the program loader \<open>kernel/elf.c\<close> has the same shape and is part of the same record.  The messages of the
  trampolines are left out.

  The lemmas: a task that was created starts at its entry point with its stack and gives its table entry back; a task that
  finds no entry ends with exit code 1; and a creation that fails for want of a task slot keeps its table entry for ever.
\<close>

unbundle bit_operations_syntax

abbreviation (input) USER_STACK_BASE :: u64 where "USER_STACK_BASE \<equiv> 0x00007FFFFFFFE000"
abbreviation (input) USER_STACK_PAGES :: nat where "USER_STACK_PAGES \<equiv> 4"
abbreviation (input) USER_STACK_SIZE :: u64 where "USER_STACK_SIZE \<equiv> 4 * 4096"
abbreviation (input) GDT_USER_CODE_RPL3 :: u16 where "GDT_USER_CODE_RPL3 \<equiv> 0x23"
abbreviation (input) GDT_USER_DATA_RPL3 :: u16 where "GDT_USER_DATA_RPL3 \<equiv> 0x1B"

record launch =
  l_entry :: u64
  l_rsp :: u64

record user = vfs +
  pending_user :: "launch list"
  elf_pending :: "launch list"

datatype jump = Jump u64 u64 u16 u16

section \<open>The table of pending starts\<close>

definition free_launch :: "launch list \<Rightarrow> nat option" where
  "free_launch ps = List.find (\<lambda>i. l_entry (ps ! i) = 0) [0..<MAX_TASKS]"

definition take_launch :: "int \<Rightarrow> launch list \<Rightarrow> (u64 \<times> u64 \<times> launch list) option" where
  "take_launch slot ps =
     (if 0 \<le> slot \<and> slot < int MAX_TASKS \<and> l_entry (ps ! nat slot) \<noteq> 0
      then Some (l_entry (ps ! nat slot), l_rsp (ps ! nat slot), ps[nat slot := \<lparr>l_entry = 0, l_rsp = 0\<rparr>])
      else None)"

definition enter :: "u64 \<Rightarrow> u64 \<Rightarrow> 'a sched_scheme \<Rightarrow> jump \<times> 'a sched_scheme" where
  "enter e sp s =
     (Jump e sp GDT_USER_CODE_RPL3 GDT_USER_DATA_RPL3,
      s\<lparr>tss_rsp0 := stack_base (task s (sched_current s)) + TASK_STACK_SIZE\<rparr>)"

definition user_task_trampoline :: "u64 \<Rightarrow> 'a user_scheme \<Rightarrow> (jump option \<times> 'a user_scheme) option" where
  "user_task_trampoline now s = (case take_launch (pending_slot (task s (sched_current s))) (pending_user s) of
     None \<Rightarrow> do { s \<leftarrow> sched_exit now 1 s; Some (None, s) }
   | Some (e, sp, ps) \<Rightarrow>
       let s = set_task (sched_current s) (pending_slot_update (\<lambda>_. -1)) (s\<lparr>pending_user := ps\<rparr>);
           (j, s) = enter e sp s
       in Some (Some j, s))"

section \<open>Creating a task\<close>

primrec map_stack :: "nat \<Rightarrow> nat \<Rightarrow> ptr \<Rightarrow> 'a sched_scheme \<Rightarrow> (bool \<times> 'a sched_scheme) option" where
  "map_stack 0 i pm s = Some (True, s)"
| "map_stack (Suc n) i pm s = do {
     (page, s) \<leftarrow> pmm_alloc_page s;
     if page = NULL then Some (False, s)
     else do {
       let s = s\<lparr>memory := memset (memory s) page 0 4096\<rparr>;
       s \<leftarrow> vmm_map_page_in pm (USER_STACK_BASE - USER_STACK_SIZE + of_nat i * 4096) page (PTE_WRITABLE OR PTE_USER) s;
       map_stack n (i + 1) pm s } }"

definition adopt :: "nat option \<Rightarrow> ptr \<Rightarrow> nat \<Rightarrow> 'a sched_scheme \<Rightarrow> 'a sched_scheme" where
  "adopt t pm slot s = (case t of None \<Rightarrow> s
     | Some i \<Rightarrow> set_task i (\<lambda>t. t\<lparr>is_user := True, pml4 := pm, pending_slot := int slot\<rparr>) s)"

definition start_task :: "u64 \<Rightarrow> u64 \<Rightarrow> string \<Rightarrow> ptr \<Rightarrow> nat \<Rightarrow> 'a sched_scheme \<Rightarrow> (nat option \<times> 'a sched_scheme) option" where
  "start_task exit_tramp tramp nm pm slot s = do {
     (t, s) \<leftarrow> task_create exit_tramp nm tramp s;
     Some (t, adopt t pm slot s) }"

definition user_task_create :: "u64 \<Rightarrow> u64 \<Rightarrow> string \<Rightarrow> u64 \<Rightarrow> 'a user_scheme \<Rightarrow> (nat option \<times> 'a user_scheme) option" where
  "user_task_create exit_tramp tramp nm entr s = do {
     (pm, s) \<leftarrow> vmm_create_address_space s;
     if pm = NULL then Some (None, s)
     else do {
       (ok, s) \<leftarrow> map_stack USER_STACK_PAGES 0 pm s;
       if \<not> ok then Some (None, s)
       else do {
         let s = vmm_mark_huge_user entr s;
         case free_launch (pending_user s) of
           None \<Rightarrow> Some (None, s)
         | Some slot \<Rightarrow>
             start_task exit_tramp tramp nm pm slot
               (s\<lparr>pending_user := (pending_user s)[slot := \<lparr>l_entry = entr, l_rsp = USER_STACK_BASE\<rparr>]\<rparr>) } } }"

section \<open>From creation to user mode\<close>

lemma free_launch_Some:
  assumes "free_launch ps = Some slot"
  shows "slot < MAX_TASKS" "l_entry (ps ! slot) = 0"
  using assms by (auto simp: free_launch_def find_Some_iff)

text \<open>a created task reaches its program.  When the table entry \<open>slot\<close> was free, holds the entry point and the stack of a new task \<open>i\<close>, and
  the task has been given that entry, its trampoline jumps to the entry point with that stack and the user segments, sets the stack
  for interrupts to the end of the task's kernel stack, and gives the entry back: the table has the free entries it had before.\<close>

theorem user_task_starts:
  assumes "free_launch ps = Some slot" and "length ps = MAX_TASKS" and "e \<noteq> 0"
    and "pending_user s = ps[slot := \<lparr>l_entry = e, l_rsp = r\<rparr>]" and "current_task s = i" and "i < length (tasks s)"
  shows "\<exists>s'. user_task_trampoline now (adopt (Some i) pm slot s) = Some (Some (Jump e r GDT_USER_CODE_RPL3 GDT_USER_DATA_RPL3), s')
    \<and> tss_rsp0 s' = stack_base (task s i) + TASK_STACK_SIZE
    \<and> pending_user s' = ps[slot := \<lparr>l_entry = 0, l_rsp = 0\<rparr>]
    \<and> (\<forall>k. l_entry (pending_user s' ! k) = l_entry (ps ! k))
    \<and> pending_slot (task s' i) = -1 \<and> pml4 (task s' i) = pm \<and> is_user (task s' i)"
proof -
  note f = free_launch_Some [OF assms(1)]
  have l: "slot < length ps" using f(1) assms(2) by simp
  let ?a = "adopt (Some i) pm slot s"
  have a: "sched_current ?a = i" "pending_user ?a = pending_user s" "pending_slot (task ?a i) = int slot"
      "task ?a i = (task s i)\<lparr>is_user := True, pml4 := pm, pending_slot := int slot\<rparr>" "length (tasks ?a) = length (tasks s)"
    using assms(5,6) by (simp_all add: adopt_def set_task_def sched_current_def)
  have t: "take_launch (int slot) (pending_user s) = Some (e, r, ps[slot := \<lparr>l_entry = 0, l_rsp = 0\<rparr>])"
    using f(1) l assms(3,4) by (simp add: take_launch_def)
  have k: "l_entry (ps[slot := \<lparr>l_entry = 0, l_rsp = 0\<rparr>] ! k) = l_entry (ps ! k)" for k
    using f(2) l by (cases "k = slot") simp_all
  show ?thesis
    using assms(6) a t k by (auto simp: user_task_trampoline_def enter_def set_task_def sched_current_def Let_def)
qed

text \<open>A task without an entry ends with exit code 1.\<close>

lemma trampoline_without_entry:
  "take_launch (pending_slot (task s (current_task s))) (pending_user s) = None \<Longrightarrow>
   user_task_trampoline now s = sched_exit now 1 s \<bind> (\<lambda>s. Some (None, s))"
  by (simp add: user_task_trampoline_def sched_current_def)

text \<open>A creation that fails for want of a task slot keeps its entry of the table of pending starts: one free entry less, and no task to
  take it.\<close>

definition free_entries :: "launch list \<Rightarrow> nat set" where
  "free_entries ps = {k. k < MAX_TASKS \<and> l_entry (ps ! k) = 0}"

lemma failed_start_keeps_entry:
  assumes "free_launch ps = Some slot" and "length ps = MAX_TASKS" and "l_entry e \<noteq> 0"
    and "pending_user s = ps[slot := e]" and "find_slot s = None"
  shows "start_task exit_tramp tramp nm pm slot s = Some (None, s)"
    and "card (free_entries (pending_user s)) + 1 = card (free_entries ps)"
proof -
  show "start_task exit_tramp tramp nm pm slot s = Some (None, s)"
    using assms(5) by (simp add: start_task_def task_create_def do_task_create_def adopt_def)
  note f = free_launch_Some [OF assms(1)]
  have "free_entries ps = insert slot (free_entries (pending_user s))" "slot \<notin> free_entries (pending_user s)"
    using f assms(2,3,4) by (auto simp: free_entries_def nth_list_update)
  moreover have "finite (free_entries (pending_user s))" by (simp add: free_entries_def)
  ultimately show "card (free_entries (pending_user s)) + 1 = card (free_entries ps)" by simp
qed

definition sample_user :: user where
  "sample_user = vfs.extend (sched.extend (sample_sched [idle_task TASK_READY, (sample_task 7 TASK_RUNNING 1)\<lparr>stack_base := 0x50000\<rparr>] 2 1) \<lparr>vnodes = [], fds = []\<rparr>)
     \<lparr>pending_user = (replicate MAX_TASKS \<lparr>l_entry = 0, l_rsp = 0\<rparr>)[0 := \<lparr>l_entry = 0x400000, l_rsp = USER_STACK_BASE\<rparr>],
      elf_pending = replicate MAX_TASKS \<lparr>l_entry = 0, l_rsp = 0\<rparr>\<rparr>"

theorem user_task_starts_witness:
  "\<exists>s'. user_task_trampoline 5 (adopt (Some 1) 0x9000 0 sample_user) = Some (Some (Jump 0x400000 USER_STACK_BASE 0x23 0x1B), s')
    \<and> tss_rsp0 s' = 0x50000 + TASK_STACK_SIZE"
proof -
  let ?ps = "replicate MAX_TASKS \<lparr>l_entry = 0, l_rsp = 0\<rparr>"
  have "free_launch ?ps = Some 0" by code_simp
  moreover have "pending_user sample_user = ?ps[0 := \<lparr>l_entry = 0x400000, l_rsp = USER_STACK_BASE\<rparr>]" "current_task sample_user = 1"
      "1 < length (tasks sample_user)" "stack_base (task sample_user 1) = 0x50000"
    by (simp_all add: sample_user_def vfs.defs sched.defs sample_sched_simps)
  ultimately show ?thesis using user_task_starts [of ?ps 0 "0x400000" sample_user USER_STACK_BASE 1 5 "0x9000"] by auto
qed

end
