(* ===== verification/Elf.thy ===== *)
theory Elf
  imports User Bytes
begin

text \<open>
  The program loader \<open>kernel/elf.c\<close>.  A file is read into a buffer on the heap; its header and its program headers are read from
  that buffer in memory, and each loadable segment is copied page by page into fresh pages of a new address space.  The messages
  are left out.

  The lemmas: a page of a segment receives exactly the bytes of the file that belong to it, and zero bytes elsewhere; and
  the check that a segment lies inside the file can be passed by a segment that does not, because its sum wraps around.
\<close>

unbundle bit_operations_syntax

abbreviation (input) ELF_MAGIC :: u32 where "ELF_MAGIC \<equiv> 0x464C457F"
abbreviation (input) ET_EXEC :: u16 where "ET_EXEC \<equiv> 2"
abbreviation (input) EM_X86_64 :: u16 where "EM_X86_64 \<equiv> 62"
abbreviation (input) PT_LOAD :: u32 where "PT_LOAD \<equiv> 1"
abbreviation (input) PF_W :: u32 where "PF_W \<equiv> 2"

record Elf64_Ehdr =
  e_ident_magic :: u32
  e_ident_class :: u8
  e_ident_data :: u8
  e_ident_version :: u8
  e_ident_osabi :: u8
  e_ident_pad :: "u8 list"
  e_type :: u16
  e_machine :: u16
  e_version :: u32
  e_entry :: u64
  e_phoff :: u64
  e_shoff :: u64
  e_flags :: u32
  e_ehsize :: u16
  e_phentsize :: u16
  e_phnum :: u16
  e_shentsize :: u16
  e_shnum :: u16
  e_shstrndx :: u16

record Elf64_Phdr =
  p_type :: u32
  p_flags :: u32
  p_offset :: u64
  p_vaddr :: u64
  p_paddr :: u64
  p_filesz :: u64
  p_memsz :: u64
  p_align :: u64

text \<open>The fields at their offsets in the structures.\<close>

definition ehdr :: "mem \<Rightarrow> ptr \<Rightarrow> Elf64_Ehdr" where
  "ehdr m a = \<lparr>e_ident_magic = ld32 m a, e_ident_class = m (a + 4), e_ident_data = m (a + 5), e_ident_version = m (a + 6),
     e_ident_osabi = m (a + 7), e_ident_pad = map (\<lambda>i. m (a + 8 + of_nat i)) [0..<8], e_type = ld16 m (a + 16),
     e_machine = ld16 m (a + 18), e_version = ld32 m (a + 20), e_entry = load64 m (a + 24), e_phoff = load64 m (a + 32),
     e_shoff = load64 m (a + 40), e_flags = ld32 m (a + 48), e_ehsize = ld16 m (a + 52), e_phentsize = ld16 m (a + 54),
     e_phnum = ld16 m (a + 56), e_shentsize = ld16 m (a + 58), e_shnum = ld16 m (a + 60), e_shstrndx = ld16 m (a + 62)\<rparr>"

definition phdr :: "mem \<Rightarrow> ptr \<Rightarrow> Elf64_Phdr" where
  "phdr m a = \<lparr>p_type = ld32 m a, p_flags = ld32 m (a + 4), p_offset = load64 m (a + 8), p_vaddr = load64 m (a + 16),
     p_paddr = load64 m (a + 24), p_filesz = load64 m (a + 32), p_memsz = load64 m (a + 40), p_align = load64 m (a + 48)\<rparr>"

section \<open>Starting the program\<close>

definition elf_trampoline :: "u64 \<Rightarrow> 'a user_scheme \<Rightarrow> (jump option \<times> 'a user_scheme) option" where
  "elf_trampoline now s = (case take_launch (pending_slot (task s (sched_current s))) (elf_pending s) of
     None \<Rightarrow> do { s \<leftarrow> sched_exit now 1 s; Some (None, s) }
   | Some (e, sp, ps) \<Rightarrow>
       let s = set_task (sched_current s) (pending_slot_update (\<lambda>_. -1)) (s\<lparr>elf_pending := ps\<rparr>);
           (j, s) = enter e sp s
       in Some (Some j, s))"

section \<open>Loading\<close>

definition bad_header :: "Elf64_Ehdr \<Rightarrow> bool" where
  "bad_header h \<longleftrightarrow> e_ident_magic h \<noteq> ELF_MAGIC \<or> (e_ident_class h \<noteq> 2 \<or> e_ident_data h \<noteq> 1)
     \<or> (e_type h \<noteq> ET_EXEC \<or> e_machine h \<noteq> EM_X86_64)"

definition bad_segment :: "u64 \<Rightarrow> Elf64_Phdr \<Rightarrow> bool" where
  "bad_segment sz p \<longleftrightarrow> sz < p_offset p + p_filesz p \<or> 0x1000000 < p_memsz p \<or> 0x0000800000000000 \<le> p_vaddr p + p_memsz p"

definition fill_page :: "ptr \<Rightarrow> ptr \<Rightarrow> u64 \<Rightarrow> ptr \<Rightarrow> mem \<Rightarrow> mem" where
  "fill_page buf ph addr page m =
     (let m = memset m page 0 4096;
          p = phdr m ph;
          seg_start = p_vaddr p;
          seg_file_end = seg_start + p_filesz p;
          page_start = addr;
          page_end = addr + 4096
      in if page_start < seg_file_end \<and> seg_start < page_end
         then let copy_start = (if seg_start < page_start then page_start else seg_start);
                  copy_end = (if page_end < seg_file_end then page_end else seg_file_end);
                  file_off = p_offset p + (copy_start - seg_start);
                  page_off = copy_start - page_start
              in memcpy m (page + page_off) (buf + file_off) (copy_end - copy_start)
         else m)"

partial_function (option) load_pages ::
  "ptr \<Rightarrow> ptr \<Rightarrow> ptr \<Rightarrow> u64 \<Rightarrow> u64 \<Rightarrow> u64 \<Rightarrow> 'a sched_scheme \<Rightarrow> (bool \<times> 'a sched_scheme) option" where
  "load_pages buf ph pm flags stop addr s =
     (if addr < stop
      then do {
        (page, s) \<leftarrow> pmm_alloc_page s;
        if page = NULL then Some (False, s)
        else do {
          s \<leftarrow> vmm_map_page_in pm addr page flags (s\<lparr>memory := fill_page buf ph addr page (memory s)\<rparr>);
          load_pages buf ph pm flags stop (addr + 4096) s } }
      else Some (True, s))"

definition load_segment :: "u64 \<Rightarrow> ptr \<Rightarrow> ptr \<Rightarrow> ptr \<Rightarrow> 'a sched_scheme \<Rightarrow> (bool \<times> 'a sched_scheme) option" where
  "load_segment sz buf ph pm s =
     (let p = phdr (memory s) ph
      in if p_type p \<noteq> PT_LOAD then Some (True, s)
         else if bad_segment sz p then Some (False, s)
         else let vaddr = p_vaddr p AND NOT 0xFFF;
                  stop = (p_vaddr p + p_memsz p + 0xFFF) AND NOT 0xFFF;
                  flags = (if p_flags p AND PF_W \<noteq> 0 then PTE_USER OR PTE_WRITABLE else PTE_USER)
              in load_pages buf ph pm flags stop vaddr s)"

primrec load_segments :: "nat \<Rightarrow> u64 \<Rightarrow> ptr \<Rightarrow> ptr \<Rightarrow> ptr \<Rightarrow> 'a sched_scheme \<Rightarrow> (bool \<times> 'a sched_scheme) option" where
  "load_segments 0 sz buf ph pm s = Some (True, s)"
| "load_segments (Suc n) sz buf ph pm s = do {
     (ok, s) \<leftarrow> load_segment sz buf ph pm s;
     if ok then load_segments n sz buf (ph + 56) pm s else Some (False, s) }"

text \<open>The file in a buffer: the address of the buffer, or \<open>NULL\<close>, and the size of the file.\<close>

definition read_file :: "string option \<Rightarrow> 'a vfs_scheme \<Rightarrow> (ptr \<times> u64 \<times> 'a vfs_scheme) option" where
  "read_file path s = (case vfs_stat path s of
     None \<Rightarrow> Some (NULL, 0, s)
   | Some st \<Rightarrow>
       if st_size st < 64 then Some (NULL, 0, s)
       else do {
         (fd, s) \<leftarrow> vfs_open path False s;
         if fd < 0 then Some (NULL, 0, s)
         else do {
           (buf, s) \<leftarrow> kmalloc (st_size st) s;
           if buf = NULL then Some (NULL, 0, snd (vfs_close fd s))
           else
             let (nread, s) = vfs_read fd buf (st_size st) s;
                 s = snd (vfs_close fd s)
             in if nread \<noteq> sint (ucast (st_size st) :: u32) then do { s \<leftarrow> kfree buf s; Some (NULL, 0, s) }
                else Some (buf, st_size st, s) } })"

definition elf_load :: "u64 \<Rightarrow> u64 \<Rightarrow> string option \<Rightarrow> string \<Rightarrow> 'a user_scheme \<Rightarrow> (nat option \<times> 'a user_scheme) option" where
  "elf_load exit_tramp tramp path nm s = do {
     (buf, sz, s) \<leftarrow> read_file path s;
     if buf = NULL then Some (None, s)
     else if bad_header (ehdr (memory s) buf) then do { s \<leftarrow> kfree buf s; Some (None, s) }
     else do {
       (pm, s) \<leftarrow> vmm_create_address_space s;
       if pm = NULL then do { s \<leftarrow> kfree buf s; Some (None, s) }
       else
         let h = ehdr (memory s) buf
         in if sz < e_phoff h + ucast (e_phnum h) * 56 then do { s \<leftarrow> kfree buf s; Some (None, s) }
         else do {
           (ok, s) \<leftarrow> load_segments (unat (e_phnum h)) sz buf (buf + e_phoff h) pm s;
           s \<leftarrow> kfree buf s;
           if \<not> ok then Some (None, s)
           else do {
             (ok, s) \<leftarrow> map_stack USER_STACK_PAGES 0 pm s;
             if \<not> ok then Some (None, s)
             else case free_launch (elf_pending s) of
                    None \<Rightarrow> Some (None, s)
                  | Some slot \<Rightarrow>
                      start_task exit_tramp tramp nm pm slot
                        (s\<lparr>elf_pending := (elf_pending s)[slot :=
                           \<lparr>l_entry = e_entry (ehdr (memory s) buf), l_rsp = USER_STACK_BASE\<rparr>]\<rparr>) } } } }"

section \<open>The bytes of a page\<close>

lemma phdr_cong:
  assumes "\<And>x. within a 56 x \<Longrightarrow> m' x = m x"
  shows "phdr m' a = phdr m a"
proof -
  have b: "m' (a + of_nat j) = m (a + of_nat j)" if "j < 56" for j
    using assms [of "a + of_nat j"] that by (simp add: within_offset)
  have l: "load64 m' (a + of_nat k) = load64 m (a + of_nat k)" if "k + 8 \<le> 56" for k
  proof (rule load64_cong)
    fix i :: nat assume "i < 8"
    then show "m' (a + of_nat k + of_nat i) = m (a + of_nat k + of_nat i)" using b [of "k + i"] that by (simp add: add.assoc)
  qed
  have l4: "ld32 m' (a + of_nat k) = ld32 m (a + of_nat k)" if "k + 4 \<le> 56" for k
  proof (rule load_le_cong)
    fix i :: nat assume "i < 4"
    then show "m' (a + of_nat k + of_nat i) = m (a + of_nat k + of_nat i)" using b [of "k + i"] that by (simp add: add.assoc)
  qed
  show ?thesis
    using l [of 8] l [of 16] l [of 24] l [of 32] l [of 40] l [of 48] l4 [of 0] l4 [of 4] by (simp add: phdr_def)
qed

lemma memset_page: "memset m page 0 4096 x = (if within page 4096 x then 0 else m x)"
  by (simp add: memset_def memset_loop_apply)

lemma memcpy_apart:
  assumes "\<And>x. within d n x \<Longrightarrow> \<not> within s n x" and "unat k = n"
  shows "memcpy m d s k x = (if within d n x then m (s + (x - d)) else m x)"
proof -
  have "\<not> (0 < unat (d - s) \<and> unat (d - s) < n)"
  proof
    assume h: "0 < unat (d - s) \<and> unat (d - s) < n"
    then have "within s n d" "within d n d" by (simp_all add: within_def)
    then show False using assms(1) by blast
  qed
  moreover have "n < 2 ^ 64" using assms(2) unat_lt_u64 [of k] by simp
  ultimately show ?thesis by (simp add: memcpy_def assms(2) memcpy_loop_apply)
qed

lemma fill_page_bytes:
  fixes buf ph addr page :: u64 and m :: mem and p :: Elf64_Phdr
  defines "p \<equiv> phdr m ph"
  assumes a: "unat addr + 4096 < 2 ^ 64" and v: "unat (p_vaddr p) + unat (p_filesz p) < 2 ^ 64"
    and ph: "\<And>x. within ph 56 x \<Longrightarrow> \<not> within page 4096 x"
    and src: "\<And>x. within (buf + p_offset p) (unat (p_filesz p)) x \<Longrightarrow> \<not> within page 4096 x"
  shows "fill_page buf ph addr page m x =
    (if \<not> within page 4096 x then m x
     else let k = unat (x - page)
          in if unat (p_vaddr p) \<le> unat addr + k \<and> unat addr + k < unat (p_vaddr p) + unat (p_filesz p)
             then m (buf + p_offset p + (addr + (x - page) - p_vaddr p)) else 0)"
proof -
  let ?m = "memset m page 0 4096"
  have pe: "phdr ?m ph = p" unfolding p_def using ph by (intro phdr_cong) (simp add: memset_page)
  have ua: "unat (addr + 4096) = unat addr + 4096" using a by (simp add: unat_word_ariths)
  have uv: "unat (p_vaddr p + p_filesz p) = unat (p_vaddr p) + unat (p_filesz p)" using v unat_add_lem [of "p_vaddr p" "p_filesz p"] by simp
  define k where "k = unat (x - page)"
  have wk: "within page 4096 x \<longleftrightarrow> k < 4096" by (simp add: k_def within_def)
  show ?thesis
  proof (cases "addr < p_vaddr p + p_filesz p \<and> p_vaddr p < addr + 4096")
    case False
    then have "fill_page buf ph addr page m x = ?m x" unfolding fill_page_def Let_def pe by (simp only: False if_False)
    moreover have "\<not> (unat (p_vaddr p) \<le> unat addr + k \<and> unat addr + k < unat (p_vaddr p) + unat (p_filesz p))" if "k < 4096"
      using False that unfolding word_less_nat_alt ua uv by linarith
    ultimately show ?thesis using wk by (cases "k < 4096") (auto simp: memset_page k_def [symmetric] Let_def)
  next
    case True
    define cs ce where "cs = (if p_vaddr p < addr then addr else p_vaddr p)"
      and "ce = (if addr + 4096 < p_vaddr p + p_filesz p then addr + 4096 else p_vaddr p + p_filesz p)"
    have ucs: "unat cs = max (unat addr) (unat (p_vaddr p))" by (simp add: cs_def word_less_nat_alt max_def)
    have uce: "unat ce = min (unat addr + 4096) (unat (p_vaddr p) + unat (p_filesz p))"
      by (simp add: ce_def word_less_nat_alt min_def ua uv)
    have lt: "unat cs \<le> unat ce" using True unfolding word_less_nat_alt ua uv ucs uce by linarith
    define n where "n = unat ce - unat cs"
    have un: "unat (ce - cs) = n" using lt by (simp add: n_def unat_sub_if')
    let ?d = "page + (cs - addr)" and ?s = "buf + (p_offset p + (cs - p_vaddr p))"
    have uda: "unat (cs - addr) = unat cs - unat addr" using ucs by (simp add: unat_sub_if')
    have udv: "unat (cs - p_vaddr p) = unat cs - unat (p_vaddr p)" using ucs by (simp add: unat_sub_if')
    have f: "fill_page buf ph addr page m x = memcpy ?m ?d ?s (ce - cs) x"
      unfolding fill_page_def Let_def pe using True by (simp add: cs_def ce_def)
    have win: "within page 4096 y" if w: "within ?d n y" for y
    proof -
      obtain i where i: "i < n" "y = ?d + of_nat i" using within_ex [OF w] by blast
      have "y - page = (cs - addr) + of_nat i" using i by simp
      moreover have "unat (cs - addr) + i < 4096" using i(1) uda uce ucs by (simp add: n_def)
      ultimately have "unat (y - page) = unat (cs - addr) + i" using unat_offset [of "cs - addr" i] by simp
      then show ?thesis using \<open>unat (cs - addr) + i < 4096\<close> by (simp add: within_def)
    qed
    have swin: "within (buf + p_offset p) (unat (p_filesz p)) y" if w: "within ?s n y" for y
    proof -
      obtain i where i: "i < n" "y = ?s + of_nat i" using within_ex [OF w] by blast
      have "y - (buf + p_offset p) = (cs - p_vaddr p) + of_nat i" using i by simp
      moreover have b: "unat (cs - p_vaddr p) + i < unat (p_filesz p)" using i(1) udv uce ucs by (simp add: n_def)
      moreover have "unat (p_filesz p) < 2 ^ 64" by (rule unat_lt_u64)
      ultimately have "unat (y - (buf + p_offset p)) = unat (cs - p_vaddr p) + i" using unat_offset [of "cs - p_vaddr p" i] by simp
      then show ?thesis using b by (simp add: within_def)
    qed
    have "memcpy ?m ?d ?s (ce - cs) x = (if within ?d n x then ?m (?s + (x - ?d)) else ?m x)"
      using un win swin src by (intro memcpy_apart) blast+
    moreover have "within ?d n x \<longleftrightarrow> k < 4096 \<and> unat (p_vaddr p) \<le> unat addr + k \<and> unat addr + k < unat (p_vaddr p) + unat (p_filesz p)"
    proof
      assume w: "within ?d n x"
      obtain i where i: "i < n" "x = ?d + of_nat i" using within_ex [OF w] by blast
      have b: "unat (cs - addr) + i < 4096" using i(1) uda uce ucs by (simp add: n_def)
      have "x - page = (cs - addr) + of_nat i" using i by simp
      then have "k = unat cs - unat addr + i" unfolding k_def using unat_offset [of "cs - addr" i] b uda by simp
      then show "k < 4096 \<and> unat (p_vaddr p) \<le> unat addr + k \<and> unat addr + k < unat (p_vaddr p) + unat (p_filesz p)"
        using i(1) b uda ucs uce n_def by linarith
    next
      assume h: "k < 4096 \<and> unat (p_vaddr p) \<le> unat addr + k \<and> unat addr + k < unat (p_vaddr p) + unat (p_filesz p)"
      have e: "x - ?d = (x - page) - (cs - addr)" by simp
      have c: "unat (cs - addr) \<le> unat (x - page)" unfolding uda k_def [symmetric] using h ucs by linarith
      then have "unat (x - ?d) = k - (unat cs - unat addr)" unfolding e k_def uda [symmetric] by (simp add: unat_sub_if')
      moreover have "k - (unat cs - unat addr) < n" using h ucs uce lt n_def by linarith
      ultimately show "within ?d n x" by (simp add: within_def)
    qed
    moreover have "?m (?s + (x - ?d)) = m (buf + p_offset p + (addr + (x - page) - p_vaddr p))" if "within ?d n x"
    proof -
      have e: "?s + (x - ?d) = buf + p_offset p + (addr + (x - page) - p_vaddr p)" by (simp add: algebra_simps)
      have "within ?s n (?s + (x - ?d))" using that unfolding within_def by (simp only: add_diff_cancel_left')
      then have "\<not> within page 4096 (?s + (x - ?d))" using swin src by blast
      then show ?thesis unfolding e [symmetric] by (simp add: memset_page)
    qed
    ultimately show ?thesis unfolding f using wk by (auto simp: memset_page k_def [symmetric] Let_def)
  qed
qed

text \<open>C26: loading a page.  \<open>fill_page\<close> changes only the page; a byte of the page whose address in the program lies in the part of the segment that is
  in the file becomes the byte of the file that belongs there, and every other byte of the page becomes zero.  The page may begin or
  end inside the segment, or contain all of it.\<close>

theorem fill_page_correct:
  assumes "unat addr + 4096 < 2 ^ 64" and "unat (p_vaddr (phdr m ph)) + unat (p_filesz (phdr m ph)) < 2 ^ 64"
    and "\<forall>x. within ph 56 x \<longrightarrow> \<not> within page 4096 x"
    and "\<forall>x. within (buf + p_offset (phdr m ph)) (unat (p_filesz (phdr m ph))) x \<longrightarrow> \<not> within page 4096 x"
  shows "fill_page buf ph addr page m x =
    (if \<not> within page 4096 x then m x
     else let p = phdr m ph; k = unat (x - page)
          in if unat (p_vaddr p) \<le> unat addr + k \<and> unat addr + k < unat (p_vaddr p) + unat (p_filesz p)
             then m (buf + p_offset p + (addr + (x - page) - p_vaddr p)) else 0)"
  using fill_page_bytes [OF assms(1,2)] assms(3,4) by (simp add: Let_def)

text \<open>C27: the check of a segment can be passed by wrapping around.  A segment whose offset in the file is the largest number and whose size is 1
  passes, whatever the size of the file, and its first page receives the byte before the buffer that holds the file.\<close>

theorem segment_check_wraps:
  assumes "p_offset (phdr m ph) = -1" and "p_filesz (phdr m ph) = 1" and "p_memsz (phdr m ph) = 1"
    and "p_vaddr (phdr m ph) < 0x00007FFFFFFFF000"
    and "\<forall>x. within ph 56 x \<longrightarrow> \<not> within page 4096 x" and "\<not> within page 4096 (buf - 1)"
  shows "\<not> bad_segment sz (phdr m ph) \<and> fill_page buf ph (p_vaddr (phdr m ph)) page m page = m (buf - 1)"
proof
  have v: "unat (p_vaddr (phdr m ph)) < 0x00007FFFFFFFF000" using assms(4) by (simp add: word_less_nat_alt)
  then have "unat (p_vaddr (phdr m ph) + 1) = unat (p_vaddr (phdr m ph)) + 1" by (simp add: unat_word_ariths)
  then show "\<not> bad_segment sz (phdr m ph)"
    using assms(1,2,3) v by (simp add: bad_segment_def word_le_nat_alt)
  have w: "within (buf - 1) 1 x \<longleftrightarrow> x = buf - 1" for x by (auto simp: within_def unat_eq_0)
  have "fill_page buf ph (p_vaddr (phdr m ph)) page m page = m (buf + p_offset (phdr m ph))"
    using fill_page_bytes [of "p_vaddr (phdr m ph)" m ph page buf page] v assms w by (simp add: within_def)
  then show "fill_page buf ph (p_vaddr (phdr m ph)) page m page = m (buf - 1)" using assms(1) by simp
qed

definition sample_phdr :: "u64 \<Rightarrow> u64 \<Rightarrow> u64 \<Rightarrow> u64 \<Rightarrow> mem" where
  "sample_phdr off va fsz msz =
     store64 (store64 (store64 (store64 (\<lambda>x. ucast x) 0x5008 off) 0x5010 va) 0x5020 fsz) 0x5028 msz"

lemma sample_phdr_fields:
  "p_offset (phdr (sample_phdr off va fsz msz) 0x5000) = off" "p_vaddr (phdr (sample_phdr off va fsz msz) 0x5000) = va"
  "p_filesz (phdr (sample_phdr off va fsz msz) 0x5000) = fsz" "p_memsz (phdr (sample_phdr off va fsz msz) 0x5000) = msz"
  by (simp_all add: phdr_def sample_phdr_def load_store aligned_def)

lemma apart_5000: "\<forall>x. within 0x5000 56 x \<longrightarrow> \<not> within 0x9000 4096 x"
  by (simp add: within_iff)

theorem fill_page_correct_witness:
  "fill_page 0x6000 0x5000 0x400000 0x9000 (sample_phdr 0x40 0x400010 0x20 0x100) 0x9012 = 0x42
   \<and> fill_page 0x6000 0x5000 0x400000 0x9000 (sample_phdr 0x40 0x400010 0x20 0x100) 0x9008 = 0"
proof -
  let ?m = "sample_phdr 0x40 0x400010 0x20 0x100"
  have "?m 0x6042 = 0x42" by (simp add: sample_phdr_def store64_def within_def)
  moreover have "\<forall>x. within (0x6000 + 0x40) (unat (0x20 :: u64)) x \<longrightarrow> \<not> within 0x9000 4096 x" by (simp add: within_iff)
  ultimately show ?thesis
    using fill_page_correct [of "0x400000" ?m "0x5000" "0x9000" "0x6000"] apart_5000
    by (simp add: sample_phdr_fields within_def Let_def)
qed

theorem segment_check_wraps_witness:
  "\<not> bad_segment 200 (phdr (sample_phdr (-1) 0x500000000 1 1) 0x5000)
   \<and> fill_page 0x6000 0x5000 0x500000000 0x9000 (sample_phdr (-1) 0x500000000 1 1) 0x9000 = 0xFF"
proof -
  let ?m = "sample_phdr (-1) 0x500000000 1 1"
  have "?m 0x5FFF = 0xFF" by (simp add: sample_phdr_def store64_def within_def)
  moreover have "\<not> within 0x9000 4096 (0x6000 - 1)" by (simp add: within_def)
  ultimately show ?thesis
    using segment_check_wraps [of ?m "0x5000" "0x9000" "0x6000" 200] apart_5000 by (simp add: sample_phdr_fields)
qed

end
