(* ===== verification/Shell.thy ===== *)
theory Shell
  imports Elf Console Keyboard
begin

text \<open>
  The shell of \<open>kernel/main.c\<close>: paths relative to the current directory, the commands, the line editor and its completion.  What the
  shell sends to the console is the list \<open>screen\<close>: characters, as the formatter of the console produces them, and the calls that
  clear the screen or bracket a batch.  The commands' buffers lie on the shell's stack, at \<open>stk\<close>.  The line holds the characters
  up to \<open>len\<close>, so its length is \<open>len\<close>.

  The lemmas: a resolved path is absolute, has no empty, \<open>.\<close> or \<open>..\<close> part, fits its buffer and resolves to itself; reading a file
  in pieces gives all of it; the counts of \<open>wc\<close>; every key but Tab keeps the line inside its buffer, and Tab does not.
\<close>

unbundle bit_operations_syntax

datatype screen_op = Put u8 | Clear_screen | Begin_batch | End_batch

record shell = user +
  cwd :: string
  last_was_tab :: bool
  line :: string
  pos :: nat
  stk :: ptr
  screen :: "screen_op list"

section \<open>Output\<close>

definition ascii :: "string \<Rightarrow> u8 list" where
  "ascii t = map of_char t"

definition newline :: string where
  "newline = [CHR 0x0A]"

text \<open>A string argument in single quotes.\<close>

definition quo :: string where
  "quo = [CHR 0x27] @ ''%s'' @ [CHR 0x27]"

abbreviation text_arg :: "string \<Rightarrow> arg" where
  "text_arg t \<equiv> Str (Some (ascii t))"

definition show_ops :: "screen_op list \<Rightarrow> 'a shell_scheme \<Rightarrow> 'a shell_scheme" where
  "show_ops os s = s\<lparr>screen := screen s @ os\<rparr>"

definition puts :: "u8 list \<Rightarrow> 'a shell_scheme \<Rightarrow> 'a shell_scheme" where
  "puts cs s = show_ops (map Put cs) s"

definition print :: "string \<Rightarrow> arg list \<Rightarrow> 'a shell_scheme \<Rightarrow> 'a shell_scheme option" where
  "print fmt args s = do { out \<leftarrow> format (ascii fmt) args; Some (puts out s) }"

section \<open>Paths\<close>

text \<open>\<open>strncat_safe\<close> on C strings: at most \<open>n\<close> characters are appended.\<close>

definition strncat_safe :: "string \<Rightarrow> string \<Rightarrow> int \<Rightarrow> string" where
  "strncat_safe dst src n = dst @ take (nat n) src"

definition join_cwd :: "string \<Rightarrow> string \<Rightarrow> string" where
  "join_cwd dir input =
     (if input \<noteq> [] \<and> hd input = CHR ''/'' then take 255 input
      else let tmp = take 255 dir;
               tmp = (if tmp \<noteq> [] \<and> last tmp \<noteq> CHR ''/'' \<and> length tmp < 254 then tmp @ ''/'' else tmp);
               space = 255 - int (length tmp)
           in if 0 < space then strncat_safe tmp input space else tmp)"

definition push_component :: "string \<Rightarrow> string list \<Rightarrow> string list" where
  "push_component c comps =
     (if c = ''.'' then comps
      else if c = ''..'' then (if comps \<noteq> [] then butlast comps else comps)
      else if length comps < 64 then comps @ [c] else comps)"

lemma component_shorter:
  assumes "dropWhile P p \<noteq> []"
  shows "length (drop 1 (dropWhile (\<lambda>c. \<not> P c) (dropWhile P p))) < length p"
proof -
  obtain a x where x: "dropWhile P p = a # x" using assms by (cases "dropWhile P p") auto
  then have "\<not> P a" by (simp add: dropWhile_eq_Cons_conv)
  then have "length (dropWhile (\<lambda>c. \<not> P c) (dropWhile P p)) \<le> length x" by (simp add: x length_dropWhile_le)
  moreover have "length (a # x) \<le> length p" unfolding x [symmetric] by (rule length_dropWhile_le)
  ultimately show ?thesis by simp
qed

function normalize :: "string \<Rightarrow> string list \<Rightarrow> string list" where
  "normalize p comps =
     (if dropWhile (\<lambda>c. c = CHR ''/'') p = [] then comps
      else normalize (drop 1 (dropWhile (\<lambda>c. c \<noteq> CHR ''/'') (dropWhile (\<lambda>c. c = CHR ''/'') p)))
             (push_component (takeWhile (\<lambda>c. c \<noteq> CHR ''/'') (dropWhile (\<lambda>c. c = CHR ''/'') p)) comps))"
  by pat_completeness auto
termination
  by (relation "measure (\<lambda>(p, _). length p)") (simp_all only: in_measure prod.case component_shorter wf_measure not_False_eq_True)

declare normalize.simps [simp del]

definition append_component :: "nat \<Rightarrow> bool \<Rightarrow> string \<Rightarrow> string \<Rightarrow> string" where
  "append_component outlen first out c =
     (let out = (if \<not> first \<and> length out < outlen - 1 then out @ ''/'' else out)
      in out @ take (outlen - length out - 1) c)"

definition assemble :: "nat \<Rightarrow> string list \<Rightarrow> string" where
  "assemble outlen comps = (case comps of [] \<Rightarrow> ''/''
     | c # cs \<Rightarrow> foldl (append_component outlen False) (append_component outlen True ''/'' c) cs)"

definition resolve_abs :: "string \<Rightarrow> string \<Rightarrow> nat \<Rightarrow> string" where
  "resolve_abs dir input outlen = assemble outlen (normalize (join_cwd dir input) [])"

abbreviation abs_path :: "string \<Rightarrow> 'a shell_scheme \<Rightarrow> string" where
  "abs_path input s \<equiv> resolve_abs (cwd s) input 256"

section \<open>Reading files in pieces\<close>

definition buffer :: "ptr \<Rightarrow> nat \<Rightarrow> mem \<Rightarrow> u8 list" where
  "buffer p n m = map (\<lambda>i. m (p + of_nat i)) [0..<n]"

partial_function (option) chunks :: "int \<Rightarrow> ptr \<Rightarrow> u64 \<Rightarrow> 'a vfs_scheme \<Rightarrow> (u8 list list \<times> 'a vfs_scheme) option" where
  "chunks fd buf n s =
     (let (r, s) = vfs_read fd buf n s
      in if 0 < r then do {
           (cs, s') \<leftarrow> chunks fd buf n s;
           Some (buffer buf (nat r) (memory s) # cs, s') }
         else Some ([], s))"

section \<open>Commands\<close>

definition help_lines :: "string list" where
  "help_lines = [
     ''Commands:'',
     ''  help             show this message'',
     ''  cd [dir]         change directory'',
     ''  pwd              print working directory'',
     ''  ls [path]        list directory'',
     ''  cat <file>       show file contents'',
     ''  head [-n N] <f>  show first N lines (default 10)'',
     ''  tail [-n N] <f>  show last N lines (default 10)'',
     ''  wc <file>        count lines, words, bytes'',
     ''  echo [text]      print text'',
     ''  touch <file>     create empty file'',
     ''  write <f> <txt>  write text to file'',
     ''  cp <src> <dst>   copy file'',
     ''  mv <src> <dst>   move/rename file'',
     ''  mkdir <dir>      create directory'',
     ''  rmdir <dir>      remove empty directory'',
     ''  rm <path>        remove file'',
     ''  stat <path>      show file info'',
     ''  mem              show memory stats'',
     ''  uptime           show uptime'',
     ''  ps               list tasks'',
     ''  whoami           print user'',
     ''  uname [-a]       system info'',
     ''  test             run kernel self-tests'',
     ''  usertest         spawn Ring 3 demo task'',
     ''  kill <pid> [sig] send signal to task (default SIGTERM)'',
     ''  exec <path>      load and run ELF binary'',
     ''  lspci            list PCI devices'',
     ''  fat32 ls [path]  list FAT32 directory'',
     ''  fat32 cat <path> read FAT32 file'',
     ''  ping <ip>        send ICMP echo request'',
     ''  net              show network status'',
     ''  lsusb            list USB devices'',
     ''  clear            clear screen'',
     ''  reboot           reboot machine'']"

definition shell_cmd_help :: "'a shell_scheme \<Rightarrow> 'a shell_scheme" where
  "shell_cmd_help s = fold (\<lambda>l. puts (ascii (l @ newline))) help_lines s"

definition shell_cmd_ps :: "'a shell_scheme \<Rightarrow> 'a shell_scheme option" where
  "shell_cmd_ps s = do {
     s \<leftarrow> print (''%-4s %-12s %-10s %-8s'' @ newline) [text_arg ''ID'', text_arg ''NAME'', text_arg ''STATE'', text_arg ''PRIO''] s;
     fold (\<lambda>(i, nm, st, pr) r. do { s \<leftarrow> r; print (''%-4lu %-12s %-10s %-8s'' @ newline) [Val i, text_arg nm, text_arg st, text_arg pr] s })
       (sched_list_tasks s) (Some s) }"

primrec list_entries :: "VfsStat list \<Rightarrow> 'a shell_scheme \<Rightarrow> 'a shell_scheme option" where
  "list_entries [] s = Some s"
| "list_entries (e # es) s = do {
     s \<leftarrow> (if st_type e = VFS_DIRECTORY then print (''  [dir]  %s'' @ newline) [text_arg (st_name e)] s
          else print (''  %lu B  %s'' @ newline) [Val (st_size e), text_arg (st_name e)] s);
     list_entries es s }"

definition shell_cmd_ls :: "string option \<Rightarrow> 'a shell_scheme \<Rightarrow> 'a shell_scheme option" where
  "shell_cmd_ls arg s =
     (let path = (case arg of None \<Rightarrow> abs_path ''.'' s | Some a \<Rightarrow> if a = [] then abs_path ''.'' s else abs_path a s)
      in case vfs_readdir (Some path) 32 s of
           None \<Rightarrow> print (''ls: cannot access '' @ quo @ newline) [text_arg path] s
         | Some es \<Rightarrow> if es = [] then print (''(empty)'' @ newline) [] s else list_entries es s)"

definition shell_cmd_cat :: "string \<Rightarrow> 'a shell_scheme \<Rightarrow> 'a shell_scheme option" where
  "shell_cmd_cat arg s =
     (if arg = [] then print (''cat: missing file path'' @ newline) [] s
      else let path = abs_path arg s in do {
        (fd, s) \<leftarrow> vfs_open (Some path) False s;
        if fd < 0 then print (''cat: '' @ quo @ '': no such file'' @ newline) [text_arg path] s
        else do {
          (cs, s) \<leftarrow> chunks fd (stk s) 255 s;
          let s = fold (\<lambda>c. puts (takeWhile (\<lambda>b. b \<noteq> 0) c)) cs s;
          s \<leftarrow> print newline [] s;
          Some (snd (vfs_close fd s)) } })"

definition is_digit :: "char \<Rightarrow> bool" where
  "is_digit c \<longleftrightarrow> 48 \<le> (of_char c :: nat) \<and> (of_char c :: nat) \<le> 57"

definition digit_of :: "char \<Rightarrow> int" where
  "digit_of c = of_char c - 48"

text \<open>The count of \<open>head\<close> and \<open>tail\<close>; a count beyond the range of \<open>int\<close> is undefined in C.\<close>

definition line_count :: "string \<Rightarrow> int \<times> string" where
  "line_count args =
     (if take 3 args = ''-n ''
      then let r = drop 3 args
           in (foldl (\<lambda>n c. n * 10 + digit_of c) 0 (takeWhile is_digit r),
               dropWhile (\<lambda>c. c = CHR '' '') (dropWhile is_digit r))
      else (10, args))"

primrec head_chars :: "int \<Rightarrow> u8 list \<Rightarrow> int \<Rightarrow> 'a shell_scheme \<Rightarrow> int \<times> 'a shell_scheme" where
  "head_chars nlines [] printed s = (printed, s)"
| "head_chars nlines (c # cs) printed s =
     (if printed < nlines then head_chars nlines cs (if c = 10 then printed + 1 else printed) (puts [c] s) else (printed, s))"

partial_function (option) head_read :: "int \<Rightarrow> int \<Rightarrow> int \<Rightarrow> 'a shell_scheme \<Rightarrow> (int \<times> 'a shell_scheme) option" where
  "head_read fd nlines printed s =
     (if printed < nlines
      then let (r, s) = vfs_read fd (stk s) 255 s
           in if 0 < r
              then let (printed, s) = head_chars nlines (buffer (stk s) (nat r) (memory s)) printed s
                   in head_read fd nlines printed s
              else Some (printed, s)
      else Some (printed, s))"

definition shell_cmd_head :: "string \<Rightarrow> 'a shell_scheme \<Rightarrow> 'a shell_scheme option" where
  "shell_cmd_head args s =
     (let (nlines, file) = line_count args
      in if file = [] then print (''head: missing file'' @ newline) [] s
         else let path = abs_path file s in do {
           (fd, s) \<leftarrow> vfs_open (Some path) False s;
           if fd < 0 then print (''head: '' @ quo @ '': no such file'' @ newline) [text_arg path] s
           else do {
             (printed, s) \<leftarrow> head_read fd nlines 0 s;
             s \<leftarrow> (if printed = 0 then print newline [] s else Some s);
             Some (snd (vfs_close fd s)) } })"

primrec tail_chars :: "int \<Rightarrow> u8 list \<Rightarrow> int \<Rightarrow> 'a shell_scheme \<Rightarrow> int \<times> 'a shell_scheme" where
  "tail_chars skip [] cur s = (cur, s)"
| "tail_chars skip (c # cs) cur s =
     tail_chars skip cs (if c = 10 then cur + 1 else cur) (if skip \<le> cur then puts [c] s else s)"

definition shell_cmd_tail :: "string \<Rightarrow> 'a shell_scheme \<Rightarrow> 'a shell_scheme option" where
  "shell_cmd_tail args s =
     (let (nlines, file) = line_count args
      in if file = [] then print (''tail: missing file'' @ newline) [] s
         else let path = abs_path file s in do {
           (fd, s) \<leftarrow> vfs_open (Some path) False s;
           if fd < 0 then print (''tail: '' @ quo @ '': no such file'' @ newline) [text_arg path] s
           else do {
             (cs, s) \<leftarrow> chunks fd (stk s) 256 s;
             let newlines = int (count_list (concat cs) 10);
             let s = snd (vfs_close fd s);
             let skip = (if newlines - nlines < 0 then 0 else newlines - nlines);
             (fd, s) \<leftarrow> vfs_open (Some path) False s;
             if fd < 0 then Some s
             else do {
               (cs, s) \<leftarrow> chunks fd (stk s) 256 s;
               let (cur, s) = tail_chars skip (concat cs) 0 s;
               if newlines = 0 \<or> cur = 0 then print newline [] s else Some s } } })"

record wc =
  w_lines :: int
  w_words :: int
  w_bytes :: int
  in_word :: bool

definition wc_step :: "u8 \<Rightarrow> wc \<Rightarrow> wc" where
  "wc_step c w =
     (let w = w\<lparr>w_bytes := w_bytes w + 1\<rparr>;
          w = (if c = 10 then w\<lparr>w_lines := w_lines w + 1\<rparr> else w)
      in if c = 32 \<or> c = 9 \<or> c = 10 then w\<lparr>in_word := False\<rparr>
         else if \<not> in_word w then w\<lparr>in_word := True, w_words := w_words w + 1\<rparr> else w)"

definition wc_bytes :: "u8 list \<Rightarrow> wc" where
  "wc_bytes cs = fold wc_step cs \<lparr>w_lines = 0, w_words = 0, w_bytes = 0, in_word = False\<rparr>"

definition shell_cmd_wc :: "string \<Rightarrow> 'a shell_scheme \<Rightarrow> 'a shell_scheme option" where
  "shell_cmd_wc arg s =
     (if arg = [] then print (''wc: missing file'' @ newline) [] s
      else let path = abs_path arg s in do {
        (fd, s) \<leftarrow> vfs_open (Some path) False s;
        if fd < 0 then print (''wc: '' @ quo @ '': no such file'' @ newline) [text_arg path] s
        else do {
          (cs, s) \<leftarrow> chunks fd (stk s) 256 s;
          let w = wc_bytes (concat cs);
          let s = snd (vfs_close fd s);
          print (''  %d  %d  %d %s'' @ newline) [Val (of_int (w_lines w)), Val (of_int (w_words w)), Val (of_int (w_bytes w)), text_arg arg] s } })"

text \<open>A word of at most 127 characters, and what follows it.\<close>

definition split_word :: "string \<Rightarrow> string \<times> string" where
  "split_word args =
     (let w = take 127 (takeWhile (\<lambda>c. c \<noteq> CHR '' '') args)
      in (w, dropWhile (\<lambda>c. c = CHR '' '') (drop (length w) args)))"

definition poke :: "ptr \<Rightarrow> u8 list \<Rightarrow> mem \<Rightarrow> mem" where
  "poke p cs m = (\<lambda>x. if within p (length cs) x then cs ! unat (x - p) else m x)"

definition shell_cmd_write :: "string \<Rightarrow> 'a shell_scheme \<Rightarrow> 'a shell_scheme option" where
  "shell_cmd_write args s =
     (if args = [] then print (''write: usage: write <file> <text>'' @ newline) [] s
      else let (filename, text) = split_word args; path = abs_path filename s in do {
        (fd, s) \<leftarrow> vfs_open (Some path) True s;
        if fd < 0 then print (''write: cannot open '' @ quo @ newline) [text_arg path] s
        else do {
          let s = s\<lparr>memory := poke (stk s) (ascii text) (memory s)\<rparr>;
          let s = snd (vfs_write fd (stk s) (of_nat (length text)) s);
          let s = snd (vfs_close fd s);
          print (''Wrote %d bytes to %s'' @ newline) [Val (of_nat (length text)), text_arg path] s } })"

partial_function (option) copy_loop :: "int \<Rightarrow> int \<Rightarrow> 'a shell_scheme \<Rightarrow> 'a shell_scheme option" where
  "copy_loop sfd dfd s =
     (let (r, s) = vfs_read sfd (stk s) 256 s
      in if 0 < r then copy_loop sfd dfd (snd (vfs_write dfd (stk s) (of_int r) s)) else Some s)"

definition two_words :: "string \<Rightarrow> string \<times> string" where
  "two_words args = (let (a, r) = split_word args in (a, fst (split_word r)))"

definition shell_cmd_cp :: "string \<Rightarrow> 'a shell_scheme \<Rightarrow> 'a shell_scheme option" where
  "shell_cmd_cp args s =
     (if args = [] then print (''cp: usage: cp <src> <dst>'' @ newline) [] s
      else let (src_name, dst_name) = two_words args
           in if dst_name = [] then print (''cp: missing destination'' @ newline) [] s
              else let src = abs_path src_name s; dst = abs_path dst_name s in do {
                (sfd, s) \<leftarrow> vfs_open (Some src) False s;
                if sfd < 0 then print (''cp: '' @ quo @ '': no such file'' @ newline) [text_arg src] s
                else do {
                  (dfd, s) \<leftarrow> vfs_open (Some dst) True s;
                  if dfd < 0 then print (''cp: cannot create '' @ quo @ newline) [text_arg dst] (snd (vfs_close sfd s))
                  else do {
                    s \<leftarrow> copy_loop sfd dfd s;
                    Some (snd (vfs_close dfd (snd (vfs_close sfd s)))) } } })"

definition shell_cmd_mv :: "string \<Rightarrow> 'a shell_scheme \<Rightarrow> 'a shell_scheme option" where
  "shell_cmd_mv args s =
     (if args = [] then print (''mv: usage: mv <src> <dst>'' @ newline) [] s
      else let (src_name, dst_name) = two_words args
           in if dst_name = [] then print (''mv: missing destination'' @ newline) [] s
              else let src = abs_path src_name s; dst = abs_path dst_name s; (r, s) = vfs_rename (Some src) (Some dst) s
                   in if r \<noteq> 0 then print (''mv: cannot move '' @ quo @ '' to '' @ quo @ newline) [text_arg src, text_arg dst] s else Some s)"

definition shell_cmd_stat :: "string \<Rightarrow> 'a shell_scheme \<Rightarrow> 'a shell_scheme option" where
  "shell_cmd_stat arg s =
     (if arg = [] then print (''stat: missing path'' @ newline) [] s
      else let path = abs_path arg s
           in case vfs_stat (Some path) s of
                None \<Rightarrow> print (''stat: '' @ quo @ '': no such file or directory'' @ newline) [text_arg path] s
              | Some st \<Rightarrow> do {
                  s \<leftarrow> print (''  File: %s'' @ newline) [text_arg path] s;
                  s \<leftarrow> print (''  Type: %s'' @ newline) [text_arg (if st_type st = VFS_DIRECTORY then ''directory'' else ''regular file'')] s;
                  if st_type st = VFS_FILE then print (''  Size: %lu bytes'' @ newline) [Val (st_size st)] s else Some s })"

definition strip_trailing :: "string \<Rightarrow> string" where
  "strip_trailing t = rev (dropWhile (\<lambda>c. c = CHR '' '' \<or> c = CHR 0x09) (rev t))"

text \<open>The address of \<open>ping\<close>: at most four octets, each modulo 256, and how many there were.\<close>

definition octet :: "string \<Rightarrow> u8" where
  "octet ds = foldl (\<lambda>v c. v * 10 + of_int (digit_of c)) 0 ds"

primrec parse_ip :: "nat \<Rightarrow> string \<Rightarrow> u8 list" where
  "parse_ip 0 arg = []"
| "parse_ip (Suc n) arg =
     (if arg = [] then []
      else let r = dropWhile is_digit arg
           in octet (takeWhile is_digit arg) # parse_ip n (if r \<noteq> [] \<and> hd r = CHR ''.'' then tl r else r))"

definition parse_kill :: "string \<Rightarrow> u64 \<times> int" where
  "parse_kill arg =
     (let pid = foldl (\<lambda>n c. n * 10 + of_int (digit_of c)) 0 (takeWhile is_digit arg);
          r = dropWhile is_digit arg
      in (pid, if r \<noteq> [] \<and> hd r = CHR '' '' then foldl (\<lambda>n c. n * 10 + digit_of c) 0 (takeWhile is_digit (tl r)) else 15))"

definition starts :: "string \<Rightarrow> string \<Rightarrow> bool" where
  "starts p t \<longleftrightarrow> take (length p) t = p"

text \<open>A command that may stand alone or be followed by a space and an argument.\<close>

definition word_cmd :: "string \<Rightarrow> string \<Rightarrow> bool" where
  "word_cmd nm t \<longleftrightarrow> starts nm t \<and> (drop (length nm) t = [] \<or> hd (drop (length nm) t) = CHR '' '')"

definition word_arg :: "string \<Rightarrow> string \<Rightarrow> string option" where
  "word_arg nm t = (if drop (length nm) t = [] then None else Some (drop (length nm + 1) t))"

definition shell_cmd_cd :: "string option \<Rightarrow> 'a shell_scheme \<Rightarrow> 'a shell_scheme option" where
  "shell_cmd_cd arg s = (case arg of
     None \<Rightarrow> Some (s\<lparr>cwd := ''/''\<rparr>)
   | Some a \<Rightarrow>
       if a = [] then Some (s\<lparr>cwd := ''/''\<rparr>)
       else let path = abs_path a s
            in case vfs_stat (Some path) s of
                 None \<Rightarrow> print (''cd: '' @ quo @ '': no such directory'' @ newline) [text_arg path] s
               | Some st \<Rightarrow>
                   if st_type st \<noteq> VFS_DIRECTORY then print (''cd: '' @ quo @ '': not a directory'' @ newline) [text_arg path] s
                   else Some (s\<lparr>cwd := path\<rparr>))"

definition shell_cmd_mkdir :: "string \<Rightarrow> 'a shell_scheme \<Rightarrow> 'a shell_scheme option" where
  "shell_cmd_mkdir arg s =
     (let path = abs_path arg s; (r, s) = vfs_mkdir (Some path) s
      in if r = 0 then print (''Created %s'' @ newline) [text_arg path] s else print (''mkdir: failed to create '' @ quo @ newline) [text_arg path] s)"

definition shell_cmd_rmdir :: "string \<Rightarrow> 'a shell_scheme \<Rightarrow> 'a shell_scheme option" where
  "shell_cmd_rmdir arg s =
     (let path = abs_path arg s
      in case vfs_stat (Some path) s of
           None \<Rightarrow> print (''rmdir: '' @ quo @ '': no such directory'' @ newline) [text_arg path] s
         | Some st \<Rightarrow>
             if st_type st \<noteq> VFS_DIRECTORY then print (''rmdir: '' @ quo @ '': not a directory'' @ newline) [text_arg path] s
             else do {
               (r, s) \<leftarrow> vfs_unlink (Some path) s;
               if r \<noteq> 0 then print (''rmdir: '' @ quo @ '': directory not empty'' @ newline) [text_arg path] s
               else print (''Removed %s'' @ newline) [text_arg path] s })"

definition shell_cmd_rm :: "string \<Rightarrow> 'a shell_scheme \<Rightarrow> 'a shell_scheme option" where
  "shell_cmd_rm arg s =
     (let path = abs_path arg s in do {
        (r, s) \<leftarrow> vfs_unlink (Some path) s;
        if r = 0 then print (''Removed %s'' @ newline) [text_arg path] s else print (''rm: cannot remove '' @ quo @ newline) [text_arg path] s })"

definition shell_cmd_touch :: "string \<Rightarrow> 'a shell_scheme \<Rightarrow> 'a shell_scheme option" where
  "shell_cmd_touch arg s =
     (let path = abs_path arg s in do {
        (fd, s) \<leftarrow> vfs_open (Some path) True s;
        if 0 \<le> fd then print (''Created %s'' @ newline) [text_arg path] (snd (vfs_close fd s))
        else print (''touch: cannot create '' @ quo @ newline) [text_arg path] s })"

definition shell_cmd_kill :: "string \<Rightarrow> 'a shell_scheme \<Rightarrow> 'a shell_scheme option" where
  "shell_cmd_kill arg s =
     (let (pid, sig) = parse_kill arg
      in if pid = 0 then print (''kill: usage: kill <pid> [signal]'' @ newline) [] s
         else let (rc, s) = sched_send_signal pid sig s
              in if rc = 0 then print (''Sent signal %d to task %lu'' @ newline) [Val (of_int sig), Val pid] s
                 else if rc = -2 then print (''kill: task %lu is already dead'' @ newline) [Val pid] s
                 else print (''kill: task %lu not found'' @ newline) [Val pid] s)"

definition shell_cmd_exec :: "u64 \<Rightarrow> u64 \<Rightarrow> string \<Rightarrow> 'a shell_scheme \<Rightarrow> 'a shell_scheme option" where
  "shell_cmd_exec exit_tramp tramp arg s =
     (let path = abs_path arg s in do {
        (t, s) \<leftarrow> elf_load exit_tramp tramp (Some path) arg s;
        case t of
          Some i \<Rightarrow> print (''Loaded ELF task '' @ quo @ '' (id %lu)'' @ newline) [text_arg (tname (task s i)), Val (tid (task s i))] s
        | None \<Rightarrow> print (''exec: failed to load '' @ quo @ newline) [text_arg path] s })"

definition shell_cmd_usertest :: "u64 \<Rightarrow> u64 \<Rightarrow> u64 \<Rightarrow> 'a shell_scheme \<Rightarrow> 'a shell_scheme option" where
  "shell_cmd_usertest exit_tramp tramp demo s = do {
     (t, s) \<leftarrow> user_task_create exit_tramp tramp ''user_demo'' demo s;
     case t of
       Some i \<Rightarrow> print (''Spawned user-mode task (id %lu)'' @ newline) [Val (tid (task s i))] s
     | None \<Rightarrow> print (''usertest: failed to create user task'' @ newline) [] s }"

definition shell_cmd_uptime :: "u64 \<Rightarrow> 'a shell_scheme \<Rightarrow> 'a shell_scheme option" where
  "shell_cmd_uptime ticks s =
     (let secs = ticks div 100; mins = secs div 60; hrs = mins div 60
      in print (''up %lu:%02lu:%02lu (%lu ticks)'' @ newline) [Val hrs, Val (mins mod 60), Val (secs mod 60), Val ticks] s)"

text \<open>
  The dispatcher.  The addresses are those of the two trampolines of task creation and of the demo task; \<open>ticks\<close> is the time.  The
  commands that only call another component and print (\<open>reboot\<close>, \<open>test\<close>, \<open>lspci\<close>, \<open>lsusb\<close>, \<open>net\<close>, \<open>ping\<close>, \<open>fat32\<close>) are the argument
  \<open>other\<close>, which is given the line.
\<close>

record addresses =
  a_exit :: u64
  a_user :: u64
  a_elf :: u64
  a_demo :: u64

definition other_command :: "string \<Rightarrow> bool" where
  "other_command t \<longleftrightarrow> t \<in> {''reboot'', ''test'', ''lspci'', ''lsusb'', ''net'', ''ping''} \<or> starts ''ping '' t \<or> word_cmd ''fat32'' t"

definition run_command :: "addresses \<Rightarrow> (string \<Rightarrow> 'a shell_scheme \<Rightarrow> 'a shell_scheme option) \<Rightarrow> u64 \<Rightarrow> string \<Rightarrow> 'a shell_scheme \<Rightarrow> 'a shell_scheme option" where
  "run_command a other ticks t s =
     (if t = ''help'' then Some (shell_cmd_help s)
      else if t = ''pwd'' then print (''%s'' @ newline) [text_arg (cwd s)] s
      else if word_cmd ''cd'' t then shell_cmd_cd (word_arg ''cd'' t) s
      else if word_cmd ''echo'' t then print (''%s'' @ newline) [text_arg (case word_arg ''echo'' t of None \<Rightarrow> [] | Some x \<Rightarrow> x)] s
      else if t = ''mem'' then print (''Free pages: %lu (%lu MiB)'' @ newline) [Val (pmm_free_pages s), Val (pmm_free_pages s * PAGE_SIZE div (1024 * 1024))] s
      else if t = ''uptime'' then shell_cmd_uptime ticks s
      else if t = ''clear'' then Some (show_ops [Clear_screen] s)
      else if t = ''ps'' then shell_cmd_ps s
      else if t = ''whoami'' then print (''root'' @ newline) [] s
      else if word_cmd ''uname'' t
           then (if word_arg ''uname'' t = Some ''-a'' then print (''micro-os 0.2 x86_64 micro-os-kernel'' @ newline) [] s else print (''micro-os'' @ newline) [] s)
      else if word_cmd ''ls'' t then shell_cmd_ls (word_arg ''ls'' t) s
      else if starts ''cat '' t then shell_cmd_cat (drop 4 t) s
      else if starts ''head '' t then shell_cmd_head (drop 5 t) s
      else if starts ''tail '' t then shell_cmd_tail (drop 5 t) s
      else if starts ''wc '' t then shell_cmd_wc (drop 3 t) s
      else if starts ''write '' t then shell_cmd_write (drop 6 t) s
      else if starts ''cp '' t then shell_cmd_cp (drop 3 t) s
      else if starts ''mv '' t then shell_cmd_mv (drop 3 t) s
      else if starts ''stat '' t then shell_cmd_stat (drop 5 t) s
      else if starts ''mkdir '' t then shell_cmd_mkdir (drop 6 t) s
      else if starts ''rmdir '' t then shell_cmd_rmdir (drop 6 t) s
      else if starts ''rm '' t then shell_cmd_rm (drop 3 t) s
      else if starts ''touch '' t then shell_cmd_touch (drop 6 t) s
      else if t = ''kill'' then print (''kill: usage: kill <pid> [signal]'' @ newline) [] s
      else if starts ''kill '' t then shell_cmd_kill (drop 5 t) s
      else if starts ''exec '' t then shell_cmd_exec (a_exit a) (a_elf a) (drop 5 t) s
      else if t = ''usertest'' then shell_cmd_usertest (a_exit a) (a_user a) (a_demo a) s
      else if other_command t then other t s
      else print (''Unknown command: %s'' @ newline) [text_arg t] s)"

definition shell_execute :: "addresses \<Rightarrow> (string \<Rightarrow> 'a shell_scheme \<Rightarrow> 'a shell_scheme option) \<Rightarrow> u64 \<Rightarrow> string \<Rightarrow> 'a shell_scheme \<Rightarrow> 'a shell_scheme option" where
  "shell_execute a other ticks t s = (if t = [] then Some s else run_command a other ticks (strip_trailing t) s)"

section \<open>Completion\<close>

definition shell_commands :: "string list" where
  "shell_commands = [''help'', ''mem'', ''uptime'', ''clear'', ''reboot'', ''ps'',
     ''ls'', ''cat'', ''write'', ''mkdir'', ''rm'', ''touch'',
     ''cd'', ''pwd'', ''echo'', ''cp'', ''mv'', ''stat'',
     ''head'', ''tail'', ''wc'', ''whoami'', ''uname'', ''rmdir'',
     ''usertest'', ''test'', ''kill'', ''exec'', ''lspci'', ''fat32'',
     ''ping'', ''net'', ''lsusb'']"

definition shrink_prefix :: "string \<Rightarrow> nat \<Rightarrow> nat \<Rightarrow> string \<Rightarrow> nat" where
  "shrink_prefix m0 from cp m =
     (let cp = min cp (length m)
      in case List.find (\<lambda>j. m ! j \<noteq> m0 ! j) [from..<cp] of Some j \<Rightarrow> j | None \<Rightarrow> cp)"

definition common_prefix_len :: "string list \<Rightarrow> nat \<Rightarrow> nat" where
  "common_prefix_len matches from = (case matches of [] \<Rightarrow> from
     | m0 # ms \<Rightarrow> foldl (shrink_prefix m0 from) (length m0) ms)"

definition match_width :: "string \<times> bool \<Rightarrow> nat" where
  "match_width m = length (fst m) + (if snd m then 1 else 0)"

definition show_match :: "nat \<Rightarrow> nat \<Rightarrow> nat \<Rightarrow> nat \<times> string \<times> bool \<Rightarrow> u8 list" where
  "show_match cols maxw n = (\<lambda>(i, m).
     ascii (fst m) @ (if snd m then ascii ''/'' else [])
     @ (if (i + 1) mod cols = 0 \<or> i = n - 1 then ascii newline else replicate (maxw - match_width m) 32))"

definition shell_list_matches :: "(string \<times> bool) list \<Rightarrow> 'a shell_scheme \<Rightarrow> 'a shell_scheme" where
  "shell_list_matches ms s =
     (let maxw = foldr (\<lambda>m w. max (match_width m) w) ms 0 + 2;
          cols = max 1 (80 div maxw)
      in puts (ascii newline @ concat (map (show_match cols maxw (length ms)) (enumerate 0 ms))) s)"

definition shell_print_prompt :: "'a shell_scheme \<Rightarrow> 'a shell_scheme" where
  "shell_print_prompt s = puts (ascii (''root@micro-os:'' @ cwd s @ ''$ '')) s"

definition shell_redraw_prompt :: "'a shell_scheme \<Rightarrow> 'a shell_scheme" where
  "shell_redraw_prompt s = puts (ascii (take (pos s) (line s))) (shell_print_prompt s)"

definition shell_redraw_from :: "nat \<Rightarrow> 'a shell_scheme \<Rightarrow> 'a shell_scheme" where
  "shell_redraw_from cursor s =
     show_ops ([Begin_batch] @ map Put (ascii (drop cursor (line s)) @ [32] @ replicate (length (line s) - cursor + 1) 8) @ [End_batch]) s"

text \<open>The token before the cursor, the names that complete it, and how much of the name is typed.\<close>

definition token :: "'a shell_scheme \<Rightarrow> string" where
  "token s = rev (takeWhile (\<lambda>c. c \<noteq> CHR '' '') (rev (take (pos s) (line s))))"

definition is_command :: "'a shell_scheme \<Rightarrow> bool" where
  "is_command s \<longleftrightarrow> pos s - length (token s) = 0"

definition dir_part :: "string \<Rightarrow> string" where
  "dir_part t = rev (dropWhile (\<lambda>c. c \<noteq> CHR ''/'') (rev t))"

definition name_part :: "string \<Rightarrow> string" where
  "name_part t = drop (length (dir_part t)) t"

definition find_matches :: "'a shell_scheme \<Rightarrow> (string \<times> bool) list" where
  "find_matches s =
     (if is_command s then take 64 (map (\<lambda>c. (c, False)) (filter (starts (token s)) shell_commands))
      else let dir = abs_path (if dir_part (token s) = [] then ''.'' else dir_part (token s)) s
           in case vfs_readdir (Some dir) 32 s of
                None \<Rightarrow> []
              | Some es \<Rightarrow> take 64 (map (\<lambda>e. (st_name e, st_type e = VFS_DIRECTORY))
                             (filter (\<lambda>e. starts (name_part (token s)) (st_name e)) es)))"

definition typed :: "'a shell_scheme \<Rightarrow> nat" where
  "typed s = (if is_command s then length (token s) else length (name_part (token s)))"

definition insert_char :: "char \<Rightarrow> 'a shell_scheme \<Rightarrow> 'a shell_scheme" where
  "insert_char c s = s\<lparr>line := take (pos s) (line s) @ [c] @ drop (pos s) (line s), pos := pos s + 1\<rparr>"

primrec insert_while :: "string \<Rightarrow> 'a shell_scheme \<Rightarrow> 'a shell_scheme" where
  "insert_while [] s = s"
| "insert_while (c # cs) s = (if pos s < 126 then insert_while cs (insert_char c s) else s)"

definition redraw_after :: "nat \<Rightarrow> 'a shell_scheme \<Rightarrow> 'a shell_scheme" where
  "redraw_after old s =
     show_ops ([Begin_batch] @ map Put (ascii (drop old (line s)) @ replicate (length (line s) - pos s) 8) @ [End_batch]) s"

definition shell_tab_complete :: "'a shell_scheme \<Rightarrow> 'a shell_scheme" where
  "shell_tab_complete s =
     (if token s = [] \<and> \<not> last_was_tab s then s\<lparr>last_was_tab := True\<rparr>
      else case find_matches s of
        [] \<Rightarrow> s\<lparr>last_was_tab := True\<rparr>
      | [(m, dir)] \<Rightarrow>
          let trail = (if is_command s then CHR '' '' else if dir then CHR ''/'' else CHR '' '')
          in (redraw_after (pos s) (insert_while [trail] (insert_while (drop (typed s) m) s)))\<lparr>last_was_tab := False\<rparr>
      | ms \<Rightarrow>
          let cp = common_prefix_len (map fst ms) (typed s)
          in if typed s < cp
             then (redraw_after (pos s) (insert_while (drop (typed s) (take cp (fst (hd ms)))) s))\<lparr>last_was_tab := True\<rparr>
             else if last_was_tab s
             then (shell_redraw_prompt (shell_list_matches ms s))\<lparr>last_was_tab := False\<rparr>
             else s\<lparr>last_was_tab := True\<rparr>)"

section \<open>The line editor\<close>

definition backspaces :: "nat \<Rightarrow> screen_op list" where
  "backspaces n = replicate n (Put 8)"

definition shell_key ::
  "addresses \<Rightarrow> (string \<Rightarrow> 'a shell_scheme \<Rightarrow> 'a shell_scheme option) \<Rightarrow> u64 \<Rightarrow> u16 \<Rightarrow> 'a shell_scheme \<Rightarrow> 'a shell_scheme option" where
  "shell_key a other ticks key s =
     (if key = 0x0A then do {
        s \<leftarrow> shell_execute a other ticks (line s) (puts [10] s);
        Some (shell_print_prompt (s\<lparr>pos := 0, line := [], last_was_tab := False\<rparr>)) }
      else if key = 0x08 then
        (let s = s\<lparr>last_was_tab := False\<rparr>
         in if 0 < pos s
            then let s = s\<lparr>line := take (pos s - 1) (line s) @ drop (pos s) (line s), pos := pos s - 1\<rparr>
                 in Some (shell_redraw_from (pos s) (puts [8] s))
            else Some s)
      else if key = 0x09 then Some (shell_tab_complete s)
      else if key = KEY_LEFT then
        (let s = s\<lparr>last_was_tab := False\<rparr> in if 0 < pos s then Some (puts [8] (s\<lparr>pos := pos s - 1\<rparr>)) else Some s)
      else if key = KEY_RIGHT then
        (let s = s\<lparr>last_was_tab := False\<rparr>
         in if pos s < length (line s) then Some (puts (ascii [line s ! pos s]) (s\<lparr>pos := pos s + 1\<rparr>)) else Some s)
      else if key = KEY_HOME then
        Some (show_ops ([Begin_batch] @ backspaces (pos s) @ [End_batch]) (s\<lparr>last_was_tab := False, pos := 0\<rparr>))
      else if key = KEY_END then
        Some (show_ops ([Begin_batch] @ map Put (ascii (drop (pos s) (line s))) @ [End_batch])
          (s\<lparr>last_was_tab := False, pos := max (pos s) (length (line s))\<rparr>))
      else if key = KEY_DELETE then
        (let s = s\<lparr>last_was_tab := False\<rparr>
         in if pos s < length (line s)
            then Some (shell_redraw_from (pos s) (s\<lparr>line := take (pos s) (line s) @ drop (pos s + 1) (line s)\<rparr>))
            else Some s)
      else if key = 0x0C then
        (let s = shell_print_prompt (show_ops [Clear_screen, Begin_batch] (s\<lparr>last_was_tab := False\<rparr>))
         in Some (show_ops (map Put (ascii (line s)) @ backspaces (length (line s) - pos s) @ [End_batch]) s))
      else if 0x80 \<le> key then Some s
      else if 0x01 \<le> key \<and> key \<le> 0x1F then Some s
      else if length (line s) < 127 then
        (let old = pos s in Some (redraw_after old (insert_char (char_of (unat key)) (s\<lparr>last_was_tab := False\<rparr>))))
      else Some s)"

primrec shell_keys ::
  "addresses \<Rightarrow> (string \<Rightarrow> 'a shell_scheme \<Rightarrow> 'a shell_scheme option) \<Rightarrow> u64 \<Rightarrow> u16 list \<Rightarrow> 'a shell_scheme \<Rightarrow> 'a shell_scheme option" where
  "shell_keys a other ticks [] s = Some s"
| "shell_keys a other ticks (k # ks) s = do { s \<leftarrow> shell_key a other ticks k s; shell_keys a other ticks ks s }"

text \<open>The shell's task on the keys pressed; discarding the keys pressed during boot is the keyboard's part.\<close>

definition shell_task ::
  "addresses \<Rightarrow> (string \<Rightarrow> 'a shell_scheme \<Rightarrow> 'a shell_scheme option) \<Rightarrow> u64 \<Rightarrow> u16 list \<Rightarrow> 'a shell_scheme \<Rightarrow> 'a shell_scheme option" where
  "shell_task a other ticks ks s =
     (let s = puts (ascii ''micro-os 0.2 '' @ [0xE2, 0x80, 0x94] @ ascii ('' type '' @ [CHR 0x27] @ ''help'' @ [CHR 0x27] @ '' for commands'' @ newline))
                (show_ops [Clear_screen] s)
      in shell_keys a other ticks ks ((shell_print_prompt s)\<lparr>line := [], pos := 0\<rparr>))"

section \<open>The line stays in its buffer\<close>

definition line_ok :: "'a shell_scheme \<Rightarrow> bool" where
  "line_ok s \<longleftrightarrow> pos s \<le> length (line s) \<and> length (line s) \<le> 127"

lemma screen_fields [simp]:
  "line (show_ops os s) = line s" "pos (show_ops os s) = pos s" "line (puts cs s) = line s" "pos (puts cs s) = pos s"
  "line (shell_print_prompt s) = line s" "pos (shell_print_prompt s) = pos s"
  "line (shell_redraw_from i s) = line s" "pos (shell_redraw_from i s) = pos s"
  "line (redraw_after i s) = line s" "pos (redraw_after i s) = pos s"
  by (simp_all add: show_ops_def puts_def shell_print_prompt_def shell_redraw_from_def redraw_after_def)

lemma shell_key_line_ok:
  assumes "line_ok s" and "k \<noteq> 0x09" and "k \<noteq> 0x0A"
  shows "\<exists>s'. shell_key a other ticks k s = Some s' \<and> line_ok s'"
  using assms by (auto simp: shell_key_def line_ok_def Let_def insert_char_def)


lemma enter_clears_line:
  "shell_key a other ticks 0x0A s = Some s' \<Longrightarrow> line s' = [] \<and> pos s' = 0"
  by (auto simp: shell_key_def bind_eq_Some_conv)

text \<open>C30: completion does not.  With the cursor behind \<open>cl\<close> at the start of a full line, Tab inserts the rest of \<open>clear\<close> and a space: the
  line then has 131 characters, which the code moves inside its buffer of 128 bytes.\<close>

theorem completion_overflows:
  assumes "length (line s) = 127" and "take 2 (line s) = ''cl''" and "pos s = 2"
  shows "length (line (shell_tab_complete s)) = 131"
proof -
  have t: "token s = ''cl''" using assms(2,3) by (simp add: token_def)
  have c: "is_command s" using t assms(3) by (simp add: is_command_def)
  have m: "find_matches s = [(''clear'', False)]"
    using c t by (simp add: find_matches_def shell_commands_def starts_def)
  show ?thesis
    using assms t c m by (simp add: shell_tab_complete_def typed_def insert_char_def)
qed

definition sample_shell :: "string \<Rightarrow> nat \<Rightarrow> shell" where
  "sample_shell l p = user.extend sample_user \<lparr>cwd = ''/'', last_was_tab = False, line = l, pos = p, stk = 0x70000, screen = []\<rparr>"


theorem completion_overflows_witness:
  "length (line (shell_tab_complete (sample_shell (''cl'' @ replicate 125 (CHR ''x'')) 2))) = 131"
  by (rule completion_overflows) (simp_all add: sample_shell_def user.defs)

section \<open>Resolved paths\<close>

abbreviation slash :: char where "slash \<equiv> CHR ''/''"

definition plain :: "string \<Rightarrow> bool" where
  "plain c \<longleftrightarrow> c \<noteq> [] \<and> c \<noteq> ''.'' \<and> c \<noteq> ''..'' \<and> slash \<notin> set c"

definition path_of :: "string list \<Rightarrow> string" where
  "path_of cs = concat (map (\<lambda>c. slash # c) cs)"

lemma path_of_simps [simp]: "path_of [] = []" "path_of (c # cs) = slash # c @ path_of cs"
  by (simp_all add: path_of_def)

lemma push_component_plain:
  assumes "list_all plain cs" and "length cs \<le> 64" and "c \<noteq> []" and "slash \<notin> set c"
  shows "list_all plain (push_component c cs)" "length (push_component c cs) \<le> 64"
    "length (path_of (push_component c cs)) \<le> length (path_of cs) + length c + 1"
proof -
  have b: "length (path_of (butlast cs)) \<le> length (path_of cs)"
    by (cases cs rule: rev_cases) (simp_all add: path_of_def)
  show "list_all plain (push_component c cs)"
    using assms by (auto simp: push_component_def plain_def list_all_iff dest: in_set_butlastD)
  show "length (push_component c cs) \<le> 64" using assms(2) by (auto simp: push_component_def)
  show "length (path_of (push_component c cs)) \<le> length (path_of cs) + length c + 1"
    using b by (simp add: push_component_def path_of_def)
qed

lemma component_facts:
  fixes p :: string
  defines "x \<equiv> dropWhile (\<lambda>c. c = slash) p" 
  defines "c \<equiv> takeWhile (\<lambda>c. c \<noteq> slash) x" and "r \<equiv> dropWhile (\<lambda>c. c \<noteq> slash) x"
  assumes "x \<noteq> []"
  shows "c \<noteq> []" "slash \<notin> set c" "length c + length r = length x" "length x \<le> length p"
proof -
  obtain a y where x: "x = a # y" using assms(4) by (cases x) auto
  then have "a \<noteq> slash" unfolding x_def by (simp add: dropWhile_eq_Cons_conv)
  then show "c \<noteq> []" by (simp add: c_def x)
  show "slash \<notin> set c" unfolding c_def using set_takeWhileD [of slash "\<lambda>c. c \<noteq> slash" x] by auto
  have "c @ r = x" unfolding c_def r_def by (rule takeWhile_dropWhile_id)
  then show "length c + length r = length x" by (metis length_append)
  show "length x \<le> length p" unfolding x_def by (rule length_dropWhile_le)
qed

lemma normalize_plain:
  assumes "list_all plain cs" and "length cs \<le> 64"
  shows "list_all plain (normalize p cs) \<and> length (normalize p cs) \<le> 64
    \<and> length (path_of (normalize p cs)) \<le> length (path_of cs) + (if p = [] then 0 else length p + 1)"
  using assms
proof (induction p cs rule: normalize.induct)
  case (1 p cs)
  show ?case
  proof (cases "dropWhile (\<lambda>c. c = slash) p = []")
    case True
    then have "normalize p cs = cs" by (simp add: normalize.simps [of p])
    then show ?thesis using 1(2,3) by simp
  next
    case False
    define c r where "c = takeWhile (\<lambda>c. c \<noteq> slash) (dropWhile (\<lambda>c. c = slash) p)"
      and "r = dropWhile (\<lambda>c. c \<noteq> slash) (dropWhile (\<lambda>c. c = slash) p)"
    note f = component_facts [OF False, folded c_def r_def]
    note q = push_component_plain [OF 1(2,3) f(1,2)]
    have e: "normalize p cs = normalize (drop 1 r) (push_component c cs)"
      unfolding c_def r_def by (subst normalize.simps) (simp only: False if_False)
    define d where "d = (if drop 1 r = [] then 0 else length (drop 1 r) + 1)"
    have ih: "list_all plain (normalize p cs) \<and> length (normalize p cs) \<le> 64
      \<and> length (path_of (normalize p cs)) \<le> length (path_of (push_component c cs)) + d"
      unfolding e d_def using 1(1) [OF False, folded c_def r_def, OF q(1,2)] .
    have "d \<le> length r" unfolding d_def by (cases r) auto
    then have "length (path_of (normalize p cs)) \<le> length (path_of cs) + (length p + 1)"
      using ih q(3) f(3,4) by linarith
    moreover have "p \<noteq> []" using False by auto
    ultimately show ?thesis using ih by simp
  qed
qed

lemma normalize_slash: "normalize (slash # p) cs = normalize p cs"
  by (simp add: normalize.simps [of "slash # p"] normalize.simps [of p])

lemma normalize_length:
  assumes "p \<noteq> []" and "hd p = slash"
  shows "length (path_of (normalize p [])) \<le> length p"
proof -
  obtain q where p: "p = slash # q" using assms by (cases p) auto
  have "length (path_of (normalize q [])) \<le> (if q = [] then 0 else length q + 1)"
    using normalize_plain [of "[]" q] by simp
  then show ?thesis unfolding p normalize_slash by (simp split: if_splits)
qed

lemma normalize_join:
  assumes "list_all plain (c # ds)" and "length (cs @ c # ds) \<le> 64"
  shows "normalize (c @ path_of ds) cs = cs @ c # ds"
  using assms
proof (induction ds arbitrary: c cs)
  case Nil
  obtain a x where c: "c = a # x" using Nil by (cases c) (auto simp: plain_def)
  have ns: "\<And>y. y \<in> set c \<Longrightarrow> y \<noteq> slash" using Nil by (auto simp: plain_def)
  then have d: "dropWhile (\<lambda>y. y = slash) c = c" by (simp add: c)
  have t: "takeWhile (\<lambda>y. y \<noteq> slash) c = c" "dropWhile (\<lambda>y. y \<noteq> slash) c = []" using ns by (simp_all add: takeWhile_eq_all_conv dropWhile_eq_Nil_conv)
  have u: "push_component c cs = cs @ [c]" using Nil by (simp add: push_component_def plain_def)
  have "normalize c cs = normalize [] (cs @ [c])" unfolding normalize.simps [of c] d t u by (simp add: c)
  then show ?case by (simp add: normalize.simps [of "[]"])
next
  case (Cons e ds)
  let ?p = "c @ path_of (e # ds)"
  obtain a x where c: "c = a # x" using Cons.prems by (cases c) (auto simp: plain_def)
  have ns: "\<And>y. y \<in> set c \<Longrightarrow> y \<noteq> slash" using Cons.prems by (auto simp: plain_def)
  then have d: "dropWhile (\<lambda>y. y = slash) ?p = ?p" by (simp add: c)
  have t: "takeWhile (\<lambda>y. y \<noteq> slash) ?p = c" "dropWhile (\<lambda>y. y \<noteq> slash) ?p = path_of (e # ds)"
    using ns by (simp_all add: takeWhile_append dropWhile_append)
  have u: "push_component c cs = cs @ [c]" using Cons.prems by (simp add: push_component_def plain_def)
  have "normalize ?p cs = normalize (e @ path_of ds) (cs @ [c])"
    unfolding normalize.simps [of ?p] d t u by (simp add: c)
  also have "\<dots> = (cs @ [c]) @ e # ds" using Cons.prems by (intro Cons.IH) simp_all
  finally show ?case by simp
qed

lemma assemble_path:
  assumes "length (path_of cs) \<le> 255"
  shows "assemble 256 cs = (if cs = [] then ''/'' else path_of cs)"
proof -
  have f: "foldl (append_component 256 False) out ds = out @ path_of ds" if "length out + length (path_of ds) \<le> 255" for out ds
    using that
  proof (induction ds arbitrary: out)
    case (Cons d ds)
    then have "append_component 256 False out d = out @ slash # d" by (simp add: append_component_def)
    then show ?case using Cons.IH [of "out @ slash # d"] Cons.prems by simp
  qed simp
  show ?thesis
  proof (cases cs)
    case (Cons c ds)
    then have "append_component 256 True ''/'' c = slash # c" using assms by (simp add: append_component_def)
    then show ?thesis using assms f [of "slash # c" ds] Cons by (simp add: assemble_def)
  qed (simp add: assemble_def)
qed

lemma join_cwd_abs:
  assumes "dir \<noteq> []" and "hd dir = slash"
  shows "join_cwd dir input \<noteq> []" "hd (join_cwd dir input) = slash" "length (join_cwd dir input) \<le> 255"
  using assms by (auto simp: join_cwd_def strncat_safe_def Let_def hd_append take_eq_Nil neq_Nil_conv)

lemma resolve_abs_path:
  assumes "dir \<noteq> []" and "hd dir = slash"
  obtains cs where "list_all plain cs" "length cs \<le> 64" "length (path_of cs) \<le> 255"
    "resolve_abs dir input 256 = (if cs = [] then ''/'' else path_of cs)"
proof
  let ?cs = "normalize (join_cwd dir input) []"
  note j = join_cwd_abs [OF assms, of input]
  show "list_all plain ?cs" "length ?cs \<le> 64" using normalize_plain [of "[]" "join_cwd dir input"] by simp_all
  show l: "length (path_of ?cs) \<le> 255" using normalize_length [OF j(1,2)] j(3) by linarith
  show "resolve_abs dir input 256 = (if ?cs = [] then ''/'' else path_of ?cs)"
    unfolding resolve_abs_def by (rule assemble_path [OF l])
qed

text \<open>C28: resolving a path.  From an absolute current directory, whatever the user typed, the resolved path is a slash, or a slash before each of at
  most 64 components, none of them empty, \<open>.\<close>, \<open>..\<close> or with a slash inside; it fits the buffer of 256 bytes; and resolving it
  again, from any directory, gives the same path.\<close>

theorem resolve_abs_normal:
  assumes "dir \<noteq> []" and "hd dir = slash"
  shows "(\<exists>cs. list_all plain cs \<and> length cs \<le> 64 \<and> resolve_abs dir input 256 = (if cs = [] then ''/'' else path_of cs))
    \<and> length (resolve_abs dir input 256) < 256
    \<and> resolve_abs dir' (resolve_abs dir input 256) 256 = resolve_abs dir input 256"
proof -
  obtain cs where cs: "list_all plain cs" "length cs \<le> 64" "length (path_of cs) \<le> 255"
      "resolve_abs dir input 256 = (if cs = [] then ''/'' else path_of cs)"
    using resolve_abs_path [OF assms] .
  have "normalize (path_of cs) [] = cs"
  proof (cases cs)
    case Nil
    then show ?thesis by (simp add: normalize.simps [of "[]"])
  next
    case (Cons c ds)
    then show ?thesis using normalize_join [of c ds "[]"] cs by (simp add: normalize_slash)
  qed
  moreover have "join_cwd dir' (resolve_abs dir input 256) = resolve_abs dir input 256"
    using cs(3,4) by (cases cs) (simp_all add: join_cwd_def)
  moreover have "normalize ''/'' [] = []" by (simp add: normalize.simps [of "''/''"])
  ultimately have "resolve_abs dir' (resolve_abs dir input 256) 256 = resolve_abs dir input 256"
    using cs assemble_path [OF cs(3)] by (cases "cs = []") (simp_all add: resolve_abs_def)
  then show ?thesis using cs by auto
qed

theorem resolve_abs_normal_witness:
  "resolve_abs ''/home/user'' ''../bin/./ls'' 256 = ''/home/bin/ls'' \<and> resolve_abs ''/'' (resolve_abs ''/home/user'' ''../bin/./ls'' 256) 256 = ''/home/bin/ls''"
proof -
  have e: "resolve_abs ''/home/user'' ''../bin/./ls'' 256 = ''/home/bin/ls''" by code_simp
  then show ?thesis using resolve_abs_normal [of "''/home/user''" "''../bin/./ls''" "''/''"] by simp
qed

section \<open>Counting words\<close>

definition blank :: "u8 \<Rightarrow> bool" where
  "blank c \<longleftrightarrow> c = 32 \<or> c = 9 \<or> c = 10"

text \<open>A word begins where a character that is not blank has none before it, or a blank one.\<close>

definition word_starts :: "u8 list \<Rightarrow> nat set" where
  "word_starts cs = {i. i < length cs \<and> \<not> blank (cs ! i) \<and> (i = 0 \<or> blank (cs ! (i - 1)))}"

lemma word_starts_snoc:
  "word_starts (cs @ [c]) = word_starts cs \<union> (if \<not> blank c \<and> (cs = [] \<or> blank (last cs)) then {length cs} else {})"
proof (cases "cs = []")
  case True
  then show ?thesis by (auto simp: word_starts_def)
next
  case False
  then show ?thesis
    by (auto simp: word_starts_def nth_append last_conv_nth [OF False] less_Suc_eq split: if_splits)
qed

text \<open>C32: the counts of \<open>wc\<close>: the newlines, the places where a word begins, and the bytes.\<close>

theorem wc_correct:
  "wc_bytes cs = \<lparr>w_lines = int (count_list cs 10), w_words = int (card (word_starts cs)), w_bytes = int (length cs),
     in_word = (cs \<noteq> [] \<and> \<not> blank (last cs))\<rparr>"
proof (induction cs rule: rev_induct)
  case Nil
  then show ?case by (simp add: wc_bytes_def word_starts_def)
next
  case (snoc c cs)
  have f: "finite (word_starts cs)" "length cs \<notin> word_starts cs" by (simp_all add: word_starts_def)
  have "wc_bytes (cs @ [c]) = wc_step c (wc_bytes cs)" by (simp add: wc_bytes_def)
  then show ?case unfolding snoc word_starts_snoc using f
    by (auto simp: wc_step_def Let_def blank_def)
qed

section \<open>Reading a whole file\<close>

lemma buffer_append: "buffer p (i + j) m = buffer p i m @ buffer (p + of_nat i) j m"
  by (induction j) (simp_all add: buffer_def add.assoc)

lemma buffer_cong: "(\<And>i. i < n \<Longrightarrow> m (p + of_nat i) = m' (q + of_nat i)) \<Longrightarrow> buffer p n m = buffer q n m'"
  by (simp add: buffer_def)

lemma vfs_read_file:
  fixes s :: "'a vfs_scheme" and fd :: int and n :: u64 and vn :: VNode
  defines "d \<equiv> fds s ! nat fd"
  assumes ok: "\<not> bad_fd fd s" and vn: "vn = vnode s (fvnode d)" "vdata vn \<noteq> NULL" and off: "foffset d \<le> vsize vn" 
    and apart: "\<And>x. within buf (unat n) x \<Longrightarrow> \<not> within (vdata vn) (unat (vsize vn)) x"
  defines "k \<equiv> min (unat n) (unat (vsize vn) - unat (foffset d))"
  shows "\<exists>s'. vfs_read fd buf n s = (int k, s') \<and> buffer buf k (memory s') = buffer (vdata vn + foffset d) k (memory s)
    \<and> (\<forall>x. within (vdata vn) (unat (vsize vn)) x \<longrightarrow> memory s' x = memory s x)
    \<and> (\<exists>m. s' = s\<lparr>memory := m, fds := (fds s)[nat fd := d\<lparr>foffset := foffset d + of_nat k\<rparr>]\<rparr>)"
proof -
  have o: "unat (foffset d) \<le> unat (vsize vn)" using off by (simp add: word_le_nat_alt)
  define av where "av = (if foffset d < vsize vn then vsize vn - foffset d else 0)"
  have uav: "unat av = unat (vsize vn) - unat (foffset d)" using o by (auto simp: av_def word_less_nat_alt unat_sub_if')
  define c where "c = (if av < n then av else n)"
  have uc: "unat c = k" by (auto simp: c_def k_def uav [symmetric] word_less_nat_alt)
  then have ck: "c = of_nat k" by (metis unat_of_nat_u64 unat_lt_u64 word_unat_eq_iff)
  let ?src = "vdata vn + foffset d"
  let ?s = "s\<lparr>memory := memcpy (memory s) buf ?src c, fds := (fds s)[nat fd := d\<lparr>foffset := foffset d + c\<rparr>]\<rparr>"
  have r: "vfs_read fd buf n s = (int (unat c), ?s)"
    unfolding vfs_read_def using ok vn by (simp add: d_def Let_def av_def c_def)
  have src: "within (vdata vn) (unat (vsize vn)) x" if w: "within ?src k x" for x
  proof -
    obtain i where i: "i < k" "x = ?src + of_nat i" using within_ex [OF w] by blast
    have l: "unat (foffset d) + i < unat (vsize vn)" using i(1) unfolding k_def by linarith
    then have "unat (foffset d + of_nat i) = unat (foffset d) + i"
      by (intro unat_offset) (rule order_less_trans [OF _ unat_lt_u64])
    then show ?thesis using l i(2) by (simp add: within_def add.assoc)
  qed
  have dst: "within buf (unat n) x" if "within buf k x" for x using that by (simp add: within_def k_def)
  have m: "memcpy (memory s) buf ?src c x = (if within buf k x then memory s (?src + (x - buf)) else memory s x)" for x
    using uc src dst apart by (intro memcpy_apart) blast+
  have kl: "k < 2 ^ 64" using uc unat_lt_u64 [of c] by simp
  have "buffer buf k (memory ?s) = buffer ?src k (memory s)"
  proof (rule buffer_cong)
    fix i assume "i < k"
    then show "memory ?s (buf + of_nat i) = memory s (?src + of_nat i)" using kl by (simp add: m within_offset)
  qed
  moreover have "\<forall>x. within (vdata vn) (unat (vsize vn)) x \<longrightarrow> memory ?s x = memory s x" using dst apart by (auto simp: m)
  ultimately show ?thesis using r [unfolded uc] ck by (intro exI [of _ ?s]) auto
qed

lemma chunks_file:
  fixes s :: "'a vfs_scheme"
  assumes "\<not> bad_fd fd s" and "nat fd < length (fds s)" and "vn = vnode s (fvnode (fds s ! nat fd))" and "vdata vn \<noteq> NULL"
    and "foffset (fds s ! nat fd) \<le> vsize vn" and n: "n \<noteq> 0"
    and apart: "\<And>x. within buf (unat n) x \<Longrightarrow> \<not> within (vdata vn) (unat (vsize vn)) x"
  shows "\<exists>cs s'. chunks fd buf n s = Some (cs, s')
    \<and> concat cs = buffer (vdata vn + foffset (fds s ! nat fd)) (unat (vsize vn) - unat (foffset (fds s ! nat fd))) (memory s)
    \<and> (\<exists>m. s' = s\<lparr>memory := m, fds := (fds s)[nat fd := (fds s ! nat fd)\<lparr>foffset := vsize vn\<rparr>]\<rparr>)"
  using assms(1-5)
proof (induction "unat (vsize vn) - unat (foffset (fds s ! nat fd))" arbitrary: s rule: less_induct)
  case less
  let ?d = "fds s ! nat fd"
  define k where "k = min (unat n) (unat (vsize vn) - unat (foffset ?d))"
  obtain s1 m1 where r: "vfs_read fd buf n s = (int k, s1)" "buffer buf k (memory s1) = buffer (vdata vn + foffset ?d) k (memory s)"
      and keep: "\<forall>x. within (vdata vn) (unat (vsize vn)) x \<longrightarrow> memory s1 x = memory s x"
      and s1: "s1 = s\<lparr>memory := m1, fds := (fds s)[nat fd := ?d\<lparr>foffset := foffset ?d + of_nat k\<rparr>]\<rparr>"
    using vfs_read_file [OF less.prems(1,3,4,5) apart] unfolding k_def by blast
  have o: "unat (foffset ?d) \<le> unat (vsize vn)" using less.prems(5) by (simp add: word_le_nat_alt)
  have un: "0 < unat n" using n by (simp add: unat_gt_0)
  have kle: "unat (foffset ?d) + k \<le> unat (vsize vn)" using o unfolding k_def by linarith
  show ?case
  proof (cases "k = 0")
    case True
    then have e: "foffset ?d = vsize vn" using o un by (simp add: k_def word_unat_eq_iff min_def split: if_splits)
    have "chunks fd buf n s = Some ([], s1)" using r(1) True by (simp add: chunks.simps [of fd buf n s])
    moreover have "s1 = s\<lparr>memory := m1, fds := (fds s)[nat fd := ?d\<lparr>foffset := vsize vn\<rparr>]\<rparr>" using s1 True e by simp
    ultimately show ?thesis using e by (intro exI [of _ "[]"] exI [of _ s1]) (auto simp: buffer_def)
  next
    case False
    have uo: "unat (foffset ?d + of_nat k) = unat (foffset ?d) + k"
      by (rule unat_offset) (rule order_le_less_trans [OF kle unat_lt_u64])
    have f1: "fds s1 ! nat fd = ?d\<lparr>foffset := foffset ?d + of_nat k\<rparr>" "length (fds s1) = length (fds s)" "vnodes s1 = vnodes s"
      by (subst s1, simp add: less.prems(2))+
    have 1: "unat (vsize vn) - unat (foffset (fds s1 ! nat fd)) < unat (vsize vn) - unat (foffset ?d)"
      using f1(1) uo False kle by simp
    have 2: "\<not> bad_fd fd s1" using less.prems(1) f1 by (simp add: bad_fd_def)
    have 3: "nat fd < length (fds s1)" "vn = vnode s1 (fvnode (fds s1 ! nat fd))" using less.prems(2,3) f1 by simp_all
    have 4: "foffset (fds s1 ! nat fd) \<le> vsize vn" using f1(1) uo kle by (simp add: word_le_nat_alt)
    obtain cs s' m' where ih: "chunks fd buf n s1 = Some (cs, s')"
        "concat cs = buffer (vdata vn + foffset (fds s1 ! nat fd)) (unat (vsize vn) - unat (foffset (fds s1 ! nat fd))) (memory s1)"
        "s' = s1\<lparr>memory := m', fds := (fds s1)[nat fd := (fds s1 ! nat fd)\<lparr>foffset := vsize vn\<rparr>]\<rparr>"
      using less.hyps [OF 1 2 3 less.prems(4) 4] by blast
    have c: "chunks fd buf n s = Some (buffer buf k (memory s1) # cs, s')" using r(1) ih(1) False by (simp add: chunks.simps [of fd buf n s])
    let ?j = "unat (vsize vn) - unat (foffset ?d)"
    have "buffer (vdata vn + foffset ?d + of_nat k) (?j - k) (memory s1) = buffer (vdata vn + foffset ?d + of_nat k) (?j - k) (memory s)"
    proof (rule buffer_cong)
      fix i assume "i < ?j - k"
      then have l: "unat (foffset ?d) + (k + i) < unat (vsize vn)" by linarith
      then have "unat (foffset ?d + of_nat (k + i)) = unat (foffset ?d) + (k + i)"
        by (intro unat_offset) (rule order_less_trans [OF _ unat_lt_u64])
      then have "within (vdata vn) (unat (vsize vn)) (vdata vn + (foffset ?d + of_nat (k + i)))" using l by (simp add: within_def)
      then show "memory s1 (vdata vn + foffset ?d + of_nat k + of_nat i) = memory s (vdata vn + foffset ?d + of_nat k + of_nat i)"
        using keep by (simp add: add.assoc)
    qed
    moreover have "concat cs = buffer (vdata vn + foffset ?d + of_nat k) (?j - k) (memory s1)" using ih(2) f1(1) uo by (simp add: add.assoc)
    moreover have "?j = k + (?j - k)" using kle by linarith
    ultimately have "concat (buffer buf k (memory s1) # cs) = buffer (vdata vn + foffset ?d) ?j (memory s)"
      using r(2) buffer_append [of "vdata vn + foffset ?d" k "?j - k" "memory s"] by simp
    moreover have "s' = s\<lparr>memory := m', fds := (fds s)[nat fd := ?d\<lparr>foffset := vsize vn\<rparr>]\<rparr>"
      unfolding ih(3) s1 using less.prems(2) by simp
    ultimately show ?thesis using c by blast
  qed
qed

lemma print_newline: "print newline [] s = Some (puts [10] s)"
  by (simp add: print_def newline_def ascii_def)

lemma puts_screen [simp]: "screen (puts cs s) = screen s @ map Put cs" "fds (puts cs s) = fds s"
  by (simp_all add: puts_def show_ops_def)

lemma resolve_path_nodes: "vnodes s' = vnodes s \<Longrightarrow> resolve_path p s' = resolve_path p s"
  by (auto simp: resolve_path_def split: option.splits list.splits)

lemma open_free_file:
  fixes s :: "'a vfs_scheme"
  assumes "resolve_path path s = Some i" and "vtype (vnode s i) = VFS_FILE"
    and "List.find (\<lambda>k. \<not> fused (fds s ! k)) [0..<VFS_MAX_FD] = Some fd" and "length (fds s) = VFS_MAX_FD"
  shows "vfs_open path False s = Some (int fd, s\<lparr>fds := (fds s)[fd := \<lparr>fvnode = i, foffset = 0, fused = True\<rparr>]\<rparr>)"
    and "fd < VFS_MAX_FD" and "\<not> fused (fds s ! fd)"
proof -
  obtain j where j: "j < length [0..<VFS_MAX_FD]" "\<not> fused (fds s ! ([0..<VFS_MAX_FD] ! j))" "fd = [0..<VFS_MAX_FD] ! j"
    using assms(3) unfolding find_Some_iff by blast
  have l: "0 + j < VFS_MAX_FD" using j(1) unfolding length_upt by simp
  have e: "fd = j" unfolding j(3) nth_upt [OF l] by simp
  show fd: "fd < VFS_MAX_FD" using l e by simp
  show "\<not> fused (fds s ! fd)" using j(2) unfolding j(3) .
  have a: "alloc_fd s = Some (fd, s\<lparr>fds := (fds s)[fd := (fds s ! fd)\<lparr>fused := True, foffset := 0\<rparr>]\<rparr>)"
    unfolding alloc_fd_def assms(3) by simp
  define A where "A = (fds s ! fd)\<lparr>fused := True, foffset := 0\<rparr>"
  have A: "A\<lparr>fvnode := i, foffset := 0\<rparr> = \<lparr>fvnode = i, foffset = 0, fused = True\<rparr>" by (simp add: A_def)
  have lf: "fd < length (fds s)" using fd assms(4) by simp
  have "open_fd (Some i) s = (int fd, s\<lparr>fds := ((fds s)[fd := A])[fd := (((fds s)[fd := A]) ! fd)\<lparr>fvnode := i, foffset := 0\<rparr>]\<rparr>)"
    unfolding open_fd_def option.case a A_def [symmetric] using assms(2) by simp
  also have "\<dots> = (int fd, s\<lparr>fds := (fds s)[fd := \<lparr>fvnode = i, foffset = 0, fused = True\<rparr>]\<rparr>)"
    unfolding nth_list_update_eq [OF lf] list_update_overwrite A ..
  finally show "vfs_open path False s = Some (int fd, s\<lparr>fds := (fds s)[fd := \<lparr>fvnode = i, foffset = 0, fused = True\<rparr>]\<rparr>)"
    unfolding vfs_open_def assms(1) by simp
qed

lemma chunks_opened:
  fixes s :: "'a vfs_scheme"
  assumes "fd < VFS_MAX_FD" and "length (fds s) = VFS_MAX_FD" and "fds s ! fd = \<lparr>fvnode = i, foffset = 0, fused = True\<rparr>"
    and "vdata (vnode s i) \<noteq> NULL" and "n \<noteq> 0"
    and "\<And>x. within buf (unat n) x \<Longrightarrow> \<not> within (vdata (vnode s i)) (unat (vsize (vnode s i))) x"
  shows "\<exists>cs m. chunks (int fd) buf n s = Some (cs, s\<lparr>memory := m, fds := (fds s)[fd := \<lparr>fvnode = i, foffset = vsize (vnode s i), fused = True\<rparr>]\<rparr>)
    \<and> concat cs = buffer (vdata (vnode s i)) (unat (vsize (vnode s i))) (memory s)"
proof -
  have b: "\<not> bad_fd (int fd) s" using assms(1,3) by (simp add: bad_fd_def)
  show ?thesis
    using chunks_file [OF b _ refl _ _ assms(5), of buf] assms by auto
qed

lemma fold_puts: "screen (fold (\<lambda>c. puts (g c)) cs s) = screen s @ map Put (concat (map g cs))"
  "fds (fold (\<lambda>c. puts (g c)) cs s) = fds s"
  by (induction cs arbitrary: s) simp_all

lemma takeWhile_nonzero: "(0 :: u8) \<notin> set (concat cs) \<Longrightarrow> map (takeWhile (\<lambda>b. b \<noteq> 0)) cs = cs"
  by (induction cs) (auto simp: takeWhile_eq_all_conv)

text \<open>C31: \<open>cat\<close> prints the file.  When the path names a file without zero bytes and a descriptor is free, \<open>cat\<close> ends, having printed exactly
  the bytes of the file, read in pieces of 255, and a newline, and every descriptor is in use or free as before.\<close>

theorem cat_prints_file:
  fixes s :: "'a shell_scheme"
  assumes "arg \<noteq> []" and "resolve_path (Some (abs_path arg s)) s = Some i" and "vtype (vnode s i) = VFS_FILE" and "vdata (vnode s i) \<noteq> NULL"
    and "List.find (\<lambda>k. \<not> fused (fds s ! k)) [0..<VFS_MAX_FD] = Some fd" and "length (fds s) = VFS_MAX_FD"
    and "\<forall>x. within (stk s) 255 x \<longrightarrow> \<not> within (vdata (vnode s i)) (unat (vsize (vnode s i))) x"
    and "0 \<notin> set (buffer (vdata (vnode s i)) (unat (vsize (vnode s i))) (memory s))"
  shows "\<exists>s'. shell_cmd_cat arg s = Some s'
    \<and> screen s' = screen s @ map Put (buffer (vdata (vnode s i)) (unat (vsize (vnode s i))) (memory s) @ [10])
    \<and> (\<forall>k. fused (fds s' ! k) = fused (fds s ! k))"
proof -
  note o = open_free_file [OF assms(2,3,5,6)]
  let ?s1 = "s\<lparr>fds := (fds s)[fd := \<lparr>fvnode = i, foffset = 0, fused = True\<rparr>]\<rparr>"
  obtain cs m where c: "chunks (int fd) (stk s) 255 ?s1 = Some (cs, ?s1\<lparr>memory := m, fds := (fds ?s1)[fd := \<lparr>fvnode = i, foffset = vsize (vnode s i), fused = True\<rparr>]\<rparr>)"
      "concat cs = buffer (vdata (vnode s i)) (unat (vsize (vnode s i))) (memory s)"
    using chunks_opened [OF o(2), of ?s1 i 255 "stk s"] o(2) assms(4,6,7) by auto
  let ?s2 = "?s1\<lparr>memory := m, fds := (fds ?s1)[fd := \<lparr>fvnode = i, foffset = vsize (vnode s i), fused = True\<rparr>]\<rparr>"
  let ?s3 = "puts [10] (fold (\<lambda>c. puts (takeWhile (\<lambda>b. b \<noteq> 0) c)) cs ?s2)"
  have "shell_cmd_cat arg s = Some (snd (vfs_close (int fd) ?s3))"
    unfolding shell_cmd_cat_def using assms(1) o(1) c(1) by (simp add: Let_def print_newline)
  moreover have "screen ?s3 = screen s @ map Put (concat cs @ [10])"
    using takeWhile_nonzero [of cs] assms(8) c(2) by (simp add: fold_puts)
  moreover have f3: "fds ?s3 = (fds s)[fd := \<lparr>fvnode = i, foffset = vsize (vnode s i), fused = True\<rparr>]" by (simp add: fold_puts)
  moreover have "screen (snd (vfs_close (int fd) ?s3)) = screen ?s3" by (simp add: vfs_close_def)
  moreover have "fused (fds (snd (vfs_close (int fd) ?s3)) ! k) = fused (fds s ! k)" for k
    using f3 o(2,3) assms(6) by (cases "k = fd") (simp_all add: vfs_close_def bad_fd_def)
  ultimately show ?thesis using c(2) by auto
qed

lemma tail_chars_fds: "fds (snd (tail_chars skip cs cur s)) = fds s"
  by (induction cs arbitrary: cur s) simp_all

text \<open>\<open>tail\<close> loses a descriptor.  It opens the file a second time and never closes it: under the same conditions as \<open>cat\<close> it ends with the
  descriptor that was free in use.\<close>

theorem tail_leaks_descriptor:
  fixes s :: "'a shell_scheme"
  assumes "line_count args = (n, file)" and "file \<noteq> []" and "resolve_path (Some (abs_path file s)) s = Some i" and "vtype (vnode s i) = VFS_FILE"
    and "vdata (vnode s i) \<noteq> NULL"
    and "List.find (\<lambda>k. \<not> fused (fds s ! k)) [0..<VFS_MAX_FD] = Some fd" and "length (fds s) = VFS_MAX_FD"
    and "\<forall>x. within (stk s) 256 x \<longrightarrow> \<not> within (vdata (vnode s i)) (unat (vsize (vnode s i))) x"
  shows "\<exists>s'. shell_cmd_tail args s = Some s' \<and> \<not> fused (fds s ! fd) \<and> fused (fds s' ! fd)
    \<and> (\<forall>k. k \<noteq> fd \<longrightarrow> fused (fds s' ! k) = fused (fds s ! k))"
proof -
  note o = open_free_file [OF assms(3,4,6,7)]
  define d where "d = \<lparr>fvnode = i, foffset = vsize (vnode s i), fused = True\<rparr>"
  let ?s1 = "s\<lparr>fds := (fds s)[fd := \<lparr>fvnode = i, foffset = 0, fused = True\<rparr>]\<rparr>"
  obtain cs m where c: "chunks (int fd) (stk s) 256 ?s1 = Some (cs, ?s1\<lparr>memory := m, fds := (fds ?s1)[fd := d]\<rparr>)"
    using chunks_opened [OF o(2), of ?s1 i 256 "stk s"] o(2) assms(5,7,8) unfolding d_def by auto
  let ?s2 = "s\<lparr>memory := m, fds := (fds s)[fd := d]\<rparr>"
  let ?s3 = "s\<lparr>memory := m, fds := (fds s)[fd := d\<lparr>fused := False\<rparr>]\<rparr>"
  have cl: "snd (vfs_close (int fd) ?s2) = ?s3" using o(2) assms(7) by (simp add: vfs_close_def bad_fd_def d_def)
  have u: "fused (fds ?s3 ! k) = fused (fds s ! k)" for k
    using o(2,3) assms(7) by (cases "k = fd") (simp_all add: d_def)
  have f3: "List.find (\<lambda>k. \<not> fused (fds ?s3 ! k)) [0..<VFS_MAX_FD] = Some fd" unfolding u by (rule assms(6))
  have r3: "resolve_path (Some (abs_path file s)) ?s3 = Some i" using assms(3) resolve_path_nodes [of ?s3 s] by simp
  let ?s4 = "s\<lparr>memory := m, fds := (fds s)[fd := \<lparr>fvnode = i, foffset = 0, fused = True\<rparr>]\<rparr>"
  have o2: "vfs_open (Some (abs_path file s)) False ?s3 = Some (int fd, ?s4)"
    using open_free_file(1) [OF r3 _ f3] assms(4,7) by simp
  obtain cs' m' where c': "chunks (int fd) (stk s) 256 ?s4 = Some (cs', ?s4\<lparr>memory := m', fds := (fds ?s4)[fd := d]\<rparr>)"
    using chunks_opened [OF o(2), of ?s4 i 256 "stk s"] o(2) assms(5,7,8) unfolding d_def by auto
  let ?s5 = "s\<lparr>memory := m', fds := (fds s)[fd := d]\<rparr>"
  define nls where "nls = int (count_list (concat cs) 10)"
  define t where "t = tail_chars (if nls - n < 0 then 0 else nls - n) (concat cs') 0 ?s5"
  have "shell_cmd_tail args s = (if nls = 0 \<or> fst t = 0 then Some (puts [10] (snd t)) else Some (snd t))"
    unfolding shell_cmd_tail_def using assms(1,2) o(1) c cl o2 c'
    by (simp add: Let_def print_newline nls_def [symmetric] t_def case_prod_beta)
  moreover have "fds (snd t) = (fds s)[fd := d]" by (simp add: t_def tail_chars_fds)
  ultimately show ?thesis using o(2,3) assms(7) by (auto simp: d_def)
qed

definition sample_file :: shell where
  "sample_file = (sample_shell [] 0)\<lparr>vnodes := [zero_vnode\<lparr>vused := True, vtype := VFS_DIRECTORY, vparent := None, vname := ''/'', children := [1]\<rparr>,
       zero_vnode\<lparr>vused := True, vname := ''f'', vdata := 0x20000, vsize := 2, vcapacity := 0x4000\<rparr>],
     fds := replicate VFS_MAX_FD zero_fd, memory := (\<lambda>_. 0)(0x20000 := 104, 0x20001 := 105)\<rparr>"

lemma sample_file_facts:
  "resolve_path (Some (abs_path ''f'' sample_file)) sample_file = Some 1" "vtype (vnode sample_file 1) = VFS_FILE"
  "vdata (vnode sample_file 1) \<noteq> NULL" "List.find (\<lambda>k. \<not> fused (fds sample_file ! k)) [0..<VFS_MAX_FD] = Some 0"
  "length (fds sample_file) = VFS_MAX_FD"
  by code_simp+

lemma sample_file_apart: "\<forall>x. within (stk sample_file) 256 x \<longrightarrow> \<not> within (vdata (vnode sample_file 1)) (unat (vsize (vnode sample_file 1))) x"
  by (simp add: sample_file_def sample_shell_def user.defs zero_vnode_def within_iff)

theorem cat_prints_file_witness:
  "\<exists>s'. shell_cmd_cat ''f'' sample_file = Some s' \<and> screen s' = map Put [104, 105, 10]"
proof -
  have b: "buffer (vdata (vnode sample_file 1)) (unat (vsize (vnode sample_file 1))) (memory sample_file) = [104, 105]" by code_simp
  have ap: "\<forall>x. within (stk sample_file) 255 x \<longrightarrow> \<not> within (vdata (vnode sample_file 1)) (unat (vsize (vnode sample_file 1))) x"
    using sample_file_apart by (auto simp: within_def)
  have "screen sample_file = []" by (simp add: sample_file_def sample_shell_def user.defs)
  then show ?thesis using cat_prints_file [OF _ sample_file_facts ap] b by auto
qed

theorem tail_leaks_descriptor_witness:
  "\<exists>s'. shell_cmd_tail ''f'' sample_file = Some s' \<and> \<not> fused (fds sample_file ! 0) \<and> fused (fds s' ! 0)"
proof -
  have "line_count ''f'' = (10, ''f'')" by (simp add: line_count_def)
  then show ?thesis using tail_leaks_descriptor [OF _ _ sample_file_facts sample_file_apart, of "''f''"] by blast
qed

end
