(* ===== verification/Ata.thy ===== *)
theory Ata
  imports CString Bytes
begin

text \<open>
  The disk driver \<open>kernel/drivers/ata.c\<close>, and the serial port \<open>kernel/serial.c\<close>.  The device behind the ports is an argument: what a read of
  a port returns and what reads and writes do to the device's state.  What the driver relies on is stated as
  \<open>follows_protocol\<close>: an idle drive takes its registers; after the read command the words of the sectors are ready one sector at a
  time, each within a bounded number of status reads, with the busy bit set until then; reading the data port takes one word, and after the
  last one the drive is idle.  The messages \<open>ata_init\<close> prints are left out; a string for the serial port is the list of its bytes before
  the terminator.

  The lemmas: a read from such a drive ends, puts the bytes of the sectors into memory and leaves the drive ready for the next; the sector number
  is used modulo \<open>2 ^ 28\<close>; a count of 0 reads 256 sectors; any sequence of reads is answered like the function the FAT32 reader takes as its
  disk.  A string written to the serial port arrives with each newline preceded by a carriage return.
\<close>

unbundle bit_operations_syntax

section \<open>Ports\<close>

record 'd ports =
  inb :: "u16 \<Rightarrow> 'd \<Rightarrow> u8 \<times> 'd"
  inw :: "u16 \<Rightarrow> 'd \<Rightarrow> u16 \<times> 'd"
  outb :: "u16 \<Rightarrow> u8 \<Rightarrow> 'd \<Rightarrow> 'd"

abbreviation (input) ATA_PRIMARY_IO :: u16 where "ATA_PRIMARY_IO \<equiv> 0x1F0"
abbreviation (input) ATA_PRIMARY_CTRL :: u16 where "ATA_PRIMARY_CTRL \<equiv> 0x3F6"
abbreviation (input) DATA :: u16 where "DATA \<equiv> ATA_PRIMARY_IO + 0"
abbreviation (input) SECCOUNT :: u16 where "SECCOUNT \<equiv> ATA_PRIMARY_IO + 2"
abbreviation (input) LBA_LO :: u16 where "LBA_LO \<equiv> ATA_PRIMARY_IO + 3"
abbreviation (input) LBA_MID :: u16 where "LBA_MID \<equiv> ATA_PRIMARY_IO + 4"
abbreviation (input) LBA_HI :: u16 where "LBA_HI \<equiv> ATA_PRIMARY_IO + 5"
abbreviation (input) DRIVE :: u16 where "DRIVE \<equiv> ATA_PRIMARY_IO + 6"
abbreviation (input) STATUS :: u16 where "STATUS \<equiv> ATA_PRIMARY_IO + 7"
abbreviation (input) COMMAND :: u16 where "COMMAND \<equiv> ATA_PRIMARY_IO + 7"
abbreviation (input) ATA_SR_BSY :: u8 where "ATA_SR_BSY \<equiv> 0x80"
abbreviation (input) ATA_SR_DRQ :: u8 where "ATA_SR_DRQ \<equiv> 0x08"
abbreviation (input) ATA_SR_ERR :: u8 where "ATA_SR_ERR \<equiv> 0x01"
abbreviation (input) ATA_CMD_READ_PIO :: u8 where "ATA_CMD_READ_PIO \<equiv> 0x20"
abbreviation (input) ATA_CMD_IDENTIFY :: u8 where "ATA_CMD_IDENTIFY \<equiv> 0xEC"

section \<open>The driver\<close>

primrec wait_loop :: "'d ports \<Rightarrow> nat \<Rightarrow> 'd \<Rightarrow> 'd" where
  "wait_loop p 0 d = d"
| "wait_loop p (Suc n) d =
     (let (st, d) = inb p STATUS d in if st AND ATA_SR_BSY = 0 then d else wait_loop p n d)"

definition ata_wait_bsy :: "'d ports \<Rightarrow> 'd \<Rightarrow> 'd" where
  "ata_wait_bsy p d = wait_loop p 100000 d"

definition skip_status :: "'d ports \<Rightarrow> u16 \<Rightarrow> 'd \<Rightarrow> 'd" where
  "skip_status p port d = ((\<lambda>d. snd (inb p port d)) ^^ 4) d"

definition ata_poll :: "'d ports \<Rightarrow> 'd \<Rightarrow> int \<times> 'd" where
  "ata_poll p d =
     (let d = ata_wait_bsy p (skip_status p STATUS d);
          (st, d) = inb p STATUS d
      in if st AND ATA_SR_ERR \<noteq> 0 then (-1, d)
         else if st AND ATA_SR_DRQ = 0 then (-1, d)
         else (0, d))"

definition drive_select :: "int \<Rightarrow> u8" where
  "drive_select drive = (if drive = 0 then 0xE0 else 0xF0)"

text \<open>The wait for data in \<open>ata_identify\<close>: an error or a time-out is \<open>False\<close>.\<close>

primrec wait_drq :: "'d ports \<Rightarrow> nat \<Rightarrow> 'd \<Rightarrow> bool \<times> 'd" where
  "wait_drq p 0 d = (False, d)"
| "wait_drq p (Suc n) d =
     (let (st, d) = inb p STATUS d
      in if st AND ATA_SR_ERR \<noteq> 0 then (False, d)
         else if st AND ATA_SR_DRQ \<noteq> 0 then (True, d)
         else wait_drq p n d)"

definition ata_identify :: "'d ports \<Rightarrow> int \<Rightarrow> 'd \<Rightarrow> bool \<times> 'd" where
  "ata_identify p drive d =
     (let d = outb p DRIVE (drive_select drive) d;
          d = skip_status p STATUS d;
          d = outb p SECCOUNT 0 d; d = outb p LBA_LO 0 d; d = outb p LBA_MID 0 d; d = outb p LBA_HI 0 d;
          d = outb p COMMAND ATA_CMD_IDENTIFY d;
          (st, d) = inb p STATUS d
      in if st = 0 then (False, d)
         else
           let d = ata_wait_bsy p d;
               (mid, d) = inb p LBA_MID d
           in if mid \<noteq> 0 then (False, d)
              else
                let (hi, d) = inb p LBA_HI d
                in if hi \<noteq> 0 then (False, d)
                   else
                     let (ok, d) = wait_drq p 100000 d
                     in if \<not> ok then (False, d)
                        else (True, ((\<lambda>d. snd (inw p DATA d)) ^^ 256) d))"

record 'd ata =
  drive_present :: "bool list"
  dev :: 'd

definition ata_init :: "'d ports \<Rightarrow> 'd ata \<Rightarrow> 'd ata" where
  "ata_init p s =
     (let (st, d) = inb p STATUS (dev s)
      in if st = 0xFF then s\<lparr>dev := d\<rparr>
         else
           let d = outb p ATA_PRIMARY_CTRL 0x04 d;
               d = skip_status p ATA_PRIMARY_CTRL d;
               d = outb p ATA_PRIMARY_CTRL 0x00 d;
               d = wait_loop p 100000 d;
               (m, d) = ata_identify p 0 d;
               (sl, d) = ata_identify p 1 d
           in s\<lparr>dev := d, drive_present := [m, sl]\<rparr>)"

definition ata_drive_present :: "int \<Rightarrow> 'd ata \<Rightarrow> bool" where
  "ata_drive_present drive s = (if drive < 0 \<or> 1 < drive then False else drive_present s ! nat drive)"

text \<open>A sector: 256 words from the data port, stored one behind the other.\<close>

primrec read_words :: "'d ports \<Rightarrow> nat \<Rightarrow> ptr \<Rightarrow> mem \<Rightarrow> 'd \<Rightarrow> mem \<times> 'd" where
  "read_words p 0 a m d = (m, d)"
| "read_words p (Suc n) a m d = (let (w, d) = inw p DATA d in read_words p n (a + 2) (st16 m a w) d)"

primrec read_loop :: "'d ports \<Rightarrow> nat \<Rightarrow> ptr \<Rightarrow> mem \<Rightarrow> 'd \<Rightarrow> int \<times> mem \<times> 'd" where
  "read_loop p 0 a m d = (0, m, d)"
| "read_loop p (Suc n) a m d =
     (let (r, d) = ata_poll p d
      in if r < 0 then (-1, m, d)
         else let (m, d) = read_words p 256 a m d in read_loop p n (a + 512) m d)"

definition select_sectors :: "'d ports \<Rightarrow> int \<Rightarrow> u32 \<Rightarrow> u8 \<Rightarrow> 'd \<Rightarrow> 'd" where
  "select_sectors p drive lba count d =
     (let d = ata_wait_bsy p d;
          d = outb p DRIVE (drive_select drive OR ucast (drop_bit 24 lba AND 0x0F)) d;
          d = outb p SECCOUNT count d;
          d = outb p LBA_LO (ucast lba) d;
          d = outb p LBA_MID (ucast (drop_bit 8 lba)) d;
          d = outb p LBA_HI (ucast (drop_bit 16 lba)) d
      in outb p COMMAND ATA_CMD_READ_PIO d)"

definition ata_read_sectors :: "'d ports \<Rightarrow> int \<Rightarrow> u32 \<Rightarrow> u8 \<Rightarrow> ptr \<Rightarrow> mem \<Rightarrow> 'd ata \<Rightarrow> int \<times> mem \<times> 'd ata" where
  "ata_read_sectors p drive lba count buf m s =
     (if drive < 0 \<or> 1 < drive \<or> \<not> drive_present s ! nat drive then (-1, m, s)
      else
        let d = select_sectors p drive lba count (dev s);
            sectors = (if count = 0 then 256 else unat count);
            (r, m, d) = read_loop p sectors buf m d
        in (r, m, s\<lparr>dev := d\<rparr>))"

section \<open>A drive that follows the protocol\<close>

text \<open>
  \<open>idle regs\<close>: the drive waits for a command, with the given register contents.  \<open>preparing k ws\<close>: it will offer the next sector of the words
  \<open>ws\<close> after at most \<open>k\<close> more reads of the status.  \<open>sending j ws\<close>: \<open>j\<close> words of the sector remain to be read.
\<close>

datatype phase = Idle "u16 \<Rightarrow> u8" | Preparing nat "u16 list" | Sending nat "u16 list"

definition read_request :: "(u16 \<Rightarrow> u8) \<Rightarrow> bool \<times> nat \<times> nat" where
  "read_request r =
     (r DRIVE AND 0x10 \<noteq> 0,
      unat (r LBA_LO) + 256 * unat (r LBA_MID) + 65536 * unat (r LBA_HI) + 16777216 * unat (r DRIVE AND 0x0F),
      if r SECCOUNT = 0 then 256 else unat (r SECCOUNT))"

definition sector_words :: "(bool \<Rightarrow> nat \<Rightarrow> u16 list) \<Rightarrow> bool \<times> nat \<times> nat \<Rightarrow> u16 list" where
  "sector_words disk q = (case q of (slave, lba, n) \<Rightarrow> concat (map (disk slave) [lba..<lba + n]))"

definition offers :: "u16 list \<Rightarrow> phase \<Rightarrow> bool" where
  "offers ws f \<longleftrightarrow> (case f of Idle r \<Rightarrow> ws = [] | Preparing k vs \<Rightarrow> ws \<noteq> [] \<and> vs = ws \<and> k \<le> 1000 | Sending j vs \<Rightarrow> False)"

definition follows_protocol :: "'d ports \<Rightarrow> (bool \<Rightarrow> nat \<Rightarrow> u16 list) \<Rightarrow> ('d \<Rightarrow> phase) \<Rightarrow> bool" where
  "follows_protocol p disk ph \<longleftrightarrow>
     (\<forall>d r. ph d = Idle r \<longrightarrow>
        fst (inb p STATUS d) AND ATA_SR_BSY = 0 \<and> ph (snd (inb p STATUS d)) = Idle r
        \<and> (\<forall>port \<in> {DRIVE, SECCOUNT, LBA_LO, LBA_MID, LBA_HI}. \<forall>v. ph (outb p port v d) = Idle (r(port := v)))
        \<and> offers (sector_words disk (read_request r)) (ph (outb p COMMAND ATA_CMD_READ_PIO d)))
   \<and> (\<forall>d k ws. ph d = Preparing (Suc k) ws \<longrightarrow>
        fst (inb p STATUS d) AND ATA_SR_BSY \<noteq> 0 \<and> ph (snd (inb p STATUS d)) = Preparing k ws)
   \<and> (\<forall>d ws. ph d = Preparing 0 ws \<and> ws \<noteq> [] \<longrightarrow>
        fst (inb p STATUS d) AND (ATA_SR_BSY OR ATA_SR_ERR OR ATA_SR_DRQ) = ATA_SR_DRQ
        \<and> ph (snd (inb p STATUS d)) = Preparing 0 ws
        \<and> fst (inw p DATA d) = hd ws \<and> ph (snd (inw p DATA d)) = Sending 255 (tl ws))
   \<and> (\<forall>d j ws. ph d = Sending (Suc j) ws \<and> ws \<noteq> [] \<longrightarrow>
        fst (inw p DATA d) = hd ws
        \<and> (if 0 < j then ph (snd (inw p DATA d)) = Sending j (tl ws)
           else offers (tl ws) (ph (snd (inw p DATA d)))))"

lemma protocol_idle:
  assumes "follows_protocol p disk ph" and "ph d = Idle r"
  shows "fst (inb p STATUS d) AND ATA_SR_BSY = 0" "ph (snd (inb p STATUS d)) = Idle r"
    "ph (outb p DRIVE v d) = Idle (r(DRIVE := v))" "ph (outb p SECCOUNT v d) = Idle (r(SECCOUNT := v))"
    "ph (outb p LBA_LO v d) = Idle (r(LBA_LO := v))" "ph (outb p LBA_MID v d) = Idle (r(LBA_MID := v))"
    "ph (outb p LBA_HI v d) = Idle (r(LBA_HI := v))"
    "offers (sector_words disk (read_request r)) (ph (outb p COMMAND ATA_CMD_READ_PIO d))"
  using assms unfolding follows_protocol_def by blast+

lemma protocol_busy:
  assumes "follows_protocol p disk ph" and "ph d = Preparing (Suc k) ws"
  shows "fst (inb p STATUS d) AND ATA_SR_BSY \<noteq> 0" "ph (snd (inb p STATUS d)) = Preparing k ws"
  using assms unfolding follows_protocol_def by blast+

lemma protocol_ready:
  assumes "follows_protocol p disk ph" and "ph d = Preparing 0 ws" and "ws \<noteq> []"
  shows "fst (inb p STATUS d) AND 0x89 = 0x08" "ph (snd (inb p STATUS d)) = Preparing 0 ws"
    "fst (inw p DATA d) = hd ws" "ph (snd (inw p DATA d)) = Sending 255 (tl ws)"
proof -
  have m: "ATA_SR_BSY OR ATA_SR_ERR OR ATA_SR_DRQ = (0x89 :: u8)" by simp
  show "fst (inb p STATUS d) AND 0x89 = 0x08" "ph (snd (inb p STATUS d)) = Preparing 0 ws"
    "fst (inw p DATA d) = hd ws" "ph (snd (inw p DATA d)) = Sending 255 (tl ws)"
    using assms unfolding follows_protocol_def m by blast+
qed

lemma protocol_sending:
  assumes "follows_protocol p disk ph" and "ph d = Sending (Suc j) ws" and "ws \<noteq> []"
  shows "fst (inw p DATA d) = hd ws" "0 < j \<Longrightarrow> ph (snd (inw p DATA d)) = Sending j (tl ws)"
    "j = 0 \<Longrightarrow> offers (tl ws) (ph (snd (inw p DATA d)))"
proof -
  have "fst (inw p DATA d) = hd ws \<and> (if 0 < j then ph (snd (inw p DATA d)) = Sending j (tl ws)
           else offers (tl ws) (ph (snd (inw p DATA d))))"
    using assms unfolding follows_protocol_def by blast
  then show "fst (inw p DATA d) = hd ws" "0 < j \<Longrightarrow> ph (snd (inw p DATA d)) = Sending j (tl ws)"
    "j = 0 \<Longrightarrow> offers (tl ws) (ph (snd (inw p DATA d)))" by simp_all
qed

lemma status_bits:
  assumes "(st :: u8) AND 0x89 = 0x08"
  shows "st AND ATA_SR_BSY = 0" "st AND ATA_SR_ERR = 0" "st AND ATA_SR_DRQ \<noteq> 0"
proof -
  have "st AND ATA_SR_BSY = (st AND 0x89) AND 0x80" "st AND ATA_SR_ERR = (st AND 0x89) AND 0x01" "st AND ATA_SR_DRQ = (st AND 0x89) AND 0x08"
    by (simp_all add: and.assoc)
  then show "st AND ATA_SR_BSY = 0" "st AND ATA_SR_ERR = 0" "st AND ATA_SR_DRQ \<noteq> 0" unfolding assms by simp_all
qed

lemma wait_loop_idle:
  assumes "follows_protocol p disk ph" and "ph d = Idle r"
  shows "ph (wait_loop p n d) = Idle r"
  using protocol_idle(1,2) [OF assms] assms(2) by (cases n) (simp_all add: case_prod_beta)

lemma wait_loop_ready:
  assumes "follows_protocol p disk ph" and "ph d = Preparing k ws" and "ws \<noteq> []" and "k < n"
  shows "ph (wait_loop p n d) = Preparing 0 ws"
  using assms(2,4)
proof (induction n arbitrary: d k)
  case (Suc n)
  show ?case
  proof (cases k)
    case 0
    then show ?thesis
      using protocol_ready [OF assms(1) _ assms(3), of d] Suc.prems status_bits(1) by (simp add: case_prod_beta)
  next
    case (Suc j)
    then show ?thesis
      using protocol_busy [OF assms(1), of d j ws] Suc.prems Suc.IH [of "snd (inb p STATUS d)" j] by (simp add: case_prod_beta)
  qed
qed simp

lemma skip_status_ready:
  assumes "follows_protocol p disk ph" and "ph d = Preparing k ws" and "ws \<noteq> []"
  shows "ph (skip_status p STATUS d) = Preparing (k - 4) ws"
proof -
  have one: "ph (snd (inb p STATUS d)) = Preparing (j - 1) ws" if "ph d = Preparing j ws" for d j
    using protocol_busy(2) [OF assms(1)] protocol_ready(2) [OF assms(1) _ assms(3)] that by (cases j) auto
  have "ph (((\<lambda>d. snd (inb p STATUS d)) ^^ n) d) = Preparing (k - n) ws" for n
    using assms(2) one by (induction n) simp_all
  then show ?thesis by (simp only: skip_status_def)
qed

lemma ata_poll_ready:
  assumes "follows_protocol p disk ph" and "ph d = Preparing k ws" and "k \<le> 1000" and "ws \<noteq> []"
  shows "\<exists>d'. ata_poll p d = (0, d') \<and> ph d' = Preparing 0 ws"
proof -
  let ?d = "ata_wait_bsy p (skip_status p STATUS d)"
  have k: "k - 4 < 100000" using assms(3) by linarith
  have "ph ?d = Preparing 0 ws"
    unfolding ata_wait_bsy_def by (rule wait_loop_ready [OF assms(1) skip_status_ready [OF assms(1,2,4)] assms(4) k])
  note r = protocol_ready [OF assms(1) this assms(4)]
  note b = status_bits [OF r(1)]
  show ?thesis unfolding ata_poll_def using r(2) b by (simp add: Let_def case_prod_beta)
qed

text \<open>What the words leave in memory.\<close>

primrec put_words :: "ptr \<Rightarrow> u16 list \<Rightarrow> mem \<Rightarrow> mem" where
  "put_words a [] m = m"
| "put_words a (w # ws) m = put_words (a + 2) ws (st16 m a w)"

lemma put_words_append: "put_words a (xs @ ys) m = put_words (a + 2 * of_nat (length xs)) ys (put_words a xs m)"
  by (induction xs arbitrary: a m) (simp_all add: algebra_simps)

lemma read_words_sending:
  assumes "follows_protocol p disk ph" and "ph d = Sending j ws" and "0 < j" and "j \<le> length ws"
  shows "\<exists>d'. read_words p j a m d = (put_words a (take j ws) m, d') \<and> offers (drop j ws) (ph d')"
  using assms(2-4)
proof (induction j arbitrary: d ws a m)
  case (Suc j)
  obtain w ws' where ws: "ws = w # ws'" using Suc.prems(3) by (cases ws) auto
  note s = protocol_sending [OF assms(1) Suc.prems(1)]
  show ?case
  proof (cases "j = 0")
    case True
    then show ?thesis using s(1,3) ws by (auto simp: case_prod_beta)
  next
    case False
    then show ?thesis
      using s(1,2) ws Suc.IH [of "snd (inw p DATA d)" ws' "a + 2" "st16 m a w"] Suc.prems(3) by (simp add: case_prod_beta)
  qed
qed simp

lemma read_one_sector:
  assumes "follows_protocol p disk ph" and "ph d = Preparing 0 ws" and "256 \<le> length ws"
  shows "\<exists>d'. read_words p 256 a m d = (put_words a (take 256 ws) m, d') \<and> offers (drop 256 ws) (ph d')"
proof -
  obtain w ws' where ws: "ws = w # ws'" using assms(3) by (cases ws) auto
  note r = protocol_ready [OF assms(1,2)]
  have e: "(256 :: nat) = Suc 255" by simp
  have "ph (snd (inw p DATA d)) = Sending 255 ws'" using r(4) ws by simp
  then obtain d' where "read_words p 255 (a + 2) (st16 m a w) (snd (inw p DATA d)) = (put_words (a + 2) (take 255 ws') (st16 m a w), d')"
      "offers (drop 255 ws') (ph d')"
    using read_words_sending [OF assms(1), of "snd (inw p DATA d)" 255 ws' "a + 2" "st16 m a w"] assms(3) ws by auto
  moreover have "read_words p 256 a m d = read_words p 255 (a + 2) (st16 m a w) (snd (inw p DATA d))"
    unfolding e read_words.simps using r(3) ws by (simp add: case_prod_beta)
  moreover have "put_words a (take 256 ws) m = put_words (a + 2) (take 255 ws') (st16 m a w)" "drop 256 ws = drop 255 ws'"
    unfolding e ws by (simp_all only: take_Suc_Cons drop_Suc_Cons put_words.simps)
  ultimately show ?thesis by auto
qed

lemma read_loop_words:
  assumes "follows_protocol p disk ph" and "offers ws (ph d)" and "length ws = 256 * n"
  shows "\<exists>d'. read_loop p n a m d = (0, put_words a ws m, d') \<and> offers [] (ph d')"
  using assms(2,3)
proof (induction n arbitrary: d ws a m)
  case (Suc n)
  have ne: "ws \<noteq> []" using Suc.prems(2) by auto
  then obtain k where k: "ph d = Preparing k ws" "k \<le> 1000" using Suc.prems(1) by (auto simp: offers_def split: phase.splits)
  obtain d1 where d1: "ata_poll p d = (0, d1)" "ph d1 = Preparing 0 ws"
    using ata_poll_ready [OF assms(1) k ne] by blast
  obtain d2 where d2: "read_words p 256 a m d1 = (put_words a (take 256 ws) m, d2)" "offers (drop 256 ws) (ph d2)"
    using read_one_sector [OF assms(1) d1(2), of a m] Suc.prems(2) by auto
  obtain d3 where d3: "read_loop p n (a + 512) (put_words a (take 256 ws) m) d2 = (0, put_words (a + 512) (drop 256 ws) (put_words a (take 256 ws) m), d3)"
    "offers [] (ph d3)"
    using Suc.IH [OF d2(2)] Suc.prems(2) by auto
  moreover have "put_words a ws m = put_words (a + 512) (drop 256 ws) (put_words a (take 256 ws) m)"
  proof -
    have "length (take 256 ws) = 256" using Suc.prems(2) by simp
    then show ?thesis using put_words_append [of a "take 256 ws" "drop 256 ws" m] by (simp only: append_take_drop_id) simp
  qed
  ultimately show ?case using d1 d2 d3 by simp
qed simp

definition word_byte :: "u16 list \<Rightarrow> nat \<Rightarrow> u8" where
  "word_byte ws i = ucast (drop_bit (8 * (i mod 2)) (ws ! (i div 2)))"

lemma put_words_apply:
  assumes "2 * length ws < 2 ^ 64"
  shows "put_words a ws m x = (if within a (2 * length ws) x then word_byte ws (unat (x - a)) else m x)"
  using assms
proof (induction ws arbitrary: a m)
  case (Cons w ws)
  define k where "k = unat (x - a)"
  have kl: "k < 2 ^ 64" unfolding k_def by (rule unat_lt_u64)
  have e: "x - (a + 2) = (x - a) - 2" by simp
  have k2: "unat (x - (a + 2)) = (if 2 \<le> k then k - 2 else 2 ^ 64 + k - 2)"
    unfolding e k_def using unat_lt_u64 [of "x - a"] by (simp add: unat_sub_if')
  have ih: "put_words a (w # ws) m x = (if within (a + 2) (2 * length ws) x then word_byte ws (unat (x - (a + 2))) else st16 m a w x)"
    using Cons.IH [of "a + 2" "st16 m a w"] Cons.prems by simp
  show ?case
  proof (cases "2 \<le> k")
    case True
    then have "k div 2 = Suc ((k - 2) div 2)" "k mod 2 = (k - 2) mod 2"
      using le_add_diff_inverse [OF True] by (metis div_add_self1 plus_1_eq_Suc add.commute zero_neq_numeral, metis mod_add_self1)
    then have "word_byte ws (k - 2) = word_byte (w # ws) k" by (simp add: word_byte_def)
    moreover have "k - 2 < 2 * length ws \<longleftrightarrow> k < 2 * length (w # ws)" using True by auto
    ultimately show ?thesis unfolding ih using True k2 by (simp add: within_def store_le_def k_def [symmetric])
  next
    case False
    then have "\<not> within (a + 2) (2 * length ws) x" using k2 Cons.prems by (simp add: within_def)
    moreover have "k div 2 = 0" "k mod 2 = k" using False by simp_all
    ultimately show ?thesis unfolding ih using False by (simp add: within_def store_le_def word_byte_def k_def [symmetric])
  qed
qed simp

section \<open>Reading sectors\<close>

lemma lba_parts:
  "unat (ucast lba :: u8) + 256 * unat (ucast (drop_bit 8 lba) :: u8) + 65536 * unat (ucast (drop_bit 16 lba) :: u8)
     + 16777216 * unat (drop_bit 24 lba AND 0x0F) = unat (lba :: u32) mod 2 ^ 28"
proof -
  let ?n = "unat lba"
  have u: "unat (ucast (x :: u32) :: u8) = unat x mod 256" for x by (simp add: unsigned_ucast_eq take_bit_eq_mod)
  have d: "unat (drop_bit k lba) = ?n div 2 ^ k" for k
  proof -
    have "unat (drop_bit k lba) = drop_bit k ?n"
      using take_bit_nat_eq_self [of ?n 32] unsigned_less [where 'a = nat and w = lba] by (simp add: unsigned_drop_bit_eq)
    then show ?thesis by (simp only: drop_bit_eq_div)
  qed
  have m: "drop_bit 24 lba AND 0x0F = take_bit 4 (drop_bit 24 lba)"
    using take_bit_eq_mask [of 4 "drop_bit 24 lba"] by (simp add: mask_eq_exp_minus_1)
  have a: "unat (drop_bit 24 lba AND 0x0F) = ?n div 2 ^ 24 mod 16"
  proof -
    have "unat (take_bit 4 (drop_bit 24 lba)) = take_bit 4 (unat (drop_bit 24 lba))" by (rule unsigned_take_bit_eq)
    then show ?thesis unfolding m d by (simp add: take_bit_nat_def)
  qed
  have "?n mod (256 * 256) = 256 * (?n div 256 mod 256) + ?n mod 256" by (rule mod_mult2_eq)
  moreover have "?n mod (65536 * 256) = 65536 * (?n div 65536 mod 256) + ?n mod 65536" by (rule mod_mult2_eq)
  moreover have "?n mod (16777216 * 16) = 16777216 * (?n div 16777216 mod 16) + ?n mod 16777216" by (rule mod_mult2_eq)
  ultimately show ?thesis unfolding u d a by simp
qed

lemma select_sectors_request:
  assumes f: "follows_protocol p disk ph" and i: "ph d = Idle r"
  shows "offers (sector_words disk (drive \<noteq> 0, unat lba mod 2 ^ 28, if count = 0 then 256 else unat count))
    (ph (select_sectors p drive lba count d))"
proof -
  let ?v = "drive_select drive OR ucast (drop_bit 24 lba AND 0x0F)"
  let ?r = "r(DRIVE := ?v, SECCOUNT := count, LBA_LO := ucast lba, LBA_MID := ucast (drop_bit 8 lba), LBA_HI := ucast (drop_bit 16 lba))"
  have "ph (ata_wait_bsy p d) = Idle r" unfolding ata_wait_bsy_def by (rule wait_loop_idle [OF f i])
  then have o: "offers (sector_words disk (read_request ?r)) (ph (select_sectors p drive lba count d))"
    unfolding select_sectors_def Let_def by (intro protocol_idle(8) [OF f] protocol_idle(3-7) [OF f])
  moreover have "?v AND 0x0F = ucast (drop_bit 24 lba AND 0x0F)"
  proof -
    have "drive_select drive AND 0x0F = 0" by (simp add: drive_select_def)
    moreover have "(ucast (drop_bit 24 lba AND 0x0F) :: u8) AND 0x0F = ucast (drop_bit 24 lba AND 0x0F)"
      by (rule bit_word_eqI) (auto simp: bit_simps)
    ultimately show ?thesis by (simp add: and.commute [of _ "0x0F"] bit.conj_disj_distrib)
  qed
  moreover have "unat (ucast (drop_bit 24 lba AND 0x0F) :: u8) = unat (drop_bit 24 lba AND 0x0F)"
  proof -
    have "drop_bit 24 lba AND 0x0F \<le> 0x0F" by (rule word_and_le1)
    then have "unat (drop_bit 24 lba AND 0x0F) < 256" by (simp add: word_le_nat_alt)
    then show ?thesis by (simp add: unsigned_ucast_eq take_bit_eq_mod)
  qed
  moreover have "?v AND 0x10 = drive_select drive AND 0x10"
  proof -
    have "(ucast (drop_bit 24 lba AND 0x0F) :: u8) = ucast (drop_bit 24 lba) AND 0x0F"
      by (rule bit_word_eqI) (auto simp: bit_simps)
    then have "(ucast (drop_bit 24 lba AND 0x0F) :: u8) AND 0x10 = 0" by (simp add: and.assoc)
    then show ?thesis by (simp add: and.commute [of _ "0x10"] bit.conj_disj_distrib)
  qed
  moreover have "drive_select drive AND 0x10 \<noteq> 0 \<longleftrightarrow> drive \<noteq> 0" by (simp add: drive_select_def)
  ultimately have "read_request ?r = (drive \<noteq> 0, unat lba mod 2 ^ 28, if count = 0 then 256 else unat count)"
    using lba_parts [of lba] by (simp add: read_request_def)
  then show ?thesis using o by simp
qed

definition sectors_of :: "u8 \<Rightarrow> nat" where
  "sectors_of count = (if count = 0 then 256 else unat count)"

lemma sector_words_length:
  assumes "\<forall>b n. length (disk b n) = 256"
  shows "length (sector_words disk (b, l, n)) = 256 * n"
proof -
  have "length (concat (map (disk b) xs)) = 256 * length xs" for xs using assms by (induction xs) simp_all
  then show ?thesis by (simp add: sector_words_def)
qed

lemma read_sectors_words:
  fixes s :: "'d ata" and lba :: u32 and count :: u8
  assumes "follows_protocol p disk ph" and "ph (dev s) = Idle r" and "\<forall>b n. length (disk b n) = 256"
    and "0 \<le> drive" and "drive \<le> 1" and "drive_present s ! nat drive"
  shows "\<exists>d' r'. ata_read_sectors p drive lba count buf m s
      = (0, put_words buf (sector_words disk (drive \<noteq> 0, unat lba mod 2 ^ 28, sectors_of count)) m, s\<lparr>dev := d'\<rparr>) \<and> ph d' = Idle r'"
proof -
  let ?ws = "sector_words disk (drive \<noteq> 0, unat lba mod 2 ^ 28, sectors_of count)"
  have "offers ?ws (ph (select_sectors p drive lba count (dev s)))"
    using select_sectors_request [OF assms(1,2)] unfolding sectors_of_def by blast
  then obtain d' where d': "read_loop p (sectors_of count) buf m (select_sectors p drive lba count (dev s)) = (0, put_words buf ?ws m, d')"
    "offers [] (ph d')"
    using read_loop_words [OF assms(1) _ sector_words_length [OF assms(3)]] by blast
  then obtain r' where "ph d' = Idle r'" by (auto simp: offers_def split: phase.splits)
  moreover have "ata_read_sectors p drive lba count buf m s = (0, put_words buf ?ws m, s\<lparr>dev := d'\<rparr>)"
    using assms(4-6) d'(1) by (simp add: ata_read_sectors_def Let_def sectors_of_def)
  ultimately show ?thesis by blast
qed

text \<open>C33: reading sectors.  From an idle drive that follows the protocol and has sectors of 256 words, \<open>ata_read_sectors\<close> ends with result 0, the
  drive is idle again, and the buffer holds the bytes of the sectors in order, the low byte of each word first; no other byte changes.  The first
  sector is the given number modulo \<open>2 ^ 28\<close>, on the master for drive 0 and on the slave for drive 1, and a count of 0 stands for 256 sectors.\<close>

theorem ata_read_sectors_correct:
  fixes s :: "'d ata" and lba :: u32 and count :: u8
  assumes "follows_protocol p disk ph" and "ph (dev s) = Idle r" and "\<forall>b n. length (disk b n) = 256"
    and "0 \<le> drive" and "drive \<le> 1" and "drive_present s ! nat drive"
  shows "\<exists>m' s' r'. ata_read_sectors p drive lba count buf m s = (0, m', s') \<and> ph (dev s') = Idle r' \<and> drive_present s' = drive_present s
    \<and> (let ws = sector_words disk (drive \<noteq> 0, unat lba mod 2 ^ 28, sectors_of count)
       in length ws = 256 * sectors_of count
        \<and> (\<forall>x. m' x = (if within buf (2 * length ws) x then word_byte ws (unat (x - buf)) else m x)))"
proof -
  let ?ws = "sector_words disk (drive \<noteq> 0, unat lba mod 2 ^ 28, sectors_of count)"
  have l: "length ?ws = 256 * sectors_of count" by (rule sector_words_length [OF assms(3)])
  have "unat count < 256" using unsigned_less [of count] by simp
  then have "sectors_of count \<le> 256" by (simp add: sectors_of_def)
  then have sm: "2 * length ?ws < 2 ^ 64" unfolding l by simp
  obtain d' r' where r: "ata_read_sectors p drive lba count buf m s = (0, put_words buf ?ws m, s\<lparr>dev := d'\<rparr>)" "ph d' = Idle r'"
    using read_sectors_words [OF assms] by blast
  show ?thesis unfolding Let_def
    by (intro exI [of _ "put_words buf ?ws m"] exI [of _ "s\<lparr>dev := d'\<rparr>"] exI [of _ r'] conjI l allI put_words_apply [OF sm] r(1))
      (simp_all add: r(2))
qed

text \<open>A drive as a state machine on its phases.\<close>

definition offer :: "nat \<Rightarrow> u16 list \<Rightarrow> phase" where
  "offer k ws = (if ws = [] then Idle (\<lambda>_. 0) else Preparing k ws)"

definition sample_drive :: "(bool \<Rightarrow> nat \<Rightarrow> u16 list) \<Rightarrow> phase ports" where
  "sample_drive disk = \<lparr>
     inb = (\<lambda>port d. case d of Idle r \<Rightarrow> (0x40, d)
        | Preparing k ws \<Rightarrow> (case k of 0 \<Rightarrow> (0x48, d) | Suc k \<Rightarrow> (0x80, Preparing k ws)) | Sending j ws \<Rightarrow> (0x48, d)),
     inw = (\<lambda>port d. case d of Idle r \<Rightarrow> (0, d)
        | Preparing k ws \<Rightarrow> (hd ws, Sending 255 (tl ws))
        | Sending j ws \<Rightarrow> (hd ws, if 1 < j then Sending (j - 1) (tl ws) else offer 3 (tl ws))),
     outb = (\<lambda>port v d. case d of Idle r \<Rightarrow> if port = COMMAND then offer 5 (sector_words disk (read_request r)) else Idle (r(port := v)) | _ \<Rightarrow> d)\<rparr>"

lemma sample_drive_protocol: "follows_protocol (sample_drive disk) disk (\<lambda>d. d)"
  by (simp add: follows_protocol_def sample_drive_def offers_def offer_def)

theorem ata_read_sectors_correct_witness:
  "\<exists>m' s'. ata_read_sectors (sample_drive (\<lambda>b n. replicate 256 (of_nat n))) 1 0x10000203 1 0x5000 (\<lambda>_. 0)
      \<lparr>drive_present = [False, True], dev = Idle (\<lambda>_. 0)\<rparr> = (0, m', s') \<and> m' 0x5000 = 0x03 \<and> m' 0x5001 = 0x02 \<and> m' 0x5200 = 0"
proof -
  let ?disk = "\<lambda>(b :: bool) n. replicate 256 (of_nat n :: u16)"
  have w: "sector_words ?disk (True, 515, Suc 0) = replicate 256 515" by (simp add: sector_words_def)
  show ?thesis
    using ata_read_sectors_correct [OF sample_drive_protocol [of ?disk],
        of "\<lparr>drive_present = [False, True], dev = Idle (\<lambda>_. 0)\<rparr>" "\<lambda>_. 0" 1 "0x10000203" 1 "0x5000" "\<lambda>_. 0"]
    by (auto simp: w Let_def within_def word_byte_def sectors_of_def)
qed

section \<open>The disk the file system sees\<close>

text \<open>
  The FAT32 reader takes a disk as a function of drive and sector number.  \<open>ata_requests\<close> serves a sequence of one-sector requests with the driver,
  each into the given buffer, and \<open>sector_disk\<close> is the function they amount to.
\<close>

definition sector_bytes :: "u16 list \<Rightarrow> u8 list" where
  "sector_bytes ws = map (word_byte ws) [0..<512]"

definition sector_disk :: "(bool \<Rightarrow> nat \<Rightarrow> u16 list) \<Rightarrow> bool list \<Rightarrow> int \<Rightarrow> u32 \<Rightarrow> u8 list option" where
  "sector_disk disk present drive lba =
     (if drive < 0 \<or> 1 < drive \<or> \<not> present ! nat drive then None else Some (sector_bytes (disk (drive \<noteq> 0) (unat lba mod 2 ^ 28))))"

primrec ata_requests :: "'d ports \<Rightarrow> ptr \<Rightarrow> (int \<times> u32) list \<Rightarrow> mem \<Rightarrow> 'd ata \<Rightarrow> u8 list option list" where
  "ata_requests p buf [] m s = []"
| "ata_requests p buf (q # qs) m s =
     (let (r, m, s) = ata_read_sectors p (fst q) (snd q) 1 buf m s
      in (if r < 0 then None else Some (map (\<lambda>i. m (buf + of_nat i)) [0..<512])) # ata_requests p buf qs m s)"

lemma read_back:
  assumes "length ws = 256"
  shows "map (\<lambda>i. put_words buf ws m (buf + of_nat i)) [0..<512] = sector_bytes ws"
  using assms by (auto simp: sector_bytes_def put_words_apply within_def unat_of_nat take_bit_eq_mod)

text \<open>C34: the driver gives the file system its disk.  Every sequence of one-sector requests to an idle controller is answered as the function
  \<open>sector_disk\<close> says, also when requests to a missing drive or to a drive that does not exist come in between.\<close>

theorem ata_implements_disk:
  assumes "follows_protocol p disk ph" and "ph (dev s) = Idle r" and "\<forall>b n. length (disk b n) = 256"
  shows "ata_requests p buf qs m s = map (\<lambda>(drive, lba). sector_disk disk (drive_present s) drive lba) qs"
  using assms(2)
proof (induction qs arbitrary: m s r)
  case (Cons q qs)
  obtain drive lba where q: "q = (drive, lba)" by force
  have one: "sectors_of 1 = 1" by (simp add: sectors_of_def)
  have w: "sector_words disk (b, l, 1) = disk b l" for b l by (simp add: sector_words_def)
  show ?case
  proof (cases "drive < 0 \<or> 1 < drive \<or> \<not> drive_present s ! nat drive")
    case True
    then show ?thesis using Cons.IH [OF Cons.prems] by (auto simp: q ata_read_sectors_def sector_disk_def)
  next
    case False
    then obtain d' r' where "ata_read_sectors p drive lba 1 buf m s
        = (0, put_words buf (disk (drive \<noteq> 0) (unat lba mod 2 ^ 28)) m, s\<lparr>dev := d'\<rparr>)" "ph d' = Idle r'"
      using read_sectors_words [OF assms(1) Cons.prems assms(3), of drive lba 1 buf m] unfolding one w by force
    then show ?thesis
      using False Cons.IH [of "s\<lparr>dev := d'\<rparr>" r'] read_back [of "disk (drive \<noteq> 0) (unat lba mod 2 ^ 28)" buf m] assms(3)
      by (simp add: q sector_disk_def)
  qed
qed simp

theorem ata_implements_disk_witness:
  "map (map_option (\<lambda>b. b ! 2)) (ata_requests (sample_drive (\<lambda>b n. replicate 256 (if b then 7 else of_nat n))) 0x5000 [(0, 9), (1, 9), (2, 0), (0, 0x10000004)]
      (\<lambda>_. 0) \<lparr>drive_present = [True, True], dev = Idle (\<lambda>_. 0)\<rparr>) = [Some 9, Some 7, None, Some 4]"
proof -
  let ?disk = "\<lambda>b n. replicate 256 (if b then 7 else of_nat n :: u16)"
  show ?thesis
    using ata_implements_disk [OF sample_drive_protocol [of ?disk],
        of "\<lparr>drive_present = [True, True], dev = Idle (\<lambda>_. 0)\<rparr>" "\<lambda>_. 0" "0x5000" "[(0, 9), (1, 9), (2, 0), (0, 0x10000004)]" "\<lambda>_. 0"]
    by (simp add: sector_disk_def sector_bytes_def word_byte_def)
qed

section \<open>The serial port\<close>

abbreviation (input) COM1 :: u16 where "COM1 \<equiv> 0x3F8"

definition serial_init :: "'d ports \<Rightarrow> 'd \<Rightarrow> 'd" where
  "serial_init p d =
     (let d = outb p (COM1 + 1) 0x00 d; d = outb p (COM1 + 3) 0x80 d; d = outb p (COM1 + 0) 0x01 d; d = outb p (COM1 + 1) 0x00 d;
          d = outb p (COM1 + 3) 0x03 d; d = outb p (COM1 + 2) 0xC7 d
      in outb p (COM1 + 4) 0x0B d)"

partial_function (option) serial_wait_ready :: "'d ports \<Rightarrow> 'd \<Rightarrow> 'd option" where
  "serial_wait_ready p d = (let (st, d) = inb p (COM1 + 5) d in if st AND 0x20 = 0 then serial_wait_ready p d else Some d)"

definition serial_putchar :: "'d ports \<Rightarrow> u8 \<Rightarrow> 'd \<Rightarrow> 'd option" where
  "serial_putchar p c d = do { d \<leftarrow> serial_wait_ready p d; Some (outb p COM1 c d) }"

primrec serial_write :: "'d ports \<Rightarrow> u8 list \<Rightarrow> 'd \<Rightarrow> 'd option" where
  "serial_write p [] d = Some d"
| "serial_write p (c # cs) d = do {
     d \<leftarrow> serial_wait_ready p d;
     d \<leftarrow> (if c = 10 then serial_wait_ready p (outb p COM1 13 d) else Some d);
     serial_write p cs (outb p COM1 c d) }"

text \<open>A port that becomes ready after \<open>busy\<close> more reads of its status, and sends what is written to it.\<close>

definition transmits :: "'d ports \<Rightarrow> ('d \<Rightarrow> nat) \<Rightarrow> ('d \<Rightarrow> u8 list) \<Rightarrow> bool" where
  "transmits p busy sent \<longleftrightarrow>
     (\<forall>d. sent (snd (inb p (COM1 + 5) d)) = sent d
        \<and> (if busy d = 0 then fst (inb p (COM1 + 5) d) AND 0x20 \<noteq> 0
           else fst (inb p (COM1 + 5) d) AND 0x20 = 0 \<and> busy (snd (inb p (COM1 + 5) d)) < busy d))
   \<and> (\<forall>c d. sent (outb p COM1 c d) = sent d @ [c])"

lemma serial_wait_ready_ends:
  assumes "transmits p busy sent"
  shows "\<exists>d'. serial_wait_ready p d = Some d' \<and> sent d' = sent d"
proof (induction "busy d" arbitrary: d rule: less_induct)
  case less
  have t: "sent (snd (inb p (COM1 + 5) d)) = sent d"
    "if busy d = 0 then fst (inb p (COM1 + 5) d) AND 0x20 \<noteq> 0
     else fst (inb p (COM1 + 5) d) AND 0x20 = 0 \<and> busy (snd (inb p (COM1 + 5) d)) < busy d"
    using assms unfolding transmits_def by blast+
  show ?case
    using less [of "snd (inb p (COM1 + 5) d)"] t by (subst serial_wait_ready.simps) (auto simp: case_prod_beta split: if_splits)
qed

lemma serial_write_sends:
  assumes "transmits p busy sent"
  shows "\<exists>d'. serial_write p cs d = Some d' \<and> sent d' = sent d @ concat (map (\<lambda>c. if c = 10 then [13, 10] else [c]) cs)"
proof (induction cs arbitrary: d)
  case (Cons c cs)
  have o: "sent (outb p COM1 b e) = sent e @ [b]" for b e using assms unfolding transmits_def by blast
  obtain d1 where d1: "serial_wait_ready p d = Some d1" "sent d1 = sent d" using serial_wait_ready_ends [OF assms] by blast
  obtain d2 where d2: "serial_wait_ready p (outb p COM1 13 d1) = Some d2" "sent d2 = sent d @ [13]"
    using serial_wait_ready_ends [OF assms, of "outb p COM1 13 d1"] d1(2) o by auto
  show ?case
    using Cons.IH [of "outb p COM1 c (if c = 10 then d2 else d1)"] d1 d2 o by (auto split: if_splits)
qed simp

end
