(* ===== verification/Xhci.thy ===== *)
theory Xhci
  imports Vmm Pci Bytes
begin

text \<open>
  The USB host controller driver \<open>kernel/drivers/xhci.c\<close>.  The controller is the argument \<open>hc\<close>: what reading and writing one of its
  registers does, and what reading the clock gives.  It shares the memory with the kernel and may change it and its own state whenever a
  register or the clock is accessed; the loops of the driver access one of them in every round.  The messages are left out.

  The lemmas: a request block pushed on a ring is what a controller that follows the cycle bmask fetches next, also across the link at the end of the
  ring, and it then finds the ring empty; and waiting for an event ends when the clock advances, with an event that carries the
  expected cycle bit or with none.
\<close>

unbundle bit_operations_syntax

section \<open>Data\<close>

record XhciTrb =
  param_lo :: u32
  param_hi :: u32
  status :: u32
  control :: u32

record SlotData =
  output_ctx :: ptr
  input_ctx :: ptr
  ep0_ring :: ptr
  ep0_enq :: nat
  ep0_cycle :: u32

record XhciUsbDevice =
  upresent :: bool
  uport :: u8
  uslot_id :: u8
  uspeed :: u8
  uvendor_id :: u16
  uproduct_id :: u16
  udev_class :: u8
  udev_subclass :: u8
  udev_protocol :: u8

record 'd hc =
  reg_read :: "ptr \<Rightarrow> 'd \<times> mem \<Rightarrow> u32 \<times> 'd \<times> mem"
  reg_write :: "ptr \<Rightarrow> u32 \<Rightarrow> 'd \<times> mem \<Rightarrow> 'd \<times> mem"
  clock :: "'d \<times> mem \<Rightarrow> u64 \<times> 'd \<times> mem"

record 'd xhci = sched +
  initialised :: bool
  mmio_base :: ptr
  op_base :: ptr
  rt_base :: ptr
  db_base :: ptr
  max_slots :: u32
  max_ports :: u32
  ctx_size :: u32
  cmd_ring :: ptr
  cmd_enq :: nat
  cmd_cycle :: u32
  evt_ring :: ptr
  erst :: ptr
  evt_deq :: nat
  evt_cycle :: u32
  dcbaa :: ptr
  usb_devices :: "XhciUsbDevice list"
  device_count :: nat
  slots :: "SlotData list"
  hw :: 'd

abbreviation (input) CMD_RING_SIZE :: nat where "CMD_RING_SIZE \<equiv> 64"
abbreviation (input) EVT_RING_SIZE :: nat where "EVT_RING_SIZE \<equiv> 64"
abbreviation (input) EP0_RING_SIZE :: nat where "EP0_RING_SIZE \<equiv> 32"
abbreviation (input) MAX_SLOTS_INTERNAL :: int where "MAX_SLOTS_INTERNAL \<equiv> 32"
abbreviation (input) XHCI_MAX_DEVICES :: nat where "XHCI_MAX_DEVICES \<equiv> 16"
abbreviation (input) XHCI_IR_ERSTSZ :: u64 where "XHCI_IR_ERSTSZ \<equiv> 0x08"
abbreviation (input) XHCI_IR_ERSTBA :: u64 where "XHCI_IR_ERSTBA \<equiv> 0x10"
abbreviation (input) XHCI_IR_ERDP :: u64 where "XHCI_IR_ERDP \<equiv> 0x18"
abbreviation (input) TRB_SETUP_STAGE :: u32 where "TRB_SETUP_STAGE \<equiv> 2"
abbreviation (input) TRB_DATA_STAGE :: u32 where "TRB_DATA_STAGE \<equiv> 3"
abbreviation (input) TRB_STATUS_STAGE :: u32 where "TRB_STATUS_STAGE \<equiv> 4"
abbreviation (input) TRB_LINK :: u32 where "TRB_LINK \<equiv> 6"
abbreviation (input) TRB_ENABLE_SLOT :: u32 where "TRB_ENABLE_SLOT \<equiv> 9"
abbreviation (input) TRB_ADDRESS_DEV :: u32 where "TRB_ADDRESS_DEV \<equiv> 11"
abbreviation (input) TRB_XFER_EVENT :: u32 where "TRB_XFER_EVENT \<equiv> 32"
abbreviation (input) TRB_CMD_COMPLETE :: u32 where "TRB_CMD_COMPLETE \<equiv> 33"

definition TRB_TYPE :: "u32 \<Rightarrow> u32" where
  "TRB_TYPE t = push_bit 10 t"

definition zero_trb :: XhciTrb where
  "zero_trb = \<lparr>param_lo = 0, param_hi = 0, status = 0, control = 0\<rparr>"

section \<open>Registers and the clock\<close>

definition rd32 :: "'d hc \<Rightarrow> ptr \<Rightarrow> ('d, 'a) xhci_scheme \<Rightarrow> u32 \<times> ('d, 'a) xhci_scheme" where
  "rd32 hc a s = (let (v, d, m) = reg_read hc a (hw s, memory s) in (v, s\<lparr>memory := m, hw := d\<rparr>))"

definition wr32 :: "'d hc \<Rightarrow> ptr \<Rightarrow> u32 \<Rightarrow> ('d, 'a) xhci_scheme \<Rightarrow> ('d, 'a) xhci_scheme" where
  "wr32 hc a v s = (let (d, m) = reg_write hc a v (hw s, memory s) in s\<lparr>memory := m, hw := d\<rparr>)"

definition wr64 :: "'d hc \<Rightarrow> ptr \<Rightarrow> u64 \<Rightarrow> ('d, 'a) xhci_scheme \<Rightarrow> ('d, 'a) xhci_scheme" where
  "wr64 hc a v s = wr32 hc (a + 4) (ucast (drop_bit 32 v)) (wr32 hc a (ucast v) s)"

definition read_clock :: "'d hc \<Rightarrow> ('d, 'a) xhci_scheme \<Rightarrow> u64 \<times> ('d, 'a) xhci_scheme" where
  "read_clock hc s = (let (t, d, m) = clock hc (hw s, memory s) in (t, s\<lparr>memory := m, hw := d\<rparr>))"

partial_function (option) wait_bits :: "'d hc \<Rightarrow> bool \<Rightarrow> ptr \<Rightarrow> u32 \<Rightarrow> u64 \<Rightarrow> ('d, 'a) xhci_scheme \<Rightarrow> (bool \<times> ('d, 'a) xhci_scheme) option" where
  "wait_bits hc want reg bmask deadline s =
     (let (v, s) = rd32 hc reg s
      in if (v AND bmask \<noteq> 0) = want then Some (True, s)
         else
           let (t, s) = read_clock hc s
           in if deadline < t then Some (False, s) else wait_bits hc want reg bmask deadline s)"

definition wait_bits_set :: "'d hc \<Rightarrow> ptr \<Rightarrow> u32 \<Rightarrow> u64 \<Rightarrow> ('d, 'a) xhci_scheme \<Rightarrow> (bool \<times> ('d, 'a) xhci_scheme) option" where
  "wait_bits_set hc reg bmask ms s = (let (t, s) = read_clock hc s in wait_bits hc True reg bmask (t + ms div 10 + 1) s)"

definition wait_bits_clear :: "'d hc \<Rightarrow> ptr \<Rightarrow> u32 \<Rightarrow> u64 \<Rightarrow> ('d, 'a) xhci_scheme \<Rightarrow> (bool \<times> ('d, 'a) xhci_scheme) option" where
  "wait_bits_clear hc reg bmask ms s = (let (t, s) = read_clock hc s in wait_bits hc False reg bmask (t + ms div 10 + 1) s)"

section \<open>Rings\<close>

definition trb_addr :: "ptr \<Rightarrow> nat \<Rightarrow> ptr" where
  "trb_addr base i = base + 16 * of_nat i"

definition put_trb :: "ptr \<Rightarrow> XhciTrb \<Rightarrow> mem \<Rightarrow> mem" where
  "put_trb a trb m = st32 (st32 (st32 (st32 m a (param_lo trb)) (a + 4) (param_hi trb)) (a + 8) (status trb)) (a + 12) (control trb)"

definition get_trb :: "ptr \<Rightarrow> mem \<Rightarrow> XhciTrb" where
  "get_trb a m = \<lparr>param_lo = ld32 m a, param_hi = ld32 m (a + 4), status = ld32 m (a + 8), control = ld32 m (a + 12)\<rparr>"

definition set_cycle :: "u32 \<Rightarrow> XhciTrb \<Rightarrow> XhciTrb" where
  "set_cycle cycle trb = trb\<lparr>control := (control trb AND NOT 1) OR cycle\<rparr>"

text \<open>The body shared by the pushes on the command ring and on the ring of a slot.\<close>

definition ring_push :: "nat \<Rightarrow> ptr \<Rightarrow> nat \<Rightarrow> u32 \<Rightarrow> XhciTrb \<Rightarrow> mem \<Rightarrow> mem \<times> nat \<times> u32" where
  "ring_push sz base enq cycle trb m =
     (let m = put_trb (trb_addr base enq) (set_cycle cycle trb) m;
          enq = enq + 1
      in if sz - 1 \<le> enq
         then
           let l = trb_addr base (sz - 1) + 12
           in (st32 m l ((ld32 m l AND NOT 1) OR cycle), 0, cycle XOR 1)
         else (m, enq, cycle))"

definition cmd_ring_init :: "('d, 'a) xhci_scheme \<Rightarrow> ('d, 'a) xhci_scheme option" where
  "cmd_ring_init s = do {
     (r, s) \<leftarrow> kmalloc_aligned 1024 64 s;
     let m = memset (memory s) r 0 1024;
     let link = \<lparr>param_lo = ucast r, param_hi = ucast (drop_bit 32 r), status = 0, control = TRB_TYPE TRB_LINK OR 2 OR 1\<rparr>;
     Some (s\<lparr>memory := put_trb (trb_addr r (CMD_RING_SIZE - 1)) link m, cmd_ring := r, cmd_enq := 0, cmd_cycle := 1\<rparr>) }"

definition cmd_ring_push :: "XhciTrb \<Rightarrow> ('d, 'a) xhci_scheme \<Rightarrow> ('d, 'a) xhci_scheme" where
  "cmd_ring_push trb s =
     (let (m, enq, cycle) = ring_push CMD_RING_SIZE (cmd_ring s) (cmd_enq s) (cmd_cycle s) trb (memory s)
      in s\<lparr>memory := m, cmd_enq := enq, cmd_cycle := cycle\<rparr>)"

definition cmd_ring_doorbell :: "'d hc \<Rightarrow> ('d, 'a) xhci_scheme \<Rightarrow> ('d, 'a) xhci_scheme" where
  "cmd_ring_doorbell hc s = wr32 hc (db_base s) 0 s"

definition evt_ring_init :: "('d, 'a) xhci_scheme \<Rightarrow> ('d, 'a) xhci_scheme option" where
  "evt_ring_init s = do {
     (r, s) \<leftarrow> kmalloc_aligned 1024 64 s;
     let s = s\<lparr>memory := memset (memory s) r 0 1024\<rparr>;
     (e, s) \<leftarrow> kmalloc_aligned 16 64 s;
     let m = st32 (st32 (store64 (memory s) e r) (e + 8) 64) (e + 12) 0;
     Some (s\<lparr>memory := m, evt_ring := r, erst := e, evt_deq := 0, evt_cycle := 1\<rparr>) }"

definition evt_taken :: "'d hc \<Rightarrow> ('d, 'a) xhci_scheme \<Rightarrow> ('d, 'a) xhci_scheme" where
  "evt_taken hc s =
     (let s = (if EVT_RING_SIZE \<le> evt_deq s + 1 then s\<lparr>evt_deq := 0, evt_cycle := evt_cycle s XOR 1\<rparr> else s\<lparr>evt_deq := evt_deq s + 1\<rparr>);
          ir0 = rt_base s + 0x20
      in wr64 hc (ir0 + XHCI_IR_ERDP) (trb_addr (evt_ring s) (evt_deq s) OR 8) s)"

partial_function (option) evt_wait :: "'d hc \<Rightarrow> u64 \<Rightarrow> ('d, 'a) xhci_scheme \<Rightarrow> (ptr \<times> ('d, 'a) xhci_scheme) option" where
  "evt_wait hc deadline s =
     (let (t, s) = read_clock hc s
      in if t < deadline
         then
           let trb = trb_addr (evt_ring s) (evt_deq s)
           in if ld32 (memory s) (trb + 12) AND 1 = evt_cycle s then Some (trb, evt_taken hc s)
              else evt_wait hc deadline s
         else Some (NULL, s))"

definition evt_ring_poll :: "'d hc \<Rightarrow> u64 \<Rightarrow> ('d, 'a) xhci_scheme \<Rightarrow> (ptr \<times> ('d, 'a) xhci_scheme) option" where
  "evt_ring_poll hc timeout_ms s = (let (t, s) = read_clock hc s in evt_wait hc (t + timeout_ms div 10 + 1) s)"

definition ep0_ring_alloc :: "('d, 'a) xhci_scheme \<Rightarrow> (ptr \<times> ('d, 'a) xhci_scheme) option" where
  "ep0_ring_alloc s = do {
     (r, s) \<leftarrow> kmalloc_aligned 512 64 s;
     if r = NULL then Some (NULL, s)
     else
       let m = memset (memory s) r 0 512;
           l = trb_addr r (EP0_RING_SIZE - 1);
           m = st32 (st32 (st32 m l (ucast r)) (l + 4) (ucast (drop_bit 32 r))) (l + 12) (TRB_TYPE TRB_LINK OR 2 OR 1)
       in Some (r, s\<lparr>memory := m\<rparr>) }"

definition upd_slot :: "int \<Rightarrow> (SlotData \<Rightarrow> SlotData) \<Rightarrow> ('d, 'a) xhci_scheme \<Rightarrow> ('d, 'a) xhci_scheme" where
  "upd_slot i f s = s\<lparr>slots := (slots s)[nat i := f (slots s ! nat i)]\<rparr>"

definition ep0_push :: "int \<Rightarrow> XhciTrb \<Rightarrow> ('d, 'a) xhci_scheme \<Rightarrow> ('d, 'a) xhci_scheme" where
  "ep0_push i trb s =
     (let sl = slots s ! nat i;
          (m, enq, cycle) = ring_push EP0_RING_SIZE (ep0_ring sl) (ep0_enq sl) (ep0_cycle sl) trb (memory s)
      in upd_slot i (\<lambda>sl. sl\<lparr>ep0_enq := enq, ep0_cycle := cycle\<rparr>) (s\<lparr>memory := m\<rparr>))"

section \<open>Commands\<close>

definition trb_type :: "u32 \<Rightarrow> u32" where
  "trb_type c = drop_bit 10 c AND 0x3F"

primrec cmd_wait :: "nat \<Rightarrow> 'd hc \<Rightarrow> ('d, 'a) xhci_scheme \<Rightarrow> (int \<times> XhciTrb option \<times> ('d, 'a) xhci_scheme) option" where
  "cmd_wait 0 hc s = Some (-1, None, s)"
| "cmd_wait (Suc n) hc s = do {
     (evt, s) \<leftarrow> evt_ring_poll hc 1000 s;
     if evt = NULL then Some (-1, None, s)
     else
       let e = get_trb evt (memory s)
       in if trb_type (control e) = TRB_CMD_COMPLETE then Some (uint (drop_bit 24 (status e) AND 0xFF), Some e, s)
          else cmd_wait n hc s }"

definition cmd_send :: "'d hc \<Rightarrow> XhciTrb \<Rightarrow> ('d, 'a) xhci_scheme \<Rightarrow> (int \<times> XhciTrb option \<times> ('d, 'a) xhci_scheme) option" where
  "cmd_send hc trb s = cmd_wait 5 hc (cmd_ring_doorbell hc (cmd_ring_push trb s))"

definition enable_slot :: "'d hc \<Rightarrow> ('d, 'a) xhci_scheme \<Rightarrow> (int \<times> ('d, 'a) xhci_scheme) option" where
  "enable_slot hc s = do {
     (cc, evt, s) \<leftarrow> cmd_send hc (zero_trb\<lparr>control := TRB_TYPE TRB_ENABLE_SLOT\<rparr>) s;
     Some (case evt of Some e \<Rightarrow> if cc \<noteq> 1 then -1 else uint (drop_bit 24 (control e) AND 0xFF) | None \<Rightarrow> -1, s) }"

definition max_packet :: "int \<Rightarrow> u16" where
  "max_packet speed = (if speed = 2 then 8 else if speed = 1 then 8 else if speed = 3 then 64 else if speed = 4 then 512 else 8)"

text \<open>The input context: the control context, the slot context and the context of endpoint 0.\<close>

definition fill_input_ctx :: "ptr \<Rightarrow> u32 \<Rightarrow> int \<Rightarrow> int \<Rightarrow> ptr \<Rightarrow> mem \<Rightarrow> mem" where
  "fill_input_ctx ic cs port speed ring m =
     (let m = st32 m (ic + 4) 3;
          sc = ic + ucast cs;
          m = st32 m sc (push_bit 27 1 OR push_bit 20 (word_of_int speed));
          m = st32 m (sc + 4) (push_bit 16 (word_of_int port));
          ec = ic + ucast (cs * 2);
          m = st32 m (ec + 4) (push_bit 1 3 OR push_bit 3 4 OR push_bit 16 (ucast (max_packet speed)));
          m = st32 m (ec + 8) (ucast (ring OR 1));
          m = st32 m (ec + 12) (ucast (drop_bit 32 ring))
      in st32 m (ec + 16) 8)"

definition address_device :: "'d hc \<Rightarrow> int \<Rightarrow> int \<Rightarrow> int \<Rightarrow> ('d, 'a) xhci_scheme \<Rightarrow> (int \<times> ('d, 'a) xhci_scheme) option" where
  "address_device hc slot_id port speed s = (
     if slot_id \<le> 0 \<or> MAX_SLOTS_INTERNAL \<le> slot_id then Some (-1, s)
     else do {
       let ctx_total = ucast (ctx_size s * 32);
       (oc, s) \<leftarrow> kmalloc_aligned ctx_total 64 s;
       let s = upd_slot slot_id (\<lambda>sl. sl\<lparr>output_ctx := oc\<rparr>) s;
       if oc = NULL then Some (-1, s)
       else do {
         let m = memset (memory s) oc 0 ctx_total;
         let s = s\<lparr>memory := store64 m (dcbaa s + 8 * word_of_int slot_id) oc\<rparr>;
         (r, s) \<leftarrow> ep0_ring_alloc s;
         let s = upd_slot slot_id (\<lambda>sl. sl\<lparr>ep0_ring := r\<rparr>) s;
         if r = NULL then Some (-1, s)
         else do {
           let s = upd_slot slot_id (\<lambda>sl. sl\<lparr>ep0_enq := 0, ep0_cycle := 1\<rparr>) s;
           let input_total = ucast (ctx_size s * 33);
           (ic, s) \<leftarrow> kmalloc_aligned input_total 64 s;
           let s = upd_slot slot_id (\<lambda>sl. sl\<lparr>input_ctx := ic\<rparr>) s;
           if ic = NULL then Some (-1, s)
           else do {
             let m = memset (memory s) ic 0 input_total;
             let s = s\<lparr>memory := fill_input_ctx ic (ctx_size s) port speed r m\<rparr>;
             let trb = \<lparr>param_lo = ucast ic, param_hi = ucast (drop_bit 32 ic), status = 0,
                        control = TRB_TYPE TRB_ADDRESS_DEV OR push_bit 24 (word_of_int slot_id)\<rparr>;
             (cc, evt, s) \<leftarrow> cmd_send hc trb s;
             Some (if cc \<noteq> 1 then -1 else 0, s) } } } })"

section \<open>Control transfers\<close>

definition setup_trb :: "u16 \<Rightarrow> u16 \<Rightarrow> u16 \<Rightarrow> XhciTrb" where
  "setup_trb wValue wIndex wLength = \<lparr>param_lo = 0x80 OR push_bit 8 0x06 OR push_bit 16 (ucast wValue), param_hi = ucast wIndex OR push_bit 16 (ucast wLength),
     status = 8, control = TRB_TYPE TRB_SETUP_STAGE OR push_bit 6 1 OR push_bit 16 3\<rparr>"

definition data_trb :: "ptr \<Rightarrow> u16 \<Rightarrow> XhciTrb" where
  "data_trb buf wLength = \<lparr>param_lo = ucast buf, param_hi = ucast (drop_bit 32 buf), status = ucast wLength, control = TRB_TYPE TRB_DATA_STAGE OR push_bit 16 1\<rparr>"

definition status_trb :: XhciTrb where
  "status_trb = zero_trb\<lparr>control := TRB_TYPE TRB_STATUS_STAGE OR push_bit 5 1\<rparr>"

definition get_descriptor :: "'d hc \<Rightarrow> int \<Rightarrow> u16 \<Rightarrow> u16 \<Rightarrow> ptr \<Rightarrow> u16 \<Rightarrow> ('d, 'a) xhci_scheme \<Rightarrow> (int \<times> ('d, 'a) xhci_scheme) option" where
  "get_descriptor hc slot_id wValue wIndex buf wLength s = (
     if slot_id \<le> 0 \<or> MAX_SLOTS_INTERNAL \<le> slot_id then Some (-1, s)
     else do {
       let s = ep0_push slot_id (setup_trb wValue wIndex wLength) s;
       let s = ep0_push slot_id (data_trb buf wLength) s;
       let s = ep0_push slot_id status_trb s;
       let s = wr32 hc (db_base s + word_of_int (4 * slot_id)) 1 s;
       (evt, s) \<leftarrow> evt_ring_poll hc 2000 s;
       if evt = NULL then Some (-1, s)
       else
         let e = get_trb evt (memory s);
             cc = drop_bit 24 (status e) AND 0xFF
         in if trb_type (control e) \<noteq> TRB_XFER_EVENT then Some (-1, s)
            else if cc \<noteq> 1 \<and> cc \<noteq> 13 then Some (-1, s)
            else Some (uint wLength - uint (status e AND 0xFFFFFF), s) })"

section \<open>Ports\<close>

abbreviation (input) XHCI_PORTSC_CCS :: u32 where "XHCI_PORTSC_CCS \<equiv> 0x1"
abbreviation (input) XHCI_PORTSC_PED :: u32 where "XHCI_PORTSC_PED \<equiv> 0x2"
abbreviation (input) XHCI_PORTSC_PR :: u32 where "XHCI_PORTSC_PR \<equiv> 0x10"
abbreviation (input) XHCI_PORTSC_PRC :: u32 where "XHCI_PORTSC_PRC \<equiv> 0x200000"
abbreviation (input) XHCI_PORTSC_PRESERVE :: u32 where "XHCI_PORTSC_PRESERVE \<equiv> 0x0E00C3E0"

definition XHCI_OP_PORTSC :: "int \<Rightarrow> u64" where
  "XHCI_OP_PORTSC n = word_of_int (0x400 + 0x10 * (n - 1))"

definition port_reset :: "'d hc \<Rightarrow> int \<Rightarrow> ('d, 'a) xhci_scheme \<Rightarrow> (bool \<times> ('d, 'a) xhci_scheme) option" where
  "port_reset hc port s =
     (let a = op_base s + XHCI_OP_PORTSC port;
          (val, s) = rd32 hc a s
      in if val AND XHCI_PORTSC_PED \<noteq> 0 then Some (True, s)
         else do {
           let s = wr32 hc a ((val AND XHCI_PORTSC_PRESERVE) OR XHCI_PORTSC_PR) s;
           (ok, s) \<leftarrow> wait_bits_set hc a XHCI_PORTSC_PRC 500 s;
           if \<not> ok then Some (False, s)
           else
             let (val, s) = rd32 hc a s;
                 s = wr32 hc a ((val AND XHCI_PORTSC_PRESERVE) OR XHCI_PORTSC_PRC) s;
                 (val, s) = rd32 hc a s
             in Some (val AND XHCI_PORTSC_PED \<noteq> 0, s) })"

definition read_device_desc :: "'d hc \<Rightarrow> int \<Rightarrow> ptr \<Rightarrow> ('d, 'a) xhci_scheme \<Rightarrow> ('d, 'a) xhci_scheme option" where
  "read_device_desc hc slot_id desc s = do {
     (n, s) \<leftarrow> get_descriptor hc slot_id 0x0100 0 desc 18 s;
     if n < 8
     then do {
       (n, s) \<leftarrow> get_descriptor hc slot_id 0x0100 0 desc 8 s;
       if 8 \<le> n \<and> 18 \<le> memory s desc then do { (n, s) \<leftarrow> get_descriptor hc slot_id 0x0100 0 desc 18 s; Some s }
       else Some s }
     else Some s }"

definition record_device :: "int \<Rightarrow> int \<Rightarrow> int \<Rightarrow> ptr \<Rightarrow> ('d, 'a) xhci_scheme \<Rightarrow> ('d, 'a) xhci_scheme" where
  "record_device port slot_id speed desc s =
     (if device_count s < XHCI_MAX_DEVICES
      then
        let m = memory s;
            d = \<lparr>upresent = True, uport = word_of_int port, uslot_id = word_of_int slot_id, uspeed = word_of_int speed,
                 uvendor_id = ld16 m (desc + 8), uproduct_id = ld16 m (desc + 10),
                 udev_class = m (desc + 4), udev_subclass = m (desc + 5), udev_protocol = m (desc + 6)\<rparr>
        in s\<lparr>usb_devices := (usb_devices s)[device_count s := d], device_count := device_count s + 1\<rparr>
      else s)"

text \<open>The descriptor is a variable on the stack, at the address \<open>desc\<close>.\<close>

definition enumerate_port :: "'d hc \<Rightarrow> ptr \<Rightarrow> int \<Rightarrow> ('d, 'a) xhci_scheme \<Rightarrow> ('d, 'a) xhci_scheme option" where
  "enumerate_port hc desc port s =
     (let (portsc, s) = rd32 hc (op_base s + XHCI_OP_PORTSC port) s
      in if portsc AND XHCI_PORTSC_CCS = 0 then Some s
         else
           let speed = uint (drop_bit 10 (portsc AND push_bit 10 0xF))
           in do {
             (ok, s) \<leftarrow> port_reset hc port s;
             if \<not> ok then Some s
             else do {
               (slot_id, s) \<leftarrow> enable_slot hc s;
               if slot_id < 0 then Some s
               else do {
                 (r, s) \<leftarrow> address_device hc slot_id port speed s;
                 if r < 0 then Some s
                 else do {
                   let s = s\<lparr>memory := memset (memory s) desc 0 18\<rparr>;
                   s \<leftarrow> read_device_desc hc slot_id desc s;
                   Some (record_device port slot_id speed desc s) } } } })"

section \<open>Initialisation\<close>

primrec scratchpad_pages :: "nat \<Rightarrow> ptr \<Rightarrow> u64 \<Rightarrow> ('d, 'a) xhci_scheme \<Rightarrow> ('d, 'a) xhci_scheme option" where
  "scratchpad_pages 0 arr i s = Some s"
| "scratchpad_pages (Suc n) arr i s = do {
     (buf, s) \<leftarrow> pmm_alloc_page s;
     if buf = NULL then Some s
     else scratchpad_pages n arr (i + 1) (s\<lparr>memory := store64 (memset (memory s) buf 0 4096) (arr + 8 * i) buf\<rparr>) }"

definition scratchpad_count :: "u32 \<Rightarrow> u32" where
  "scratchpad_count hcsparams2 =
     (let sp_lo = drop_bit 21 hcsparams2 AND 0x1F; sp_hi = drop_bit 27 hcsparams2 AND 0x1F in push_bit 5 sp_hi OR sp_lo)"

definition alloc_scratchpad :: "u32 \<Rightarrow> ('d, 'a) xhci_scheme \<Rightarrow> ('d, 'a) xhci_scheme option" where
  "alloc_scratchpad hcsparams2 s =
     (let num_sp = scratchpad_count hcsparams2
      in if num_sp = 0 then Some s
         else do {
           (arr, s) \<leftarrow> kmalloc_aligned (ucast num_sp * 8) 64 s;
           if arr = NULL then Some s
           else do {
             s \<leftarrow> scratchpad_pages (unat num_sp) arr 0 s;
             Some (s\<lparr>memory := store64 (memory s) (dcbaa s) arr\<rparr>) } })"

definition find_xhci :: "pci \<Rightarrow> PciDevice option" where
  "find_xhci pc = List.find (\<lambda>d. class_code d = 0x0C \<and> sub_class d = 0x03 \<and> prog_if d = 0x30) (take (num_devices pc) (devices pc))"

definition bar_address :: "PciDevice \<Rightarrow> ptr" where
  "bar_address d =
     (let bar0 = ucast (bar d ! 0 AND 0xFFFFFFF0)
      in if drop_bit 1 (bar d ! 0) AND 3 = 2 then bar0 OR push_bit 32 (ucast (bar d ! 1)) else bar0)"

definition read_caps :: "'d hc \<Rightarrow> ('d, 'a) xhci_scheme \<Rightarrow> u32 \<times> ('d, 'a) xhci_scheme" where
  "read_caps hc s =
     (let b = mmio_base s;
          (cap, s) = rd32 hc b s; (p1, s) = rd32 hc (b + 0x04) s; (p2, s) = rd32 hc (b + 0x08) s; (c1, s) = rd32 hc (b + 0x10) s;
          (dbo, s) = rd32 hc (b + 0x14) s; (rto, s) = rd32 hc (b + 0x18) s;
          ms = p1 AND 0xFF
      in (p2, s\<lparr>op_base := b + ucast (ucast cap :: u8), rt_base := b + ucast (rto AND 0xFFFFFFE0), db_base := b + ucast (dbo AND 0xFFFFFFFC),
                max_slots := (if 32 < ms then 32 else ms), max_ports := drop_bit 24 p1 AND 0xFF, ctx_size := (if c1 AND 4 \<noteq> 0 then 64 else 32)\<rparr>))"

definition halt_and_reset :: "'d hc \<Rightarrow> ('d, 'a) xhci_scheme \<Rightarrow> (bool \<times> ('d, 'a) xhci_scheme) option" where
  "halt_and_reset hc s =
     (let (v, s) = rd32 hc (op_base s) s
      in do {
        (ok, s) \<leftarrow> wait_bits_set hc (op_base s + 4) 1 50 (wr32 hc (op_base s) (v AND NOT 1) s);
        if \<not> ok then Some (False, s)
        else do {
          (ok, s) \<leftarrow> wait_bits_clear hc (op_base s) 2 200 (wr32 hc (op_base s) 2 s);
          if \<not> ok then Some (False, s)
          else wait_bits_clear hc (op_base s + 4) 0x1000 200 s } })"

definition setup_rings :: "'d hc \<Rightarrow> u32 \<Rightarrow> ('d, 'a) xhci_scheme \<Rightarrow> ('d, 'a) xhci_scheme option" where
  "setup_rings hc hcsparams2 s = do {
     let s = wr32 hc (op_base s + 0x38) (max_slots s) s;
     let n = ucast (max_slots s + 1) * 8;
     (d, s) \<leftarrow> kmalloc_aligned n 64 s;
     let s = s\<lparr>dcbaa := d, memory := memset (memory s) d 0 n\<rparr>;
     let s = wr64 hc (op_base s + 0x30) d s;
     s \<leftarrow> alloc_scratchpad hcsparams2 s;
     s \<leftarrow> cmd_ring_init s;
     let s = wr64 hc (op_base s + 0x18) (cmd_ring s OR 1) s;
     s \<leftarrow> evt_ring_init s;
     let ir0 = rt_base s + 0x20;
     let s = wr32 hc (ir0 + XHCI_IR_ERSTSZ) 1 s;
     let s = wr64 hc (ir0 + XHCI_IR_ERDP) (evt_ring s) s;
     Some (wr64 hc (ir0 + XHCI_IR_ERSTBA) (erst s) s) }"

primrec enumerate_ports :: "nat \<Rightarrow> int \<Rightarrow> 'd hc \<Rightarrow> ptr \<Rightarrow> ('d, 'a) xhci_scheme \<Rightarrow> ('d, 'a) xhci_scheme option" where
  "enumerate_ports 0 p hc desc s = Some s"
| "enumerate_ports (Suc n) p hc desc s = do { s \<leftarrow> enumerate_port hc desc p s; enumerate_ports n (p + 1) hc desc s }"

definition xhci_init ::
  "'d hc \<Rightarrow> (u32 \<Rightarrow> u32 \<Rightarrow> config \<Rightarrow> config) \<Rightarrow> pci \<Rightarrow> ptr \<Rightarrow> config \<Rightarrow> ('d, 'a) xhci_scheme \<Rightarrow> (int \<times> config \<times> ('d, 'a) xhci_scheme) option" where
  "xhci_init hc wr pc desc cfg s = (case find_xhci pc of
     None \<Rightarrow> Some (-1, cfg, s)
   | Some pdev \<Rightarrow>
       if bar pdev ! 0 AND 1 \<noteq> 0 then Some (-1, cfg, s)
       else
         let s = s\<lparr>mmio_base := bar_address pdev\<rparr>
         in if mmio_base s = 0 then Some (-1, cfg, s)
            else do {
              s \<leftarrow> (if 0x100000000 \<le> mmio_base s then vmm_map_mmio (mmio_base s) 0x10000 s else Some s);
              let cfg = pci_enable_bus_master wr pdev cfg;
              let cmd = pci_read16 cfg (pbus pdev) (pdevice pdev) (pfunction pdev) PCI_COMMAND;
              let cfg = pci_write16 wr (pbus pdev) (pdevice pdev) (pfunction pdev) PCI_COMMAND (cmd OR 0x0002) cfg;
              let (p2, s) = read_caps hc s;
              (ok, s) \<leftarrow> halt_and_reset hc s;
              if \<not> ok then Some (-1, cfg, s)
              else do {
                s \<leftarrow> setup_rings hc p2 s;
                (ok, s) \<leftarrow> wait_bits_clear hc (op_base s + 4) 1 50 (wr32 hc (op_base s) 1 s);
                if \<not> ok then Some (-1, cfg, s)
                else do {
                  s \<leftarrow> enumerate_ports (unat (max_ports s)) 1 hc desc (s\<lparr>initialised := True\<rparr>);
                  Some (0, cfg, s) } } })"

definition xhci_available :: "('d, 'a) xhci_scheme \<Rightarrow> bool" where
  "xhci_available s = initialised s"

definition xhci_device_count :: "('d, 'a) xhci_scheme \<Rightarrow> nat" where
  "xhci_device_count s = device_count s"

definition xhci_get_device :: "int \<Rightarrow> ('d, 'a) xhci_scheme \<Rightarrow> XhciUsbDevice option" where
  "xhci_get_device index s = (if index < 0 \<or> int (device_count s) \<le> index then None else Some (usb_devices s ! nat index))"

definition speed_str :: "u8 \<Rightarrow> string" where
  "speed_str speed = (if speed = 2 then ''1.5 Mbps'' else if speed = 1 then ''12 Mbps'' else if speed = 3 then ''480 Mbps''
     else if speed = 4 then ''5 Gbps'' else ''unknown'')"

definition class_str :: "u8 \<Rightarrow> string" where
  "class_str cls = (case map_of [(0x00, ''per-interface''), (0x01, ''Audio''), (0x02, ''CDC''), (0x03, ''HID''), (0x05, ''Physical''),
       (0x06, ''Image''), (0x07, ''Printer''), (0x08, ''Mass Storage''), (0x09, ''Hub''), (0x0A, ''CDC-Data''), (0x0E, ''Video''),
       (0x0F, ''Personal Healthcare''), (0xE0, ''Wireless''), (0xEF, ''Misc''), (0xFE, ''App-Specific''), (0xFF, ''Vendor-Specific'')] cls of
     Some n \<Rightarrow> n | None \<Rightarrow> ''Unknown'')"

section \<open>Memory of a ring\<close>

lemma bit_load_le:
  "bit (load_le n m a :: 'a::len word) k \<longleftrightarrow> k < LENGTH('a) \<and> k < 8 * n \<and> bit (m (a + of_nat (k div 8))) (k mod 8)"
proof (induction n)
  case (Suc n)
  have "load_le (Suc n) m a = (load_le n m a OR push_bit (8 * n) (ucast (m (a + of_nat n))) :: 'a word)" by (simp add: load_le_def)
  moreover have "k div 8 = n \<and> k mod 8 = k - 8 * n" if "8 * n \<le> k" "k < 8 * Suc n"
  proof -
    have "k = n * 8 + (k - 8 * n)" using that(1) by simp
    moreover have "k - 8 * n < 8" using that by (simp add: less_diff_conv2)
    ultimately have "k = n * 8 + (k - 8 * n)" "k - 8 * n < 8" by blast+
    then show ?thesis by (metis add.commute add_0 div_less div_mult_self1 mod_less mod_mult_self1 zero_neq_numeral)
  qed
  moreover have "k - 8 * n < 8" if "bit (m (a + of_nat n)) (k - 8 * n)" by (rule order.strict_trans2 [OF bit_imp_le_length [OF that]]) simp
  ultimately show ?case using Suc.IH by (auto simp: bit_simps)
qed (simp add: load_le_def)

lemma ld_st_same [simp]: "ld32 (st32 m a v) a = v"
proof (rule bit_word_eqI)
  fix k assume "k < LENGTH(32)"
  then have k: "k < 32" by simp
  then have d: "k div 8 < 4" by simp
  have "unat (of_nat (k div 8) :: u64) = k div 8" using d by (subst unat_of_nat_u64) simp_all
  then show "bit (ld32 (st32 m a v) a) k = bit v k" using k d by (simp add: bit_load_le store_le_def within_def bit_simps)
qed

definition cell :: "ptr \<Rightarrow> nat \<Rightarrow> ptr" where
  "cell base k = base + of_nat k"

lemma ld_st_offset:
  assumes "p < 2 ^ 32" and "q < 2 ^ 32" and "q + 4 \<le> p \<or> p + 4 \<le> q"
  shows "ld32 (st32 m (cell base q) v) (cell base p) = ld32 m (cell base p)"
  unfolding cell_def
proof (rule load_le_cong)
  fix i :: nat assume i: "i < 4"
  have "unat (of_nat (p + i) :: u64) = p + i" by (rule unat_of_nat_u64) (use assms i in simp)
  moreover have "unat (of_nat q :: u64) = q" by (rule unat_of_nat_u64) (use assms in simp)
  ultimately have "4 \<le> unat (of_nat (p + i) - of_nat q :: u64)" using assms i by (simp only: unat_sub_if') (auto split: if_splits)
  moreover have "base + of_nat p + of_nat i - (base + of_nat q) = (of_nat (p + i) - of_nat q :: u64)" by simp
  ultimately have "\<not> within (base + of_nat q) 4 (base + of_nat p + of_nat i)" unfolding within_def by (simp only: not_less)
  then show "st32 m (base + of_nat q) v (base + of_nat p + of_nat i) = m (base + of_nat p + of_nat i)" by (rule store_le_other)
qed

lemma trb_fields:
  "trb_addr base i + 4 = cell base (16 * i + 4)" "trb_addr base i + 8 = cell base (16 * i + 8)"
  "trb_addr base i + 12 = cell base (16 * i + 12)"
  and trb_cell: "trb_addr base i = cell base (16 * i)"
  by (simp_all add: trb_addr_def cell_def)

lemma get_put_same:
  assumes "i < 100"
  shows "get_trb (trb_addr base i) (put_trb (trb_addr base i) t m) = t"
  using assms unfolding get_trb_def put_trb_def trb_fields unfolding trb_cell by (simp add: ld_st_offset)

lemma get_put_other:
  assumes "i < 100" and "j < 100" and "i \<noteq> j"
  shows "get_trb (trb_addr base j) (put_trb (trb_addr base i) t m) = get_trb (trb_addr base j) m"
proof -
  have o: "16 * i + a + 4 \<le> 16 * j + b \<or> 16 * j + b + 4 \<le> 16 * i + a" if "a \<le> 12" "b \<le> 12" for a b
    using assms(3) that by linarith
  show ?thesis
    unfolding get_trb_def put_trb_def trb_fields unfolding trb_cell using assms(1,2) o [of 0 0] o [of 0 4] o [of 0 8] o [of 0 12] o [of 4 0] o [of 4 4] o [of 4 8] o [of 4 12]
      o [of 8 0] o [of 8 4] o [of 8 8] o [of 8 12] o [of 12 0] o [of 12 4] o [of 12 8] o [of 12 12]
    by (simp add: ld_st_offset)
qed

lemma get_control_other:
  assumes "i < 100" and "j < 100" and "i \<noteq> j"
  shows "get_trb (trb_addr base j) (st32 m (trb_addr base i + 12) v) = get_trb (trb_addr base j) m"
proof -
  have o: "16 * i + 12 + 4 \<le> 16 * j + b \<or> 16 * j + b + 4 \<le> 16 * i + 12" if "b \<le> 12" for b
    using assms(3) that by linarith
  show ?thesis
    unfolding get_trb_def trb_fields unfolding trb_cell using assms(1,2) o [of 0] o [of 4] o [of 8] o [of 12]
    by (simp add: ld_st_offset)
qed

lemma get_control_same:
  assumes "i < 100"
  shows "get_trb (trb_addr base i) (st32 m (trb_addr base i + 12) v) = (get_trb (trb_addr base i) m)\<lparr>control := v\<rparr>"
  unfolding get_trb_def trb_fields unfolding trb_cell using assms by (simp add: ld_st_offset)

lemma control_get: "ld32 m (a + 12) = control (get_trb a m)"
  by (simp add: get_trb_def)

section \<open>The consumer of a ring\<close>

text \<open>
  How the controller reads a ring: at a link with the cycle bit it expects it goes on at the address in the link, and flips the bit it expects if the
  link says so; a request block is taken when its cycle bit is the expected one.
\<close>

definition link_target :: "XhciTrb \<Rightarrow> ptr" where
  "link_target t = (ucast (param_lo t) OR push_bit 32 (ucast (param_hi t))) AND NOT 15"

definition hop :: "mem \<Rightarrow> ptr \<times> u32 \<Rightarrow> ptr \<times> u32" where
  "hop m pos =
     (let (a, c) = pos; t = get_trb a m
      in if trb_type (control t) = TRB_LINK \<and> control t AND 1 = c then (link_target t, if control t AND 2 \<noteq> 0 then c XOR 1 else c) else (a, c))"

definition fetch :: "mem \<Rightarrow> ptr \<times> u32 \<Rightarrow> (XhciTrb \<times> ptr \<times> u32) option" where
  "fetch m pos = (let (a, c) = hop m pos; t = get_trb a m in if control t AND 1 = c then Some (t, a + 16, c) else None)"

definition trb_ring_ok :: "nat \<Rightarrow> ptr \<Rightarrow> nat \<Rightarrow> u32 \<Rightarrow> mem \<Rightarrow> bool" where
  "trb_ring_ok sz base enq cycle m \<longleftrightarrow> 3 \<le> sz \<and> sz \<le> 64 \<and> enq < sz - 1 \<and> (cycle = 0 \<or> cycle = 1)
     \<and> (let l = get_trb (trb_addr base (sz - 1)) m in link_target l = base \<and> trb_type (control l) = TRB_LINK \<and> control l AND 2 \<noteq> 0)
     \<and> (\<forall>j < sz - 1. control (get_trb (trb_addr base j) m) AND 1 = (if j < enq then cycle else cycle XOR 1))"

text \<open>Where a consumer that has taken everything stands: at the next entry, or still at the link before it.\<close>

definition caught_up :: "nat \<Rightarrow> ptr \<Rightarrow> nat \<Rightarrow> u32 \<Rightarrow> mem \<Rightarrow> ptr \<times> u32 \<Rightarrow> bool" where
  "caught_up sz base enq cycle m pos \<longleftrightarrow> pos = (trb_addr base enq, cycle)
     \<or> enq = 0 \<and> pos = (trb_addr base (sz - 1), cycle XOR 1) \<and> control (get_trb (trb_addr base (sz - 1)) m) AND 1 = cycle XOR 1"

lemma cycle_bits:
  assumes "cycle = 0 \<or> cycle = (1 :: u32)"
  shows "((w AND NOT 1) OR cycle) AND 1 = cycle" "trb_type ((w AND NOT 1) OR cycle) = trb_type w" "((w AND NOT 1) OR cycle) AND 2 = w AND 2"
    "cycle XOR 1 \<noteq> cycle" "(cycle XOR 1) XOR 1 = cycle" "cycle XOR 1 = 0 \<or> cycle XOR 1 = 1"
proof -
  define x where "x = (w AND NOT 1) OR cycle"
  have c: "bit cycle k \<longleftrightarrow> k = 0 \<and> cycle = 1" for k using assms by (auto simp: bit_1_iff)
  have x: "bit x k \<longleftrightarrow> (if k = 0 then cycle = 1 else bit w k)" for k
    unfolding x_def bit_or_iff bit_and_iff bit_not_iff c using bit_imp_le_length [of w k] by (cases k) (auto simp: bit_1_iff)
  have "x AND 1 = cycle" using assms by (intro bit_word_eqI) (auto simp: bit_and_iff x bit_1_iff)
  moreover have "drop_bit 10 x = drop_bit 10 w" by (rule bit_word_eqI) (simp add: bit_drop_bit_eq x)
  moreover have "x AND 2 = w AND 2"
  proof (rule bit_word_eqI)
    fix k
    have "\<not> bit (2 :: u32) 0" by simp
    then show "bit (x AND 2) k = bit (w AND 2) k" unfolding bit_and_iff x by auto
  qed
  ultimately show "((w AND NOT 1) OR cycle) AND 1 = cycle" "trb_type ((w AND NOT 1) OR cycle) = trb_type w" "((w AND NOT 1) OR cycle) AND 2 = w AND 2"
    unfolding trb_type_def x_def [symmetric] by simp_all
  show "cycle XOR 1 \<noteq> cycle" "(cycle XOR 1) XOR 1 = cycle" "cycle XOR 1 = 0 \<or> cycle XOR 1 = 1" using assms by auto
qed

lemma fetch_entry:
  assumes "trb_type (control (get_trb a m)) \<noteq> TRB_LINK \<or> control (get_trb a m) AND 1 \<noteq> c"
  shows "fetch m (a, c) = (if control (get_trb a m) AND 1 = c then Some (get_trb a m, a + 16, c) else None)"
  using assms by (auto simp: fetch_def hop_def Let_def)

lemma next_addr: "trb_addr base i + 16 = trb_addr base (i + 1)"
  by (simp add: trb_addr_def algebra_simps)

text \<open>A push keeps the ring well formed, and a consumer that had caught up takes exactly the pushed block and has then caught up again.\<close>

lemma ring_push_ok:
  assumes "trb_ring_ok sz base enq cycle m" and "ring_push sz base enq cycle trb m = (m', enq', cycle')"
  shows "trb_ring_ok sz base enq' cycle' m'" "get_trb (trb_addr base enq) m' = set_cycle cycle trb"
    "enq' = (if enq + 1 = sz - 1 then 0 else enq + 1)" "cycle' = (if enq + 1 = sz - 1 then cycle XOR 1 else cycle)"
    "enq + 1 = sz - 1 \<Longrightarrow> control (get_trb (trb_addr base (sz - 1)) m') AND 1 = cycle"
    "enq + 1 \<noteq> sz - 1 \<Longrightarrow> get_trb (trb_addr base (sz - 1)) m' = get_trb (trb_addr base (sz - 1)) m"
proof -
  have r: "3 \<le> sz" "sz \<le> 64" "enq < sz - 1" "cycle = 0 \<or> cycle = 1"
    "link_target (get_trb (trb_addr base (sz - 1)) m) = base" "trb_type (control (get_trb (trb_addr base (sz - 1)) m)) = TRB_LINK"
    "control (get_trb (trb_addr base (sz - 1)) m) AND 2 \<noteq> 0"
    "\<And>j. j < sz - 1 \<Longrightarrow> control (get_trb (trb_addr base j) m) AND 1 = (if j < enq then cycle else cycle XOR 1)"
    using assms(1) unfolding trb_ring_ok_def Let_def by auto
  note cb = cycle_bits [OF r(4)]
  define m1 where "m1 = put_trb (trb_addr base enq) (set_cycle cycle trb) m"
  have b: "enq < 100" "sz - 1 < 100" "enq \<noteq> sz - 1" using r(2,3) by auto
  have e1: "get_trb (trb_addr base enq) m1 = set_cycle cycle trb" unfolding m1_def by (rule get_put_same [OF b(1)])
  have o1: "get_trb (trb_addr base j) m1 = get_trb (trb_addr base j) m" if "j < 100" "j \<noteq> enq" for j
    unfolding m1_def using get_put_other [OF b(1)] that by blast
  have c1: "control (get_trb (trb_addr base j) m1) AND 1 = (if j < enq + 1 then cycle else cycle XOR 1)" if "j < sz - 1" for j
  proof (cases "j = enq")
    case True
    then show ?thesis unfolding True e1 set_cycle_def using cb(1) by simp
  next
    case False
    then show ?thesis using o1 [of j] r(2) r(8) [OF that] that by auto
  qed
  have l1: "get_trb (trb_addr base (sz - 1)) m1 = get_trb (trb_addr base (sz - 1)) m" using o1 b by blast
  let ?goal = "trb_ring_ok sz base enq' cycle' m' \<and> get_trb (trb_addr base enq) m' = set_cycle cycle trb
    \<and> enq' = (if enq + 1 = sz - 1 then 0 else enq + 1) \<and> cycle' = (if enq + 1 = sz - 1 then cycle XOR 1 else cycle)
    \<and> (enq + 1 = sz - 1 \<longrightarrow> control (get_trb (trb_addr base (sz - 1)) m') AND 1 = cycle)
    \<and> (enq + 1 \<noteq> sz - 1 \<longrightarrow> get_trb (trb_addr base (sz - 1)) m' = get_trb (trb_addr base (sz - 1)) m)"
  have ?goal
  proof (cases "enq + 1 = sz - 1")
    case True
    define l where "l = control (get_trb (trb_addr base (sz - 1)) m)"
    have m': "m' = st32 m1 (trb_addr base (sz - 1) + 12) ((l AND NOT 1) OR cycle)" "enq' = 0" "cycle' = cycle XOR 1"
      using assms(2) True unfolding ring_push_def Let_def m1_def [symmetric] control_get l1 l_def [symmetric] by auto
    have o2: "get_trb (trb_addr base j) m' = get_trb (trb_addr base j) m1" if "j < sz - 1" for j
      unfolding m'(1) using get_control_other [OF b(2)] that b(2) by simp
    have l2: "get_trb (trb_addr base (sz - 1)) m' = (get_trb (trb_addr base (sz - 1)) m)\<lparr>control := (l AND NOT 1) OR cycle\<rparr>"
      unfolding m'(1) get_control_same [OF b(2)] l1 ..
    have "link_target ((get_trb (trb_addr base (sz - 1)) m)\<lparr>control := x\<rparr>) = base" for x using r(5) by (simp add: link_target_def)
    moreover have "trb_type ((l AND NOT 1) OR cycle) = TRB_LINK" "((l AND NOT 1) OR cycle) AND 2 \<noteq> 0"
      using r(6,7) unfolding cb(2,3) l_def by blast+
    moreover have "control (get_trb (trb_addr base j) m') AND 1 = cycle" if "j < sz - 1" for j
      using c1 [OF that] o2 [OF that] True that by simp
    ultimately have "trb_ring_ok sz base 0 (cycle XOR 1) m'"
      unfolding trb_ring_ok_def Let_def l2 using r(1,2) cb(5,6) by simp
    then show ?thesis unfolding m'(2,3) l2 using True cb(1) o2 [OF r(3)] e1 by simp
  next
    case False
    then have m': "m' = m1" "enq' = enq + 1" "cycle' = cycle"
      using assms(2) r(3) unfolding ring_push_def Let_def m1_def [symmetric] by auto
    have "trb_ring_ok sz base (enq + 1) cycle m1"
      unfolding trb_ring_ok_def Let_def l1 using r(1-7) c1 False by auto
    then show ?thesis unfolding m' using False e1 l1 by simp
  qed
  then show "trb_ring_ok sz base enq' cycle' m'" "get_trb (trb_addr base enq) m' = set_cycle cycle trb"
    "enq' = (if enq + 1 = sz - 1 then 0 else enq + 1)" "cycle' = (if enq + 1 = sz - 1 then cycle XOR 1 else cycle)"
    "enq + 1 = sz - 1 \<Longrightarrow> control (get_trb (trb_addr base (sz - 1)) m') AND 1 = cycle"
    "enq + 1 \<noteq> sz - 1 \<Longrightarrow> get_trb (trb_addr base (sz - 1)) m' = get_trb (trb_addr base (sz - 1)) m" by blast+
qed

lemma caught_up_empty:
  assumes "trb_ring_ok sz base enq cycle m" and "caught_up sz base enq cycle m pos"
  shows "fetch m pos = None"
proof -
  have r: "enq < sz - 1" "cycle = 0 \<or> cycle = 1"
    "link_target (get_trb (trb_addr base (sz - 1)) m) = base" "trb_type (control (get_trb (trb_addr base (sz - 1)) m)) = TRB_LINK"
    "control (get_trb (trb_addr base (sz - 1)) m) AND 2 \<noteq> 0"
    "\<And>j. j < sz - 1 \<Longrightarrow> control (get_trb (trb_addr base j) m) AND 1 = (if j < enq then cycle else cycle XOR 1)"
    using assms(1) unfolding trb_ring_ok_def Let_def by auto
  note cb = cycle_bits [OF r(2)]
  have n: "control (get_trb (trb_addr base enq) m) AND 1 \<noteq> cycle" using r(6) [OF r(1)] cb(4) by simp
  have z: "trb_addr base 0 = base" by (simp add: trb_addr_def)
  show ?thesis
    using assms(2) n r(3,4,5) z cb(5) fetch_entry [of "trb_addr base enq" m cycle]
    unfolding caught_up_def by (auto simp: fetch_def hop_def)
qed

lemma push_then_fetch:
  assumes "trb_ring_ok sz base enq cycle m" and "caught_up sz base enq cycle m pos" and "trb_type (control trb) \<noteq> TRB_LINK"
    and "ring_push sz base enq cycle trb m = (m', enq', cycle')"
  shows "\<exists>pos'. fetch m' pos = Some (set_cycle cycle trb, pos') \<and> caught_up sz base enq' cycle' m' pos'"
proof -
  note p = ring_push_ok [OF assms(1,4)]
  have r: "3 \<le> sz" "cycle = 0 \<or> cycle = 1"
    "link_target (get_trb (trb_addr base (sz - 1)) m) = base" "trb_type (control (get_trb (trb_addr base (sz - 1)) m)) = TRB_LINK"
    "control (get_trb (trb_addr base (sz - 1)) m) AND 2 \<noteq> 0"
    using assms(1) unfolding trb_ring_ok_def Let_def by auto
  note cb = cycle_bits [OF r(2)]
  have z: "trb_addr base 0 = base" by (simp add: trb_addr_def)
  have c: "control (set_cycle cycle trb) AND 1 = cycle" "trb_type (control (set_cycle cycle trb)) \<noteq> TRB_LINK"
    using cb(1,2) assms(3) by (simp_all add: set_cycle_def)
  have f: "fetch m' (trb_addr base enq, cycle) = Some (set_cycle cycle trb, trb_addr base (enq + 1), cycle)"
    using fetch_entry [of "trb_addr base enq" m' cycle] c unfolding p(2) next_addr by simp
  have "fetch m' pos = fetch m' (trb_addr base enq, cycle)"
  proof (cases "pos = (trb_addr base enq, cycle)")
    case False
    then have q: "enq = 0" "pos = (trb_addr base (sz - 1), cycle XOR 1)" "control (get_trb (trb_addr base (sz - 1)) m) AND 1 = cycle XOR 1"
      using assms(2) by (auto simp: caught_up_def)
    have l: "get_trb (trb_addr base (sz - 1)) m' = get_trb (trb_addr base (sz - 1)) m" using p(6) q(1) r(1) by auto
    have "hop m' pos = (base, cycle)" unfolding hop_def q(2) using l q(3) r(3-5) cb(5) by simp
    moreover have "hop m' (trb_addr base enq, cycle) = (base, cycle)"
      unfolding hop_def using p(2) c(2) q(1) z by simp
    ultimately show ?thesis by (simp add: fetch_def)
  qed simp
  moreover have "caught_up sz base enq' cycle' m' (trb_addr base (enq + 1), cycle)"
    using p(3,4,5) cb(5) by (auto simp: caught_up_def)
  ultimately show ?thesis using f by auto
qed

section \<open>The command ring\<close>

lemma ld32_zero:
  assumes "q + 4 \<le> unat n"
  shows "ld32 (memset m r 0 n) (r + of_nat q) = 0"
proof -
  have "ld32 (memset m r 0 n) (r + of_nat q) = ld32 (\<lambda>_. 0) (r + of_nat q)"
  proof (rule load_le_cong)
    fix i :: nat assume i: "i < 4"
    have "q + i < unat n" using assms i by linarith
    moreover from this have "unat (of_nat (q + i) :: u64) = q + i" using unat_lt_u64 [of n] by (intro unat_of_nat_u64) linarith
    moreover have "r + of_nat q + of_nat i - r = (of_nat (q + i) :: u64)" by simp
    ultimately have "within r (unat n) (r + of_nat q + of_nat i)" unfolding within_def by (simp only:)
    then show "memset m r 0 n (r + of_nat q + of_nat i) = 0" by (simp add: memset_def memset_loop_apply)
  qed
  also have "\<dots> = 0" by (rule bit_word_eqI) (simp add: bit_load_le)
  finally show ?thesis .
qed

lemma link_target_self:
  assumes "r AND 15 = (0 :: u64)"
  shows "link_target \<lparr>param_lo = ucast r, param_hi = ucast (drop_bit 32 r), status = st, control = c\<rparr> = r"
proof -
  have j: "ucast (ucast r :: u32) OR push_bit 32 (ucast (ucast (drop_bit 32 r) :: u32)) = r"
    by (rule bit_word_eqI) (auto simp: bit_or_iff bit_push_bit_iff bit_ucast_iff bit_drop_bit_eq)
  have "(r AND 15) OR (r AND NOT 15) = r" by (simp only: bit.conj_disj_distrib [symmetric] bit.disj_cancel_right and.right_neutral)
  then have "r AND NOT 15 = r" unfolding assms by simp
  then show ?thesis by (simp only: link_target_def XhciTrb.simps j)
qed

lemma kmalloc_aligned_low_bits:
  assumes "kmalloc_aligned sz 64 s = Some (r, s')"
  shows "r AND 15 = 0"
proof -
  have "(x AND NOT 63) AND 15 = (0 :: u64)" for x by (simp add: and.assoc)
  then show ?thesis using assms unfolding kmalloc_aligned_def
    by (auto simp: Let_def split: if_splits Option.bind_splits)
qed

lemma cmd_ring_init_ok:
  assumes "cmd_ring_init s = Some s'"
  shows "trb_ring_ok CMD_RING_SIZE (cmd_ring s') (cmd_enq s') (cmd_cycle s') (memory s')" "cmd_enq s' = 0" "cmd_cycle s' = 1"
proof -
  obtain r s1 where k: "kmalloc_aligned 1024 64 s = Some (r, s1)"
    using assms by (auto simp: cmd_ring_init_def split: Option.bind_splits)
  define l where "l = \<lparr>param_lo = ucast r, param_hi = ucast (drop_bit 32 r), status = 0, control = TRB_TYPE TRB_LINK OR 2 OR 1\<rparr>"
  define m where "m = memset (memory s1) r 0 1024"
  have s': "cmd_ring s' = r" "cmd_enq s' = 0" "cmd_cycle s' = 1" "memory s' = put_trb (trb_addr r 63) l m"
    using assms k unfolding l_def m_def by (auto simp: cmd_ring_init_def)
  have g: "get_trb (trb_addr r 63) (put_trb (trb_addr r 63) l m) = l" by (rule get_put_same) simp
  have "control (get_trb (trb_addr r j) (put_trb (trb_addr r 63) l m)) = 0" if "j < 63" for j
  proof -
    have "get_trb (trb_addr r j) (put_trb (trb_addr r 63) l m) = get_trb (trb_addr r j) m"
      by (rule get_put_other) (use that in simp_all)
    moreover have "ld32 m (trb_addr r j + 12) = 0"
      using ld32_zero [of "16 * j + 12" 1024 "memory s1" r] that unfolding m_def trb_fields cell_def by simp
    ultimately show ?thesis by (simp add: control_get)
  qed
  moreover have "link_target l = r" unfolding l_def by (rule link_target_self [OF kmalloc_aligned_low_bits [OF k]])
  ultimately have "trb_ring_ok 64 r 0 1 (put_trb (trb_addr r 63) l m)"
    unfolding trb_ring_ok_def Let_def by (simp add: g) (simp add: l_def trb_type_def TRB_TYPE_def)
  then show "trb_ring_ok CMD_RING_SIZE (cmd_ring s') (cmd_enq s') (cmd_cycle s') (memory s')" "cmd_enq s' = 0" "cmd_cycle s' = 1"
    unfolding s' by simp_all
qed

text \<open>A sequence of commands, with a controller that takes one block after each push.\<close>

primrec serve :: "ptr \<times> u32 \<Rightarrow> XhciTrb list \<Rightarrow> ('d, 'a) xhci_scheme \<Rightarrow> XhciTrb list" where
  "serve pos [] s = []"
| "serve pos (t # ts) s =
     (let s = cmd_ring_push t s in case fetch (memory s) pos of None \<Rightarrow> [] | Some (x, pos) \<Rightarrow> x # serve pos ts s)"

lemma cmd_ring_push_ok:
  assumes "trb_ring_ok CMD_RING_SIZE (cmd_ring s) (cmd_enq s) (cmd_cycle s) (memory s)"
    and "caught_up CMD_RING_SIZE (cmd_ring s) (cmd_enq s) (cmd_cycle s) (memory s) pos" and "trb_type (control t) \<noteq> TRB_LINK"
  shows "\<exists>pos'. fetch (memory (cmd_ring_push t s)) pos = Some (set_cycle (cmd_cycle s) t, pos')
      \<and> trb_ring_ok CMD_RING_SIZE (cmd_ring (cmd_ring_push t s)) (cmd_enq (cmd_ring_push t s)) (cmd_cycle (cmd_ring_push t s)) (memory (cmd_ring_push t s))
      \<and> caught_up CMD_RING_SIZE (cmd_ring (cmd_ring_push t s)) (cmd_enq (cmd_ring_push t s)) (cmd_cycle (cmd_ring_push t s)) (memory (cmd_ring_push t s)) pos'"
proof -
  obtain m' e c where p: "ring_push CMD_RING_SIZE (cmd_ring s) (cmd_enq s) (cmd_cycle s) t (memory s) = (m', e, c)"
    by (metis prod_cases3)
  then have "cmd_ring_push t s = s\<lparr>memory := m', cmd_enq := e, cmd_cycle := c\<rparr>" by (simp add: cmd_ring_push_def)
  then show ?thesis using push_then_fetch [OF assms p] ring_push_ok(1) [OF assms(1) p] by simp
qed

lemma set_cycle_twice: "set_cycle 0 (set_cycle c t) = set_cycle 0 t" if "c = 0 \<or> c = 1"
proof -
  have "((w AND NOT 1) OR c) AND NOT 1 = w AND NOT 1" for w :: u32
  proof -
    have "c AND NOT 1 = 0" using that by auto
    then show ?thesis by (simp only: bit.conj_disj_distrib2 and.assoc and.idem or.right_neutral)
  qed
  then show ?thesis by (simp add: set_cycle_def)
qed

lemma serve_all:
  assumes "trb_ring_ok CMD_RING_SIZE (cmd_ring s) (cmd_enq s) (cmd_cycle s) (memory s)"
    and "caught_up CMD_RING_SIZE (cmd_ring s) (cmd_enq s) (cmd_cycle s) (memory s) pos"
    and "\<forall>t \<in> set ts. trb_type (control t) \<noteq> TRB_LINK"
  shows "map (set_cycle 0) (serve pos ts s) = map (set_cycle 0) ts"
  using assms
proof (induction ts arbitrary: s pos)
  case (Cons t ts)
  obtain pos' where p: "fetch (memory (cmd_ring_push t s)) pos = Some (set_cycle (cmd_cycle s) t, pos')"
    "trb_ring_ok CMD_RING_SIZE (cmd_ring (cmd_ring_push t s)) (cmd_enq (cmd_ring_push t s)) (cmd_cycle (cmd_ring_push t s)) (memory (cmd_ring_push t s))"
    "caught_up CMD_RING_SIZE (cmd_ring (cmd_ring_push t s)) (cmd_enq (cmd_ring_push t s)) (cmd_cycle (cmd_ring_push t s)) (memory (cmd_ring_push t s)) pos'"
    using cmd_ring_push_ok [OF Cons.prems(1,2)] Cons.prems(3) by force
  have "cmd_cycle s = 0 \<or> cmd_cycle s = 1" using Cons.prems(1) by (simp add: trb_ring_ok_def)
  then show ?case using Cons.IH [OF p(2,3)] Cons.prems(3) p(1) set_cycle_twice by (simp add: Let_def)
qed simp

text \<open>C35: the command ring delivers.  With the heap in order \<open>cmd_ring_init\<close> returns, and a controller that starts at the ring with cycle bit 1, follows links and
  cycle bits, and takes one block after each \<open>cmd_ring_push\<close> receives every command, in order and unchanged but for the cycle bit, however many laps of
  the ring they take; before the first push it finds the ring empty.\<close>

theorem commands_delivered:
  assumes "heap_rep s bs" and "\<forall>t \<in> set ts. trb_type (control t) \<noteq> TRB_LINK"
  shows "\<exists>s'. cmd_ring_init s = Some s' \<and> map (set_cycle 0) (serve (cmd_ring s', 1) ts s') = map (set_cycle 0) ts
    \<and> fetch (memory s') (cmd_ring s', 1) = None"
proof -
  have "\<exists>p s1. kmalloc_aligned 1024 64 s = Some (p, s1)" using kmalloc_aligned_spec [OF assms(1), of 1024 6] by auto
  then obtain s' where s': "cmd_ring_init s = Some s'" by (auto simp: cmd_ring_init_def)
  note i = cmd_ring_init_ok [OF s']
  have "caught_up CMD_RING_SIZE (cmd_ring s') (cmd_enq s') (cmd_cycle s') (memory s') (cmd_ring s', 1)"
    unfolding caught_up_def i(2,3) by (simp add: trb_addr_def)
  then show ?thesis using s' serve_all [OF i(1) _ assms(2)] caught_up_empty [OF i(1)] by blast
qed

definition sample_xhci :: "nat xhci" where
  "sample_xhci = sched.extend (sample_sched [] 1 0) \<lparr>initialised = False, mmio_base = 0, op_base = 0, rt_base = 0, db_base = 0, max_slots = 0, max_ports = 0,
     ctx_size = 32, cmd_ring = 0, cmd_enq = 0, cmd_cycle = 0, evt_ring = 0x30000, erst = 0, evt_deq = 0, evt_cycle = 1, dcbaa = 0, usb_devices = [], device_count = 0,
     slots = [], hw = 0\<rparr>"

lemma sample_xhci_heap: "heap_rep sample_xhci sample_blocks"
  using sample_heap_rep
  by (simp add: heap_rep_def pmm_inv_def free_set_def sample_xhci_def sched.defs sample_sched_def heap.defs)

theorem commands_delivered_witness:
  "\<exists>s'. cmd_ring_init sample_xhci = Some s' \<and> map (set_cycle 0) (serve (cmd_ring s', 1) (replicate 200 (zero_trb\<lparr>control := TRB_TYPE 23\<rparr>)) s')
    = replicate 200 (zero_trb\<lparr>control := TRB_TYPE 23\<rparr>)"
proof -
  let ?t = "zero_trb\<lparr>control := TRB_TYPE 23\<rparr>"
  have t: "trb_type (control ?t) \<noteq> TRB_LINK" "set_cycle 0 ?t = ?t" by (simp_all add: trb_type_def TRB_TYPE_def set_cycle_def zero_trb_def)
  have "\<forall>t \<in> set (replicate 200 ?t). trb_type (control t) \<noteq> TRB_LINK" using t(1) by simp
  from commands_delivered [OF sample_xhci_heap this] show ?thesis using t(2) by (auto simp: map_replicate)
qed

section \<open>Waiting for events\<close>

text \<open>What the driver relies on of the clock: it reaches every deadline, and \<open>left\<close> bounds how many readings that takes.\<close>

definition advances :: "'d hc \<Rightarrow> (u64 \<Rightarrow> 'd \<times> mem \<Rightarrow> nat) \<Rightarrow> bool" where
  "advances hc left \<longleftrightarrow> (\<forall>x t. fst (clock hc x) < t \<longrightarrow> left t (snd (clock hc x)) < left t x)"

lemma wr64_frame: "evt_deq (wr64 hc a v s) = evt_deq s" "evt_cycle (wr64 hc a v s) = evt_cycle s" "evt_ring (wr64 hc a v s) = evt_ring s"
  by (simp_all add: wr64_def wr32_def case_prod_beta)

lemma read_clock_frame:
  "evt_deq (snd (read_clock hc s)) = evt_deq s" "evt_cycle (snd (read_clock hc s)) = evt_cycle s" "evt_ring (snd (read_clock hc s)) = evt_ring s"
  by (simp_all add: read_clock_def case_prod_beta)

lemma evt_taken_step:
  "evt_deq (evt_taken hc s) = (if 63 \<le> evt_deq s then 0 else evt_deq s + 1)"
  "evt_cycle (evt_taken hc s) = (if 63 \<le> evt_deq s then evt_cycle s XOR 1 else evt_cycle s)"
  by (simp_all add: evt_taken_def Let_def wr64_frame)

definition event_or_timeout :: "ptr \<Rightarrow> ('d, 'a) xhci_scheme \<Rightarrow> ('d, 'a) xhci_scheme \<Rightarrow> bool" where
  "event_or_timeout trb s s' \<longleftrightarrow>
     (if trb = NULL \<and> evt_deq s' = evt_deq s then evt_cycle s' = evt_cycle s
      else trb = trb_addr (evt_ring s) (evt_deq s) \<and> evt_deq s' = (if 63 \<le> evt_deq s then 0 else evt_deq s + 1)
        \<and> evt_cycle s' = (if 63 \<le> evt_deq s then evt_cycle s XOR 1 else evt_cycle s))"

lemma evt_wait_ends:
  assumes "advances hc left"
  shows "\<exists>trb s'. evt_wait hc t s = Some (trb, s') \<and> event_or_timeout trb s s'"
proof (induction "left t (hw s, memory s)" arbitrary: s rule: less_induct)
  case less
  define s1 where "s1 = snd (read_clock hc s)"
  have r: "read_clock hc s = (fst (clock hc (hw s, memory s)), s1)" "(hw s1, memory s1) = snd (clock hc (hw s, memory s))"
    by (simp_all add: s1_def read_clock_def case_prod_beta)
  note f = read_clock_frame [of hc s, folded s1_def]
  show ?case
  proof (cases "fst (clock hc (hw s, memory s)) < t \<and> ld32 (memory s1) (trb_addr (evt_ring s1) (evt_deq s1) + 12) AND 1 \<noteq> evt_cycle s1")
    case True
    then have "left t (hw s1, memory s1) < left t (hw s, memory s)" using assms unfolding r(2) advances_def by blast
    from less [OF this] have "\<exists>trb s'. evt_wait hc t s1 = Some (trb, s') \<and> event_or_timeout trb s s'"
      unfolding event_or_timeout_def f .
    moreover have "evt_wait hc t s = evt_wait hc t s1" by (subst evt_wait.simps) (use True in \<open>simp add: r(1) Let_def\<close>)
    ultimately show ?thesis by (simp only:)
  next
    case False
    then show ?thesis using f evt_taken_step [of hc s1]
      by (subst evt_wait.simps) (auto simp: r(1) Let_def event_or_timeout_def)
  qed
qed

lemma evt_ring_poll_ends:
  assumes "advances hc left"
  shows "\<exists>trb s'. evt_ring_poll hc ms s = Some (trb, s') \<and> event_or_timeout trb s s'"
  using evt_wait_ends [OF assms, of "fst (read_clock hc s) + ms div 10 + 1" "snd (read_clock hc s)"]
  unfolding evt_ring_poll_def Let_def case_prod_beta event_or_timeout_def read_clock_frame .

lemma byte_range: "uint (w AND 0xFF :: u32) \<le> 255"
proof -
  have "w AND 0xFF \<le> 0xFF" by (rule word_and_le1)
  then show ?thesis by (simp add: word_le_def)
qed

text \<open>C36: a command returns.  When the clock advances, \<open>cmd_send\<close> ends: with -1 and no event, or with a completion event and its completion code,
  whatever other events arrive and whatever the controller writes.\<close>

theorem cmd_send_returns:
  assumes "advances hc left"
  shows "\<exists>cc evt s'. cmd_send hc trb s = Some (cc, evt, s') \<and>
    (case evt of None \<Rightarrow> cc = -1
     | Some e \<Rightarrow> trb_type (control e) = TRB_CMD_COMPLETE \<and> cc = uint (drop_bit 24 (status e) AND 0xFF) \<and> 0 \<le> cc \<and> cc \<le> 255)"
proof -
  have "\<exists>cc evt s'. cmd_wait n hc s = Some (cc, evt, s') \<and>
    (case evt of None \<Rightarrow> cc = -1
     | Some e \<Rightarrow> trb_type (control e) = TRB_CMD_COMPLETE \<and> cc = uint (drop_bit 24 (status e) AND 0xFF) \<and> 0 \<le> cc \<and> cc \<le> 255)" for n s
  proof (induction n arbitrary: s)
    case (Suc n)
    obtain e s1 where p: "evt_ring_poll hc 1000 s = Some (e, s1)" using evt_ring_poll_ends [OF assms] by blast
    show ?case using Suc.IH [of s1] byte_range by (auto simp: p Let_def)
  qed simp
  then show ?thesis unfolding cmd_send_def by blast
qed

text \<open>A controller that never answers, with a clock that counts its readings.\<close>

definition silent_hc :: "nat hc" where
  "silent_hc = \<lparr>reg_read = (\<lambda>a x. (0, x)), reg_write = (\<lambda>a v x. x),
     clock = (\<lambda>(n, m). (of_nat (min n (2 ^ 64 - 1)), n + 1, m))\<rparr>"

lemma silent_advances: "advances silent_hc (\<lambda>t (n, m). unat t - n)"
proof -
  have "n < unat t" if "(of_nat (min n (2 ^ 64 - 1)) :: u64) < t" for n t
  proof -
    have "min n (2 ^ 64 - 1) < unat t"
      using that unfolding word_less_nat_alt by (subst (asm) unat_of_nat_u64) simp_all
    then show ?thesis using unat_lt_u64 [of t] by (simp add: min_def split: if_splits)
  qed
  then show ?thesis unfolding advances_def silent_hc_def by (auto simp: diff_less_mono2)
qed

theorem cmd_send_returns_witness:
  "\<exists>cc evt s'. cmd_send silent_hc (zero_trb\<lparr>control := TRB_TYPE TRB_ENABLE_SLOT\<rparr>) sample_xhci = Some (cc, evt, s') \<and> cc \<le> 255"
  using cmd_send_returns [OF silent_advances, of "zero_trb\<lparr>control := TRB_TYPE TRB_ENABLE_SLOT\<rparr>" sample_xhci]
  by (auto split: option.splits)

end
