(* ===== verification/Boot.thy ===== *)
theory Boot
  imports Pmm CString Console Bytes
begin

text \<open>
  The boot loader \<open>boot/main.c\<close>.  The firmware is an argument: what each boot service the loader calls returns and does to its state and
  to memory.  What the loader prints is left out.  \<open>efi_main\<close> gives the boot information with which it enters the kernel, or \<open>None\<close> where it halts.

  The lemmas: the memory map handed to the kernel has an entry for each of the first 256 descriptors of the firmware, with its pages, and those entries
  are usable whose type says that the memory is free once boot services have ended; and the kernel image and the space behind it that is
  allocated for it.
\<close>

unbundle bit_operations_syntax

datatype PixelFormat = PIXEL_FORMAT_RGBX | PIXEL_FORMAT_BGRX

record BootFramebuffer = Framebuffer +
  fb_format :: PixelFormat

record BootInfo =
  fb :: BootFramebuffer
  mmap_count :: u32
  mmap :: "MmapEntry list"
  kernel_phys_base :: u64
  kernel_size :: u64
  rsdp_address :: u64

text \<open>The mode of the graphics output protocol, as far as the loader reads it.\<close>

record gop_mode =
  FrameBufferBase :: u64
  HorizontalResolution :: u32
  VerticalResolution :: u32
  PixelsPerScanLine :: u32
  GopPixelFormat :: u32

record memory_map_result =
  mm_status :: u64
  mm_size :: u64
  mm_key :: u64
  mm_desc_size :: u64

record 'f boot_services =
  LocateProtocol :: "'f \<times> mem \<Rightarrow> (u64 \<times> gop_mode option) \<times> 'f \<times> mem"
  AllocatePages :: "u64 \<Rightarrow> ptr \<Rightarrow> 'f \<times> mem \<Rightarrow> u64 \<times> 'f \<times> mem"
  AllocatePool :: "u64 \<Rightarrow> 'f \<times> mem \<Rightarrow> (u64 \<times> ptr) \<times> 'f \<times> mem"
  GetMemoryMap :: "u64 \<Rightarrow> ptr \<Rightarrow> 'f \<times> mem \<Rightarrow> memory_map_result \<times> 'f \<times> mem"
  ExitBootServices :: "u64 \<Rightarrow> 'f \<times> mem \<Rightarrow> u64 \<times> 'f \<times> mem"

abbreviation (input) EFI_SUCCESS :: u64 where "EFI_SUCCESS \<equiv> 0"
abbreviation (input) KERNEL_LOAD_ADDR :: ptr where "KERNEL_LOAD_ADDR \<equiv> 0x100000"
abbreviation (input) BOOT_MMAP_MAX_ENTRIES :: nat where "BOOT_MMAP_MAX_ENTRIES \<equiv> 256"

section \<open>Framebuffer\<close>

definition init_gop :: "'f boot_services \<Rightarrow> BootFramebuffer \<Rightarrow> 'f \<times> mem \<Rightarrow> u64 \<times> BootFramebuffer \<times> 'f \<times> mem" where
  "init_gop bs f x =
     (let ((st, g), x) = LocateProtocol bs x
      in case g of
           None \<Rightarrow> (st, f, x)
         | Some g \<Rightarrow>
             if st \<noteq> EFI_SUCCESS then (st, f, x)
             else (EFI_SUCCESS,
               \<lparr>fb_base = FrameBufferBase g, fb_width = HorizontalResolution g, fb_height = VerticalResolution g,
                fb_pitch = PixelsPerScanLine g * 4, fb_format = (if GopPixelFormat g = 0 then PIXEL_FORMAT_RGBX else PIXEL_FORMAT_BGRX)\<rparr>, x))"

section \<open>Memory map\<close>

definition translate_efi_memory_type :: "u32 \<Rightarrow> MmapEntryType" where
  "translate_efi_memory_type t =
     (if t = 7 \<or> t = 3 \<or> t = 4 then MMAP_USABLE
      else if t = 1 \<or> t = 2 then MMAP_BOOTLOADER_RECLAIMABLE
      else if t = 9 then MMAP_ACPI_RECLAIMABLE
      else if t = 10 then MMAP_ACPI_NVS
      else if t = 8 then MMAP_BAD_MEMORY
      else MMAP_RESERVED)"

definition translate_descriptor :: "mem \<Rightarrow> ptr \<Rightarrow> MmapEntry" where
  "translate_descriptor m d =
     \<lparr>mbase = load64 m (d + 8), length_bytes = load64 m (d + 24) * 4096, mtype = translate_efi_memory_type (ld32 m d)\<rparr>"

text \<open>The loop fills at most 256 entries; its first argument counts those that are left.\<close>

primrec mmap_loop :: "nat \<Rightarrow> mem \<Rightarrow> ptr \<Rightarrow> u64 \<Rightarrow> u64 \<Rightarrow> u64 \<Rightarrow> BootInfo \<Rightarrow> BootInfo" where
  "mmap_loop 0 m efi_mmap off mmap_size desc_size info = info"
| "mmap_loop (Suc n) m efi_mmap off mmap_size desc_size info =
     (if off < mmap_size
      then mmap_loop n m efi_mmap (off + desc_size) mmap_size desc_size
        (info\<lparr>mmap := (mmap info)[unat (mmap_count info) := translate_descriptor m (efi_mmap + off)], mmap_count := mmap_count info + 1\<rparr>)
      else info)"

definition build_mmap :: "mem \<Rightarrow> ptr \<Rightarrow> u64 \<Rightarrow> u64 \<Rightarrow> BootInfo \<Rightarrow> BootInfo" where
  "build_mmap m efi_mmap mmap_size desc_size info =
     mmap_loop BOOT_MMAP_MAX_ENTRIES m efi_mmap 0 mmap_size desc_size (info\<lparr>mmap_count := 0\<rparr>)"

section \<open>Entry\<close>

definition zero_info :: BootInfo where
  "zero_info = \<lparr>fb = \<lparr>fb_base = 0, fb_width = 0, fb_height = 0, fb_pitch = 0, fb_format = PIXEL_FORMAT_RGBX\<rparr>, mmap_count = 0,
     mmap = replicate BOOT_MMAP_MAX_ENTRIES \<lparr>mbase = 0, length_bytes = 0, mtype = MMAP_USABLE\<rparr>,
     kernel_phys_base = 0, kernel_size = 0, rsdp_address = 0\<rparr>"

definition kernel_alloc_size :: "u64 \<Rightarrow> u64" where
  "kernel_alloc_size ks = (if ks < 0x40000 then 0x40000 else ks * 2)"

definition memory_map_again :: "'f boot_services \<Rightarrow> ptr \<Rightarrow> BootInfo \<Rightarrow> 'f \<times> mem \<Rightarrow> BootInfo option \<times> 'f \<times> mem" where
  "memory_map_again bs buf info x =
     (let (q, x) = GetMemoryMap bs 0 NULL x;
          (q, x) = GetMemoryMap bs (mm_size q + 2 * mm_desc_size q) buf x;
          info = build_mmap (snd x) buf (mm_size q) (mm_desc_size q) info;
          (st, x) = ExitBootServices bs (mm_key q) x
      in if st \<noteq> EFI_SUCCESS then (None, x) else (Some info, x))"

definition leave_firmware :: "'f boot_services \<Rightarrow> BootInfo \<Rightarrow> 'f \<times> mem \<Rightarrow> BootInfo option \<times> 'f \<times> mem" where
  "leave_firmware bs info x =
     (let (q, x) = GetMemoryMap bs 0 NULL x;
          sz = mm_size q + 2 * mm_desc_size q;
          ((st, buf), x) = AllocatePool bs sz x
      in if st \<noteq> EFI_SUCCESS then (None, x)
         else
           let (q, x) = GetMemoryMap bs sz buf x
           in if mm_status q \<noteq> EFI_SUCCESS then (None, x)
              else
                let info = build_mmap (snd x) buf (mm_size q) (mm_desc_size q) info;
                    (st, x) = ExitBootServices bs (mm_key q) x
                in if st \<noteq> EFI_SUCCESS then memory_map_again bs buf info x else (Some info, x))"

definition efi_main :: "'f boot_services \<Rightarrow> ptr \<Rightarrow> ptr \<Rightarrow> 'f \<times> mem \<Rightarrow> BootInfo option \<times> 'f \<times> mem" where
  "efi_main bs kernel_start kernel_end x =
     (let (st, f, x) = init_gop bs (fb zero_info) x
      in if st \<noteq> EFI_SUCCESS then (None, x)
         else
           let ks = kernel_end - kernel_start;
               pages = (kernel_alloc_size ks + 4095) div 4096;
               (st, x) = AllocatePages bs pages KERNEL_LOAD_ADDR x
           in if st \<noteq> EFI_SUCCESS then (None, x)
              else
                let x = (fst x, memcpy (snd x) KERNEL_LOAD_ADDR kernel_start ks)
                in leave_firmware bs (zero_info\<lparr>fb := f, kernel_phys_base := KERNEL_LOAD_ADDR, kernel_size := ks\<rparr>) x)"

section \<open>Lemmas\<close>

lemma usable_types: "translate_efi_memory_type t = MMAP_USABLE \<longleftrightarrow> t \<in> {3, 4, 7}"
  by (auto simp: translate_efi_memory_type_def)

lemma list_update_extends: "k < length xs \<Longrightarrow> take (Suc k) (xs[k := v]) = take k xs @ [v]"
  by (simp add: take_Suc_conv_app_nth)

lemma mmap_loop_entries:
  assumes "unat desc_size * N \<le> unat mmap_size" and "unat mmap_size \<le> unat desc_size * N" and "0 < unat desc_size"
    and "k + n = 256" and "k \<le> N" and "length (mmap info) = 256" and "unat (mmap_count info) = k"
    and "off = of_nat (unat desc_size * k)" and "unat mmap_size + unat desc_size < 2 ^ 64"
    and "take k (mmap info) = map (\<lambda>i. translate_descriptor m (a + of_nat (unat desc_size * i))) [0..<k]"
  shows "let r = mmap_loop n m a off mmap_size desc_size info
    in unat (mmap_count r) = min N 256
      \<and> take (min N 256) (mmap r) = map (\<lambda>i. translate_descriptor m (a + of_nat (unat desc_size * i))) [0..<min N 256]"
  using assms(4-8,10)
proof (induction n arbitrary: k off info)
  case 0
  then show ?case by simp
next
  case (Suc n)
  have ds: "unat desc_size * k \<le> unat mmap_size" using Suc.prems(2) assms(1) mult_le_mono2 order_trans by blast
  have o: "unat off = unat desc_size * k" unfolding Suc.prems(5) by (rule unat_of_nat_u64) (use ds assms(9) in linarith)
  show ?case
  proof (cases "k < N")
    case True
    have "unat desc_size * k < unat desc_size * N" using True assms(3) by (rule mult_less_mono2)
    then have lt: "off < mmap_size" unfolding word_less_nat_alt o using assms(1) by (rule order.strict_trans2)
    let ?i = "info\<lparr>mmap := (mmap info)[unat (mmap_count info) := translate_descriptor m (a + off)], mmap_count := mmap_count info + 1\<rparr>"
    have c: "unat (mmap_count ?i) = Suc k" using Suc.prems(1,4) by (simp add: unat_word_ariths)
    have o': "off + desc_size = of_nat (unat desc_size * Suc k)" unfolding Suc.prems(5) by (simp add: algebra_simps)
    have t: "take (Suc k) (mmap ?i) = map (\<lambda>i. translate_descriptor m (a + of_nat (unat desc_size * i))) [0..<Suc k]"
      using list_update_extends [of k "mmap info" "translate_descriptor m (a + off)"] Suc.prems by simp
    show ?thesis using Suc.IH [of "Suc k" ?i "off + desc_size"] Suc.prems True c o' t lt by simp
  next
    case False
    then have "k = N" using Suc.prems(2) by simp
    moreover have "\<not> off < mmap_size" using o assms(2) \<open>k = N\<close> by (simp add: word_less_nat_alt)
    ultimately show ?thesis using Suc.prems by simp
  qed
qed

text \<open>Each of the first 256 descriptors of the firmware gives an entry, in order; the others are dropped.\<close>

lemma build_mmap_entries:
  assumes "unat mmap_size = unat desc_size * N" and "0 < unat desc_size" and "unat mmap_size + unat desc_size < 2 ^ 64" and "length (mmap info) = 256"
  shows "let r = build_mmap m a mmap_size desc_size info
    in unat (mmap_count r) = min N 256
      \<and> take (min N 256) (mmap r) = map (\<lambda>i. translate_descriptor m (a + of_nat (unat desc_size * i))) [0..<min N 256]"
  unfolding build_mmap_def by (rule mmap_loop_entries [where k = 0]) (use assms in simp_all)

lemma kernel_space: "unat ks < 2 ^ 62 \<Longrightarrow> unat ks \<le> unat (kernel_alloc_size ks)"
  by (simp add: kernel_alloc_size_def unat_word_ariths word_less_nat_alt)

end
