(* ===== verification/Spec2Isabelle.thy ===== *)
theory Spec2Isabelle
  imports Net Fat32 Sync Gdt Vmm Idt Mouse Pci Virtio Elf Shell Ata Xhci Boot
begin

text \<open>
  A verification development of micro-os, a 64-bit UEFI kernel in C (sources under \<open>src/\<close>).

  \<^bold>\<open>The program.\<close>  The boot loader hands the kernel a memory map and a framebuffer.  The kernel sets up its descriptor
  tables, its physical page allocator, its page tables and its heap, starts the scheduler and the drivers, and runs a
  shell.  Tasks call the kernel through interrupt 0x80.  The heap takes pages from the page allocator; the scheduler
  takes stacks from the heap; the file system keeps file contents on the heap; the system calls join file system,
  scheduler, console and keyboard.  The state follows this layering: the record \<open>machine\<close> (the processor flags) is
  extended by \<open>pmm\<close>, \<open>heap\<close>, \<open>sched\<close>, \<open>vfs\<close> and \<open>kernel\<close> in turn, and an operation of one layer works on every
  extension of its record.

  \<^bold>\<open>Conventions.\<close>  Machine integers are words of their width.  Memory is a function from 64-bit addresses to bytes.
  An operation that takes a spinlock, or loops without a bound, is of type option: \<open>None\<close> is the run that never
  returns, a spin on a held lock or an endless loop, and the theorems state that the operations return.  Where the C code
  returns \<open>NULL\<close> or -1 the model returns the same value or an inner \<open>None\<close>.  Hardware that the code calls and
  code outside the sources are arguments: the disk in \<open>Fat32\<close> and the drive behind it in \<open>Ata\<close>, the network card in \<open>Net\<close>, the controller
  in \<open>Xhci\<close>, the firmware in \<open>Boot\<close>, the mouse cursor and the font in \<open>Console\<close>.

  \<^bold>\<open>The theories.\<close>
  \<^item> \<open>Prelude\<close>: words, address ranges, 64-bit loads and stores, alignment.
  \<^item> \<open>Bytes\<close>: little-endian numbers of other widths.
  \<^item> \<open>CString\<close>: \<open>kernel/string.c\<close>; copying, comparison, \<open>strncpy\<close> and what it writes.
  \<^item> \<open>Spinlock\<close>: the spinlock of \<open>kernel/sync.h\<close> with the interrupt flag it saves.
  \<^item> \<open>Popcount\<close>, \<open>Pmm\<close>: \<open>kernel/mm/pmm.c\<close>.  The allocation bitmap against the set of free pages; initialisation from the memory
    map frees exactly the usable pages outside kernel, bitmap and the first megabyte; allocation takes the lowest free
    page; successive allocations differ; freeing restores the set.
  \<^item> \<open>Heap\<close>: \<open>kernel/mm/heap.c\<close>.  The sorted free list in memory against a list of blocks; allocation returns memory disjoint from
    the free blocks and from all that was allocated, freeing gives back exactly the block, and the two are inverse.
  \<^item> \<open>Vmm\<close>: \<open>kernel/mm/vmm.c\<close>.  The page tables against the translation that the processor performs: the identity map
    after start, a mapped page translates, and a page under a huge page is silently not mapped.
  \<^item> \<open>Sched\<close>: \<open>kernel/sched/task.c\<close>.  The invariant of the task table over all sequences of operations, the choice of
    the next task, exit codes reach waiting tasks, and what a failed creation leaves behind.
  \<^item> \<open>User\<close>, \<open>Elf\<close>: \<open>kernel/user.c\<close> and \<open>kernel/elf.c\<close>.  A created task reaches its program; a page of a segment receives its bytes of the
    file; what the check of a segment lets through.
  \<^item> \<open>Sync\<close>: \<open>kernel/sync.c\<close> and \<open>kernel/drivers/timer.c\<close>.  Mutual exclusion, the bound of a semaphore, progress of a locker, and when
    the tick preempts.
  \<^item> \<open>Vfs\<close>: \<open>kernel/fs/vfs.c\<close>.  The invariant of nodes and descriptors over all sequences of operations, reading back what was
    written, resolving what was created.
  \<^item> \<open>Fat32\<close>: \<open>kernel/fs/fat32.c\<close>.  Geometry of a mounted volume, the bytes of a cluster chain, long names inside their buffer.
  \<^item> \<open>Keyboard\<close>: \<open>kernel/drivers/keyboard.c\<close>.  The ring buffer as a bounded queue, and what a scan code adds.
  \<^item> \<open>Console\<close>: \<open>kernel/console.c\<close>.  The cursor stays on the screen; numbers print as their digits.
  \<^item> \<open>Mouse\<close>: \<open>kernel/drivers/mouse.c\<close>.  The position stays on the screen, and erasing the cursor restores the picture.
  \<^item> \<open>Net\<close>: \<open>kernel/net/net.c\<close>.  Checksums verify, the address cache, the answer to a request.
  \<^item> \<open>Pci\<close>: \<open>kernel/drivers/pci.c\<close>.  The bus scan ends where bridges lead to higher buses, records what the configuration
    space holds, and never ends at a bridge that leads back.
  \<^item> \<open>Virtio\<close>: \<open>kernel/drivers/virtio_net.c\<close>.  Queue set-up keeps or returns its pages, polling ends and delivers what the card
    reported, and where driver and card disagree about ring entries.
  \<^item> \<open>Shell\<close>: the shell of \<open>kernel/main.c\<close>.  Resolved paths are normal, \<open>cat\<close> prints the file, \<open>wc\<close> counts, the line editor stays in its
    buffer, and what completion and \<open>tail\<close> do wrong.
  \<^item> \<open>Ata\<close>: \<open>kernel/drivers/ata.c\<close> and \<open>kernel/serial.c\<close>.  A read from a drive that follows the protocol puts the bytes of its sectors
    into memory, and the driver provides the disk \<open>Fat32\<close> takes as an argument.
  \<^item> \<open>Xhci\<close>: \<open>kernel/drivers/xhci.c\<close>.  Commands pushed on the command ring reach a controller that follows the cycle bits, and sending a command ends.
  \<^item> \<open>Boot\<close>: \<open>boot/main.c\<close>.  The memory map handed to the kernel has an entry for each of the first 256 descriptors of the firmware.
  \<^item> \<open>Gdt\<close>: \<open>kernel/interrupts/gdt.c\<close>.  The descriptor bytes decode to the intended segments.
  \<^item> \<open>Idt\<close>: \<open>kernel/interrupts/idt.c\<close>.  The gates lead to their stubs, and a fault of a user task ends only that task.
  \<^item> \<open>Syscall\<close>: \<open>kernel/syscall.c\<close>.  Memory that a read may change, and refused calls.

  \<^bold>\<open>Interfaces.\<close>  Locales state a contract once, and an interpretation discharges it for the model: a page allocator, from
  which \<open>Pmm\<close> obtains that allocations differ, and a bounded queue, which the keyboard buffer implements.

  \<^bold>\<open>Bounds.\<close>  The walk along a cluster chain has the bound on its steps that the C code has.  The network state holds the
  list of what the card and the clock deliver at the polls to come; a polling loop runs at most as often as that list is
  long, so its fuel, the length of the list, is never what ends it.  A wait for an address can process a frame that
  starts another such wait; the number of nested waits allowed is an argument.  All other recursion follows the data, has
  a termination proof, or is a partial function whose \<open>None\<close> is the run that does not end.

  \<^bold>\<open>Not modelled.\<close>  Assembly (\<open>boot/kernel_blob.asm\<close>, \<open>kernel/entry.asm\<close>, the interrupt, switch and entry stubs): not C.
  \<open>boot/uefi.h\<close>: the interface of the firmware, whose services are arguments of \<open>Boot\<close>.  The list of USB devices \<open>xhci_list_devices\<close>, which
  only prints.  \<open>kernel/hal\<close>: tables of function pointers; the models
  call the registered functions directly.  The boot sequence \<open>kernel_main\<close> of \<open>kernel/main.c\<close>, which only calls the initialisation of the
  components in turn, and the shell commands that only print what another component reports; \<open>kernel/test.c\<close>: the self-tests, which print.  The contents of the font.  Caches and interleavings inside a critical section: interrupts are off
  there and there is one processor.
\<close>

end
